(* ===== verification/Prelude.thy ===== *)
theory Prelude
  imports Main "HOL-Library.AList" "HOL-Library.Multiset"
begin

text \<open>
  Shared vocabulary of the development: Python exceptions as values, the result type of
  fallible code with its sequencing operation, dictionaries that keep insertion order,
  \<open>str.join\<close> and \<open>str.split\<close>, and \<open>collections.Counter\<close>. The components
  only use these through the lemmas proved here; the collection \<open>dict_simps\<close> holds the
  rules that move lookups through dictionary updates.
\<close>

named_theorems dict_simps

section \<open>Exceptions and results\<close>

text \<open>
  One constructor per exception class the modelled code can raise. \<open>AssertionError\<close>
  carries its message, because \<open>BayouServer._process_req\<close> sends it back to the client;
  \<open>GenericException\<close> is a bare \<open>Exception(...)\<close>; \<open>ProcessKilled\<close> stands for the SIGKILL a
  process sends to itself.
\<close>

datatype exc =
    KeyError
  | IndexError
  | TypeError
  | ValueError
  | AttributeError
  | AssertionError string
  | NotImplementedError
  | OverflowError
  | StructError
  | JSONDecodeError
  | UnicodeDecodeError
  | SimulatedConnectionError
  | GenericException string
  | FileNotFoundError
  | ConnectionError
  | ProcessKilled

type_synonym 'a res = "exc + 'a"

definition rbind :: "'a res \<Rightarrow> ('a \<Rightarrow> 'b res) \<Rightarrow> 'b res" where
  "rbind r f = (case r of Inl e \<Rightarrow> Inl e | Inr x \<Rightarrow> f x)"

lemma rbind_Inl [simp]: "rbind (Inl e) f = Inl e"
  by (simp add: rbind_def)

lemma rbind_Inr [simp]: "rbind (Inr x) f = f x"
  by (simp add: rbind_def)

lemma rbind_eq_Inr: "rbind r f = Inr y \<longleftrightarrow> (\<exists>x. r = Inr x \<and> f x = Inr y)"
  by (cases r) simp_all

lemma rbind_cong [fundef_cong]:
  "r = r' \<Longrightarrow> (\<And>x. r' = Inr x \<Longrightarrow> f x = g x) \<Longrightarrow> rbind r f = rbind r' g"
  by (cases r') simp_all

definition py_assert :: "bool \<Rightarrow> string \<Rightarrow> unit res" where
  "py_assert b msg = (if b then Inr () else Inl (AssertionError msg))"

lemma py_assert_simps [simp]:
  "py_assert True msg = Inr ()"
  "py_assert False msg = Inl (AssertionError msg)"
  by (simp_all add: py_assert_def)

lemma py_assert_Inr: "py_assert b msg = Inr u \<longleftrightarrow> b"
  by (simp add: py_assert_def)

text \<open>\<open>[f(x) for x in xs]\<close>, stopping at the first exception.\<close>

fun rmap :: "('a \<Rightarrow> 'b res) \<Rightarrow> 'a list \<Rightarrow> 'b list res" where
  "rmap f [] = Inr []"
| "rmap f (x # xs) = rbind (f x) (\<lambda>y. rbind (rmap f xs) (\<lambda>ys. Inr (y # ys)))"

lemma rmap_Inr_map:
  "(\<And>x. x \<in> set xs \<Longrightarrow> f x = Inr (g x)) \<Longrightarrow> rmap f xs = Inr (map g xs)"
  by (induction xs) simp_all

section \<open>Dictionaries\<close>

text \<open>
  A Python \<open>dict\<close> is an association list in insertion order: storing under a present key
  replaces the value in place, storing under a new key appends.
\<close>

type_synonym ('k, 'v) dict = "('k \<times> 'v) list"

abbreviation dict_get :: "('k, 'v) dict \<Rightarrow> 'k \<Rightarrow> 'v option" where
  "dict_get d k \<equiv> map_of d k"

abbreviation dict_set :: "('k, 'v) dict \<Rightarrow> 'k \<Rightarrow> 'v \<Rightarrow> ('k, 'v) dict" where
  "dict_set d k v \<equiv> AList.update k v d"

abbreviation dict_keys :: "('k, 'v) dict \<Rightarrow> 'k list" where
  "dict_keys d \<equiv> map fst d"

definition dict_index :: "('k, 'v) dict \<Rightarrow> 'k \<Rightarrow> 'v res" where
  "dict_index d k = (case map_of d k of None \<Rightarrow> Inl KeyError | Some v \<Rightarrow> Inr v)"

text \<open>\<open>d.pop(k)\<close> without a default: the value and the dictionary without the key.\<close>

definition dict_pop :: "('k, 'v) dict \<Rightarrow> 'k \<Rightarrow> ('v \<times> ('k, 'v) dict) res" where
  "dict_pop d k = (case map_of d k of
     None \<Rightarrow> Inl KeyError
   | Some v \<Rightarrow> Inr (v, AList.delete k d))"

text \<open>\<open>d1 | d2\<close>: the keys of \<open>d2\<close> win.\<close>

definition dict_union :: "('k, 'v) dict \<Rightarrow> ('k, 'v) dict \<Rightarrow> ('k, 'v) dict" where
  "dict_union d1 d2 = fold (\<lambda>(k, v) d. dict_set d k v) d2 d1"

text \<open>Python compares dictionaries as sets of items, not by order.\<close>

definition dict_eq :: "('k, 'v) dict \<Rightarrow> ('k, 'v) dict \<Rightarrow> bool" where
  "dict_eq d1 d2 = ((\<forall>k \<in> set (dict_keys d1). map_of d1 k = map_of d2 k) \<and>
                    (\<forall>k \<in> set (dict_keys d2). map_of d1 k = map_of d2 k))"

lemma dict_index_Inr: "dict_index d k = Inr v \<longleftrightarrow> map_of d k = Some v"
  by (simp add: dict_index_def split: option.splits)

lemma dict_index_Inl: "dict_index d k = Inl e \<longleftrightarrow> map_of d k = None \<and> e = KeyError"
  by (auto simp add: dict_index_def split: option.splits)

lemma dict_get_set [dict_simps]:
  "map_of (AList.update k v d) k' = (if k' = k then Some v else map_of d k')"
  by (simp add: AList.update_conv')

lemma dict_get_delete [dict_simps]:
  "map_of (AList.delete k d) k' = (if k' = k then None else map_of d k')"
  by (simp add: AList.delete_conv')

lemma set_dict_set: "set (dict_set d k v) \<subseteq> insert (k, v) (set d)"
  by (induction d) auto

lemma dict_eq_iff: "dict_eq d1 d2 \<longleftrightarrow> map_of d1 = map_of d2"
proof
  assume eq: "dict_eq d1 d2"
  show "map_of d1 = map_of d2"
  proof
    fix k
    show "map_of d1 k = map_of d2 k"
    proof (cases "k \<in> set (dict_keys d1) \<union> set (dict_keys d2)")
      case True
      with eq show ?thesis by (auto simp: dict_eq_def)
    next
      case False
      then have "map_of d1 k = None" and "map_of d2 k = None"
        by (auto simp: map_of_eq_None_iff)
      then show ?thesis by simp
    qed
  qed
qed (simp add: dict_eq_def)

lemma map_of_dict_union: "distinct (dict_keys d2) \<Longrightarrow> map_of (dict_union d1 d2) = map_of d1 ++ map_of d2"
proof (induction d2 arbitrary: d1)
  case Nil
  then show ?case by (simp add: dict_union_def)
next
  case (Cons p d2)
  obtain k v where p: "p = (k, v)" by (cases p)
  have "dict_union d1 (p # d2) = dict_union (dict_set d1 k v) d2"
    by (simp add: dict_union_def p)
  also have "map_of \<dots> = (map_of d1)(k \<mapsto> v) ++ map_of d2"
    using Cons by (simp add: AList.update_conv')
  also have "\<dots> = map_of d1 ++ (map_of d2)(k \<mapsto> v)"
  proof -
    have "map_of d2 k = None" using Cons.prems p by (simp add: map_of_eq_None_iff)
    then show ?thesis by (simp add: map_add_upd_left domIff)
  qed
  finally show ?case by (simp add: p fun_eq_iff map_add_def split: option.splits)
qed

section \<open>Strings\<close>

fun join :: "'a list \<Rightarrow> 'a list list \<Rightarrow> 'a list" where
  "join sep [] = []"
| "join sep [w] = w"
| "join sep (w # ws) = w @ sep @ join sep ws"

text \<open>Splitting at every single element that satisfies \<open>p\<close>; never the empty list.\<close>

fun split_by :: "('a \<Rightarrow> bool) \<Rightarrow> 'a list \<Rightarrow> 'a list list" where
  "split_by p [] = [[]]"
| "split_by p (x # xs) =
     (if p x then [] # split_by p xs
      else (x # hd (split_by p xs)) # tl (split_by p xs))"

text \<open>\<open>s.split(" ")\<close> keeps empty fields; \<open>s.split()\<close> cuts at runs of white space.\<close>

definition split_space :: "string \<Rightarrow> string list" where
  "split_space s = split_by (\<lambda>c. c = CHR '' '') s"

definition is_space :: "char \<Rightarrow> bool" where
  "is_space c = (c \<in> {CHR '' '', CHR 0x09, CHR 0x0A, CHR 0x0B, CHR 0x0C, CHR 0x0D,
                       CHR 0x1C, CHR 0x1D, CHR 0x1E, CHR 0x1F, CHR 0x85, CHR 0xA0})"

definition strip :: "string \<Rightarrow> string" where
  "strip s = rev (dropWhile is_space (rev (dropWhile is_space s)))"

definition split_ws :: "string \<Rightarrow> string list" where
  "split_ws s = filter (\<lambda>w. w \<noteq> []) (split_by is_space s)"

lemma split_by_nonempty [simp]: "split_by p xs \<noteq> []"
  by (cases xs) simp_all

lemma split_by_append_sep:
  "(\<And>x. x \<in> set w \<Longrightarrow> \<not> p x) \<Longrightarrow> p c \<Longrightarrow> split_by p (w @ c # s) = w # split_by p s"
  by (induction w) simp_all

lemma split_by_no_sep: "(\<And>x. x \<in> set w \<Longrightarrow> \<not> p x) \<Longrightarrow> split_by p w = [w]"
  by (induction w) simp_all

lemma split_by_join:
  assumes "ws \<noteq> []" "p c" "\<And>w x. w \<in> set ws \<Longrightarrow> x \<in> set w \<Longrightarrow> \<not> p x"
  shows "split_by p (join [c] ws) = ws"
  using assms
proof (induction ws rule: induct_list012)
  case (2 w)
  then have "\<And>x. x \<in> set w \<Longrightarrow> \<not> p x" by simp
  then show ?case by (simp add: split_by_no_sep)
next
  case (3 w v ws)
  have "split_by p (join [c] (w # v # ws)) = split_by p (w @ c # join [c] (v # ws))" by simp
  also have "\<dots> = w # split_by p (join [c] (v # ws))"
    using "3.prems" by (intro split_by_append_sep) auto
  also have "split_by p (join [c] (v # ws)) = v # ws"
    using "3.prems" by (intro "3.IH"(2)) auto
  finally show ?case .
qed simp

lemma join_append:
  "xs \<noteq> [] \<Longrightarrow> ys \<noteq> [] \<Longrightarrow> join sep (xs @ ys) = join sep xs @ sep @ join sep ys"
proof (induction xs rule: induct_list012)
  case (2 x)
  then show ?case by (cases ys) simp_all
qed simp_all

lemma join_concat:
  "(\<And>ws. ws \<in> set wss \<Longrightarrow> ws \<noteq> []) \<Longrightarrow> join sep (map (join sep) wss) = join sep (concat wss)"
proof (induction wss rule: induct_list012)
  case (3 xs ys wss)
  then have "xs \<noteq> []" and "concat (ys # wss) \<noteq> []" by auto
  with 3 show ?case using join_append [of xs "concat (ys # wss)" sep] by simp
qed simp_all

section \<open>Counter\<close>

text \<open>\<open>d[k] += n\<close> on a \<open>defaultdict(int)\<close> or a \<open>Counter\<close>.\<close>

definition bump :: "('k, int) dict \<Rightarrow> 'k \<Rightarrow> int \<Rightarrow> ('k, int) dict" where
  "bump d k n = dict_set d k ((case map_of d k of None \<Rightarrow> 0 | Some c \<Rightarrow> c) + n)"

text \<open>\<open>collections.Counter(xs)\<close>, and \<open>c.update(xs)\<close> on an existing counter.\<close>

definition counter_update :: "('k, int) dict \<Rightarrow> 'k list \<Rightarrow> ('k, int) dict" where
  "counter_update d xs = fold (\<lambda>x d. bump d x 1) xs d"

definition counter :: "'k list \<Rightarrow> ('k, int) dict" where
  "counter xs = counter_update [] xs"

lemma map_of_bump [dict_simps]:
  "map_of (bump d k n) j =
     (if j = k then Some ((case map_of d k of None \<Rightarrow> 0 | Some c \<Rightarrow> c) + n) else map_of d j)"
  by (simp add: bump_def dict_simps)

lemma distinct_bump [simp]: "distinct (dict_keys d) \<Longrightarrow> distinct (dict_keys (bump d k n))"
  by (simp add: bump_def AList.distinct_update)

lemma set_keys_bump [simp]: "fst ` set (bump d k n) = insert k (fst ` set d)"
  by (simp add: bump_def AList.dom_update)

lemma counter_update_simps [simp]:
  "counter_update d [] = d"
  "counter_update d (x # xs) = counter_update (bump d x 1) xs"
  by (simp_all add: counter_update_def)

lemma counter_update_append: "counter_update d (xs @ ys) = counter_update (counter_update d xs) ys"
  by (simp add: counter_update_def)

lemma distinct_counter_update: "distinct (dict_keys d) \<Longrightarrow> distinct (dict_keys (counter_update d xs))"
  by (induction xs arbitrary: d) simp_all

lemma keys_counter_update: "fst ` set (counter_update d xs) = fst ` set d \<union> set xs"
  by (induction xs arbitrary: d) simp_all

lemma map_of_counter_update:
  "map_of (counter_update d xs) k =
     (if k \<in> set xs then Some ((case map_of d k of None \<Rightarrow> 0 | Some c \<Rightarrow> c) + int (count_list xs k))
      else map_of d k)"
proof (induction xs arbitrary: d)
  case (Cons x xs)
  show ?case
    by (simp add: Cons map_of_bump split: option.splits)
qed simp

lemma distinct_counter [simp]: "distinct (dict_keys (counter xs))"
  by (simp add: counter_def distinct_counter_update)

lemma keys_counter [simp]: "fst ` set (counter xs) = set xs"
  by (simp add: counter_def keys_counter_update)

lemma map_of_counter:
  "map_of (counter xs) k = (if k \<in> set xs then Some (int (count_list xs k)) else None)"
  by (simp add: counter_def map_of_counter_update)

end
