(* ===== verification/Json.thy ===== *)
theory Json
  imports Prelude
begin

text \<open>
  The part of Python's \<open>json\<close> module the labs rely on: \<open>json.dumps\<close> with its default
  settings (separators \<open>", "\<close> and \<open>": "\<close>, everything outside printable ASCII escaped) and
  \<open>json.loads\<close> as a recursive descent parser with a fuel argument. Every message of the
  labs is built from null, booleans, integers, strings, lists and dictionaries with string
  keys; floats are not values of the model, and a string is a list of code points below 256.
  The fuel given by \<open>loads\<close> is twice the length of the text, which \<open>loads_fuel_enough\<close> shows to be enough for
  every text.
\<close>

section \<open>Values\<close>

datatype json =
    JNull
  | JBool bool
  | JInt int
  | JStr string
  | JArr "json list"
  | JObj "(string \<times> json) list"

text \<open>A dictionary has each key once.\<close>

fun wf_json :: "json \<Rightarrow> bool" where
  "wf_json (JArr xs) = list_all wf_json xs"
| "wf_json (JObj kvs) = (distinct (map fst kvs) \<and> list_all (\<lambda>(k, v). wf_json v) kvs)"
| "wf_json j = True"

section \<open>Printing\<close>

definition hex_digit :: "nat \<Rightarrow> char" where
  "hex_digit n = (if n < 10 then char_of (48 + n) else char_of (87 + n))"

definition dumps_char :: "char \<Rightarrow> string" where
  "dumps_char c =
     (if c = CHR 0x22 then [CHR 0x5C, CHR 0x22]
      else if c = CHR 0x5C then [CHR 0x5C, CHR 0x5C]
      else if c = CHR 0x0A then [CHR 0x5C, CHR ''n'']
      else if c = CHR 0x0D then [CHR 0x5C, CHR ''r'']
      else if c = CHR 0x09 then [CHR 0x5C, CHR ''t'']
      else if c = CHR 0x0C then [CHR 0x5C, CHR ''f'']
      else if c = CHR 0x08 then [CHR 0x5C, CHR ''b'']
      else let n = of_char c :: nat in
        if 32 \<le> n \<and> n \<le> 126 then [c]
        else [CHR 0x5C, CHR ''u'', CHR ''0'', CHR ''0'', hex_digit (n div 16), hex_digit (n mod 16)])"

definition dumps_str :: "string \<Rightarrow> string" where
  "dumps_str s = CHR 0x22 # concat (map dumps_char s) @ [CHR 0x22]"

fun digits :: "nat \<Rightarrow> string" where
  "digits n = (if n < 10 then [char_of (48 + n)] else digits (n div 10) @ [char_of (48 + n mod 10)])"

declare digits.simps [simp del]

definition dumps_int :: "int \<Rightarrow> string" where
  "dumps_int i = (if i < 0 then CHR ''-'' # digits (nat (- i)) else digits (nat i))"

fun dumps :: "json \<Rightarrow> string" where
  "dumps JNull = ''null''"
| "dumps (JBool b) = (if b then ''true'' else ''false'')"
| "dumps (JInt i) = dumps_int i"
| "dumps (JStr s) = dumps_str s"
| "dumps (JArr xs) = ''['' @ join '', '' (map dumps xs) @ '']''"
| "dumps (JObj kvs) =
     CHR 0x7B # join '', '' (map (\<lambda>(k, v). dumps_str k @ '': '' @ dumps v) kvs) @ [CHR 0x7D]"

section \<open>Parsing\<close>

definition skip_ws :: "string \<Rightarrow> string" where
  "skip_ws s = dropWhile (\<lambda>c. c \<in> {CHR '' '', CHR 0x09, CHR 0x0A, CHR 0x0D}) s"

definition is_digit :: "char \<Rightarrow> bool" where
  "is_digit c = (48 \<le> (of_char c :: nat) \<and> (of_char c :: nat) \<le> 57)"

definition hex_val :: "char \<Rightarrow> nat option" where
  "hex_val c = (let n = of_char c in
     if 48 \<le> n \<and> n \<le> 57 then Some (n - 48)
     else if 97 \<le> n \<and> n \<le> 102 then Some (n - 87)
     else if 65 \<le> n \<and> n \<le> 70 then Some (n - 55)
     else None)"

fun hex4 :: "char list \<Rightarrow> nat option" where
  "hex4 [a, b, c, d] = (case (hex_val a, hex_val b, hex_val c, hex_val d) of
     (Some w, Some x, Some y, Some z) \<Rightarrow> Some (((w * 16 + x) * 16 + y) * 16 + z)
   | _ \<Rightarrow> None)"
| "hex4 _ = None"

definition unescape :: "char \<Rightarrow> char option" where
  "unescape e = map_of
     [(CHR 0x22, CHR 0x22), (CHR 0x5C, CHR 0x5C), (CHR ''/'', CHR ''/''), (CHR ''n'', CHR 0x0A),
      (CHR ''r'', CHR 0x0D), (CHR ''t'', CHR 0x09), (CHR ''f'', CHR 0x0C), (CHR ''b'', CHR 0x08)] e"

definition push :: "char \<Rightarrow> (string \<times> string) res \<Rightarrow> (string \<times> string) res" where
  "push c r = rbind r (\<lambda>(s, rest). Inr (c # s, rest))"

text \<open>The characters after an opening quote, up to the closing one.\<close>

fun parse_str :: "string \<Rightarrow> (string \<times> string) res" where
  "parse_str [] = Inl JSONDecodeError"
| "parse_str (c # cs) =
     (if c = CHR 0x22 then Inr ([], cs)
      else if c = CHR 0x5C then
        (case cs of
           [] \<Rightarrow> Inl JSONDecodeError
         | e # cs' \<Rightarrow>
             (if e = CHR ''u'' then
                (case cs' of
                   h1 # h2 # h3 # h4 # rest \<Rightarrow>
                     (case hex4 [h1, h2, h3, h4] of
                        Some n \<Rightarrow> if n < 256 then push (char_of n) (parse_str rest) else Inl JSONDecodeError
                      | None \<Rightarrow> Inl JSONDecodeError)
                 | _ \<Rightarrow> Inl JSONDecodeError)
              else (case unescape e of
                      Some c' \<Rightarrow> push c' (parse_str cs')
                    | None \<Rightarrow> Inl JSONDecodeError)))
      else if (of_char c :: nat) < 32 then Inl JSONDecodeError
      else push c (parse_str cs))"

definition digits_val :: "string \<Rightarrow> nat" where
  "digits_val ds = foldl (\<lambda>a c. a * 10 + (of_char c - 48)) 0 ds"

fun parse_nat :: "string \<Rightarrow> (nat \<times> string) res" where
  "parse_nat [] = Inl JSONDecodeError"
| "parse_nat (c # cs) =
     (if c = CHR ''0'' then Inr (0, cs)
      else if is_digit c then Inr (digits_val (c # takeWhile is_digit cs), dropWhile is_digit cs)
      else Inl JSONDecodeError)"

definition parse_int :: "string \<Rightarrow> (int \<times> string) res" where
  "parse_int s = (case s of
     c # cs \<Rightarrow> if c = CHR ''-'' then rbind (parse_nat cs) (\<lambda>(n, r). Inr (- int n, r))
               else rbind (parse_nat s) (\<lambda>(n, r). Inr (int n, r))
   | [] \<Rightarrow> Inl JSONDecodeError)"

text \<open>A literal word such as \<open>null\<close>.\<close>

definition parse_lit :: "string \<Rightarrow> json \<Rightarrow> string \<Rightarrow> (json \<times> string) res" where
  "parse_lit w j s = (if take (length w) s = w then Inr (j, drop (length w) s) else Inl JSONDecodeError)"

text \<open>
  \<open>parse_items\<close> reads the elements of a non-empty list and its closing bracket;
  \<open>parse_members\<close> the members of a non-empty object and its closing brace, the opening quote
  of the first key being the next character. A repeated key keeps its first position and its
  last value, as \<open>dict(pairs)\<close> does.
\<close>

fun parse_val :: "nat \<Rightarrow> string \<Rightarrow> (json \<times> string) res"
and parse_items :: "nat \<Rightarrow> string \<Rightarrow> (json list \<times> string) res"
and parse_members :: "nat \<Rightarrow> string \<Rightarrow> ((string \<times> json) list \<times> string) res" where
  "parse_val 0 s = Inl JSONDecodeError"
| "parse_val (Suc n) s =
     (case s of
        [] \<Rightarrow> Inl JSONDecodeError
      | c # cs \<Rightarrow>
          if c = CHR 0x22 then rbind (parse_str cs) (\<lambda>(t, r). Inr (JStr t, r))
          else if c = CHR 0x7B then
            (case skip_ws cs of
               [] \<Rightarrow> Inl JSONDecodeError
             | d # ds \<Rightarrow>
                 if d = CHR 0x7D then Inr (JObj [], ds)
                 else rbind (parse_members n (d # ds)) (\<lambda>(kvs, r). Inr (JObj (dict_union [] kvs), r)))
          else if c = CHR ''['' then
            (case skip_ws cs of
               [] \<Rightarrow> Inl JSONDecodeError
             | d # ds \<Rightarrow>
                 if d = CHR '']'' then Inr (JArr [], ds)
                 else rbind (parse_items n (d # ds)) (\<lambda>(xs, r). Inr (JArr xs, r)))
          else if c = CHR ''n'' then parse_lit ''null'' JNull s
          else if c = CHR ''t'' then parse_lit ''true'' (JBool True) s
          else if c = CHR ''f'' then parse_lit ''false'' (JBool False) s
          else rbind (parse_int s) (\<lambda>(i, r). Inr (JInt i, r)))"
| "parse_items 0 s = Inl JSONDecodeError"
| "parse_items (Suc n) s =
     rbind (parse_val n s) (\<lambda>(x, r).
       case skip_ws r of
         [] \<Rightarrow> Inl JSONDecodeError
       | c # cs \<Rightarrow>
           if c = CHR '']'' then Inr ([x], cs)
           else if c = CHR '','' then
             rbind (parse_items n (skip_ws cs)) (\<lambda>(xs, r'). Inr (x # xs, r'))
           else Inl JSONDecodeError)"
| "parse_members 0 s = Inl JSONDecodeError"
| "parse_members (Suc n) s =
     (case s of
        [] \<Rightarrow> Inl JSONDecodeError
      | q # s' \<Rightarrow>
          if q \<noteq> CHR 0x22 then Inl JSONDecodeError
          else rbind (parse_str s') (\<lambda>(k, r).
            case skip_ws r of
              [] \<Rightarrow> Inl JSONDecodeError
            | c # cs \<Rightarrow>
                if c \<noteq> CHR '':'' then Inl JSONDecodeError
                else rbind (parse_val n (skip_ws cs)) (\<lambda>(v, r').
                  case skip_ws r' of
                    [] \<Rightarrow> Inl JSONDecodeError
                  | d # ds \<Rightarrow>
                      if d = CHR 0x7D then Inr ([(k, v)], ds)
                      else if d = CHR '','' then
                        rbind (parse_members n (skip_ws ds)) (\<lambda>(kvs, r''). Inr ((k, v) # kvs, r''))
                      else Inl JSONDecodeError)))"

definition loads :: "string \<Rightarrow> json res" where
  "loads s = rbind (parse_val (2 * length s) (skip_ws s))
     (\<lambda>(j, r). if skip_ws r = [] then Inr j else Inl JSONDecodeError)"

section \<open>Round trip\<close>

text \<open>Characters: hexadecimal digits and escapes.\<close>

lemma hex_val_digit: "n < 16 \<Longrightarrow> hex_val (hex_digit n) = Some n"
  by (auto simp: hex_val_def hex_digit_def Let_def of_char_of)

lemma hex4_byte:
  assumes "n < 256"
  shows "hex4 [CHR ''0'', CHR ''0'', hex_digit (n div 16), hex_digit (n mod 16)] = Some n"
proof -
  have "hex_val CHR ''0'' = Some 0" by code_simp
  moreover have "n div 16 < 16" and "n mod 16 < 16" using assms by auto
  ultimately show ?thesis by (simp add: hex_val_digit)
qed

lemma unescape_simps [simp]:
  "unescape CHR 0x22 = Some CHR 0x22" "unescape CHR 0x5C = Some CHR 0x5C"
  "unescape CHR ''n'' = Some CHR 0x0A" "unescape CHR ''r'' = Some CHR 0x0D"
  "unescape CHR ''t'' = Some CHR 0x09" "unescape CHR ''f'' = Some CHR 0x0C"
  "unescape CHR ''b'' = Some CHR 0x08"
  by code_simp+

lemma parse_str_dumps_char:
  "parse_str (dumps_char c @ s) = push c (parse_str s)"
proof -
  let ?n = "of_char c :: nat"
  have n: "?n < 256" by simp
  consider "c \<in> {CHR 0x22, CHR 0x5C, CHR 0x0A, CHR 0x0D, CHR 0x09, CHR 0x0C, CHR 0x08}"
    | (plain) "c \<notin> {CHR 0x22, CHR 0x5C, CHR 0x0A, CHR 0x0D, CHR 0x09, CHR 0x0C, CHR 0x08}"
        "32 \<le> ?n" "?n \<le> 126"
    | (coded) "c \<notin> {CHR 0x22, CHR 0x5C, CHR 0x0A, CHR 0x0D, CHR 0x09, CHR 0x0C, CHR 0x08}"
        "\<not> (32 \<le> ?n \<and> ?n \<le> 126)"
    by blast
  then show ?thesis
  proof cases
    case 1
    then show ?thesis by (auto simp: dumps_char_def)
  next
    case plain
    then show ?thesis by (simp add: dumps_char_def)
  next
    case coded
    then have "dumps_char c =
        [CHR 0x5C, CHR ''u'', CHR ''0'', CHR ''0'', hex_digit (?n div 16), hex_digit (?n mod 16)]"
      unfolding dumps_char_def Let_def by simp
    then show ?thesis by (simp add: hex4_byte [OF n] n del: hex4.simps)
  qed
qed

lemma parse_str_dumps: "parse_str (concat (map dumps_char s) @ CHR 0x22 # rest) = Inr (s, rest)"
  by (induction s) (simp_all add: parse_str_dumps_char push_def)

text \<open>Numbers.\<close>

lemma of_char_digit: "d < 10 \<Longrightarrow> (of_char (char_of (48 + d)) :: nat) = 48 + d"
  by (simp add: of_char_of)

lemma digits_all_digit: "list_all is_digit (digits n)"
proof (induction n rule: digits.induct)
  case (1 n)
  show ?case
  proof (cases "n < 10")
    case True
    then show ?thesis by (subst digits.simps) (simp add: is_digit_def of_char_digit)
  next
    case False
    have "n mod 10 \<le> 9" by (simp add: less_Suc_eq_le [symmetric])
    with False show ?thesis using 1 by (subst digits.simps) (simp add: is_digit_def of_char_digit list_all_iff)
  qed
qed

lemma digits_val_digits: "digits_val (digits n) = n"
proof (induction n rule: digits.induct)
  case (1 n)
  show ?case
  proof (cases "n < 10")
    case True
    then show ?thesis by (subst digits.simps) (simp add: digits_val_def of_char_digit)
  next
    case False
    then have "digits_val (digits n) = digits_val (digits (n div 10)) * 10 + n mod 10"
      by (subst digits.simps) (simp add: digits_val_def of_char_digit)
    then show ?thesis using 1 False by simp
  qed
qed

lemma digits_nonempty: "digits n \<noteq> []"
  by (subst digits.simps) simp

lemma digits_hd_zero: "hd (digits n) = CHR ''0'' \<Longrightarrow> n = 0"
proof (induction n rule: digits.induct)
  case (1 n)
  show ?case
  proof (cases "n < 10")
    case True
    then have "char_of (48 + n) = CHR ''0''" using 1 by (subst (asm) digits.simps) simp
    then have "(of_char (char_of (48 + n) :: char) :: nat) = of_char CHR ''0''" by simp
    then show ?thesis using True by (simp add: of_char_digit)
  next
    case False
    then have "hd (digits n) = hd (digits (n div 10))"
      by (subst digits.simps) (simp add: digits_nonempty)
    then have "n div 10 = 0" using 1 False by simp
    then show ?thesis using False by simp
  qed
qed

lemma digits_0: "digits 0 = ''0''"
  by code_simp

definition delimited :: "string \<Rightarrow> bool" where
  "delimited s = (case s of [] \<Rightarrow> True | c # _ \<Rightarrow> \<not> is_digit c)"

lemma parse_nat_digits:
  assumes "delimited rest"
  shows "parse_nat (digits n @ rest) = Inr (n, rest)"
proof (cases "n = 0")
  case True
  then show ?thesis by (simp add: digits_0)
next
  case False
  obtain c cs where ds: "digits n = c # cs" using digits_nonempty by (cases "digits n") auto
  have "list_all is_digit (c # cs)" using digits_all_digit ds by metis
  then have c: "is_digit c" and cs: "\<And>x. x \<in> set cs \<Longrightarrow> is_digit x" by (auto simp: list_all_iff)
  have c0: "c \<noteq> CHR ''0''" using digits_hd_zero [of n] False ds by auto
  have rest: "takeWhile is_digit rest = []" "dropWhile is_digit rest = rest"
    using assms by (cases rest; simp add: delimited_def)+
  have "takeWhile is_digit (cs @ rest) = cs" and "dropWhile is_digit (cs @ rest) = rest"
    using cs rest by (simp_all add: takeWhile_append2 dropWhile_append2)
  then show ?thesis using c c0 ds digits_val_digits [of n] by simp
qed

lemma hd_digits_not_minus: "digits n = c # cs \<Longrightarrow> is_digit c \<and> c \<noteq> CHR ''-''"
proof -
  assume "digits n = c # cs"
  then have "is_digit c" using digits_all_digit [of n] by (auto simp: list_all_iff)
  moreover have "\<not> is_digit CHR ''-''" by code_simp
  ultimately show ?thesis by auto
qed

lemma parse_int_dumps: "delimited rest \<Longrightarrow> parse_int (dumps_int i @ rest) = Inr (i, rest)"
proof (cases "i < 0")
  case True
  then show "delimited rest \<Longrightarrow> ?thesis"
    by (simp add: dumps_int_def parse_int_def parse_nat_digits)
next
  case False
  obtain c cs where ds: "digits (nat i) = c # cs" using digits_nonempty by (cases "digits (nat i)") auto
  have "c \<noteq> CHR ''-''" using hd_digits_not_minus [OF ds] by simp
  then show "delimited rest \<Longrightarrow> ?thesis"
    using False parse_nat_digits [of rest "nat i"] ds by (simp add: dumps_int_def parse_int_def)
qed

text \<open>Values: what a printed value starts with decides the branch of \<open>parse_val\<close>.\<close>

lemma is_digit_branch:
  "is_digit c \<Longrightarrow> c \<notin> {CHR 0x22, CHR 0x7B, CHR 0x7D, CHR ''['', CHR '']'', CHR ''n'', CHR ''t'', CHR ''f'', CHR '' '', CHR 0x09, CHR 0x0A, CHR 0x0D}"
  by (auto simp: is_digit_def)

lemma dumps_int_cons: "\<exists>c cs. dumps_int i = c # cs \<and> (is_digit c \<or> c = CHR ''-'')"
proof (cases "i < 0")
  case False
  obtain c cs where "digits (nat i) = c # cs" using digits_nonempty by (cases "digits (nat i)") auto
  then show ?thesis using False hd_digits_not_minus by (auto simp: dumps_int_def)
qed (simp add: dumps_int_def)

lemma dumps_cons:
  "\<exists>c cs. dumps j = c # cs \<and> c \<notin> {CHR '' '', CHR 0x09, CHR 0x0A, CHR 0x0D, CHR '']'', CHR 0x7D}"
proof (cases j)
  case (JInt i)
  then show ?thesis using dumps_int_cons [of i] is_digit_branch by fastforce
qed (auto simp: dumps_str_def)

lemma skip_ws_cons [simp]:
  "c \<notin> {CHR '' '', CHR 0x09, CHR 0x0A, CHR 0x0D} \<Longrightarrow> skip_ws (c # s) = c # s"
  "skip_ws (CHR '' '' # s) = skip_ws s"
  "skip_ws [] = []"
  by (simp_all add: skip_ws_def)

lemma skip_ws_dumps: "skip_ws (dumps j @ s) = dumps j @ s"
  using dumps_cons [of j] by auto

lemma parse_val_int:
  "0 < n \<Longrightarrow> delimited rest \<Longrightarrow> parse_val n (dumps_int i @ rest) = Inr (JInt i, rest)"
proof -
  assume n: "0 < n" and d: "delimited rest"
  obtain c cs where c: "dumps_int i = c # cs" "is_digit c \<or> c = CHR ''-''"
    using dumps_int_cons by blast
  then have "c \<notin> {CHR 0x22, CHR 0x7B, CHR ''['', CHR ''n'', CHR ''t'', CHR ''f''}"
    using is_digit_branch by fastforce
  moreover obtain m where "n = Suc m" using n by (cases n) auto
  ultimately show ?thesis using parse_int_dumps [OF d, of i] c(1) by simp
qed

lemma parse_items_dumps:
  assumes "\<And>x n rest. x \<in> set xs \<Longrightarrow> 2 * length (dumps x) \<le> n \<Longrightarrow> delimited rest \<Longrightarrow>
             parse_val n (dumps x @ rest) = Inr (x, rest)"
    and "xs \<noteq> []" and "2 * length (join '', '' (map dumps xs)) < n"
  shows "parse_items n (join '', '' (map dumps xs) @ CHR '']'' # rest) = Inr (xs, rest)"
  using assms
proof (induction xs arbitrary: n rule: induct_list012)
  case 1
  then show ?case by simp
next
  case (2 x)
  then obtain m where m: "n = Suc m" by (cases n) auto
  have "delimited (CHR '']'' # rest)" by (simp add: delimited_def is_digit_def)
  then show ?case using 2 m by simp
next
  case (3 x y xs)
  then obtain m where m: "n = Suc m" by (cases n) auto
  let ?more = "join '', '' (map dumps (y # xs)) @ CHR '']'' # rest"
  have d: "delimited ('', '' @ ?more)" by (simp add: delimited_def is_digit_def)
  have x: "parse_val m (dumps x @ '', '' @ ?more) = Inr (x, '', '' @ ?more)"
    using "3.prems" d by (intro "3.prems"(1)) (simp_all add: m)
  have more: "parse_items m ?more = Inr (y # xs, rest)"
    using "3.prems" by (intro "3.IH"(2)) (simp_all add: m)
  have ws: "skip_ws ?more = ?more"
    using skip_ws_dumps [of y] by (cases xs) simp_all
  show ?case using x more ws by (simp add: m)
qed

lemma parse_members_dumps:
  assumes "\<And>k v n rest. (k, v) \<in> set kvs \<Longrightarrow> 2 * length (dumps v) \<le> n \<Longrightarrow> delimited rest \<Longrightarrow>
             parse_val n (dumps v @ rest) = Inr (v, rest)"
    and "kvs \<noteq> []" and "2 * length (join '', '' (map (\<lambda>(k, v). dumps_str k @ '': '' @ dumps v) kvs)) < n"
  shows "parse_members n (join '', '' (map (\<lambda>(k, v). dumps_str k @ '': '' @ dumps v) kvs) @ CHR 0x7D # rest) = Inr (kvs, rest)"
  using assms
proof (induction kvs arbitrary: n rule: induct_list012)
  case 1
  then show ?case by simp
next
  case (2 p)
  obtain k v where p: "p = (k, v)" by (cases p)
  obtain m where m: "n = Suc m" using 2 by (cases n) auto
  have "delimited (CHR 0x7D # rest)" by (simp add: delimited_def is_digit_def)
  then show ?case using 2 m p parse_str_dumps [of k] skip_ws_dumps [of v] by (simp add: dumps_str_def)
next
  case (3 p q kvs)
  obtain k v where p: "p = (k, v)" by (cases p)
  obtain m where m: "n = Suc m" using 3 by (cases n) auto
  let ?more = "join '', '' (map (\<lambda>(k, v). dumps_str k @ '': '' @ dumps v) (q # kvs)) @ CHR 0x7D # rest"
  have d: "delimited ('', '' @ ?more)" by (simp add: delimited_def is_digit_def)
  have v: "parse_val m (dumps v @ '', '' @ ?more) = Inr (v, '', '' @ ?more)"
    using "3.prems"(3) d p by (intro "3.prems"(1) [of k]) (simp_all add: m)
  have more: "parse_members m ?more = Inr (q # kvs, rest)"
  proof (rule "3.IH"(2))
    fix k v n rest
    assume "(k, v) \<in> set (q # kvs)" "2 * length (dumps v) \<le> n" "delimited rest"
    then show "parse_val n (dumps v @ rest) = Inr (v, rest)"
      by (intro "3.prems"(1) [of k]) simp_all
  qed (use "3.prems"(3) p in \<open>simp_all add: m\<close>)
  have ws: "skip_ws ?more = ?more"
    by (cases q; cases kvs) (simp_all add: dumps_str_def)
  show ?case
    using v more ws p parse_str_dumps [of k] skip_ws_dumps [of v] by (simp add: m dumps_str_def)
qed

lemma dict_union_distinct: "distinct (dict_keys (d @ kvs)) \<Longrightarrow> dict_union d kvs = d @ kvs"
proof (induction kvs arbitrary: d)
  case Nil
  then show ?case by (simp add: dict_union_def)
next
  case (Cons p kvs)
  have "AList.update (fst p) (snd p) d = d @ [p]" if "fst p \<notin> set (dict_keys d)"
    using that by (induction d) auto
  then show ?case using Cons by (simp add: dict_union_def split_beta)
qed

lemma length_dumps_pos: "0 < length (dumps j)"
  using dumps_cons [of j] by auto

lemma parse_val_dumps:
  "wf_json j \<Longrightarrow> 2 * length (dumps j) \<le> n \<Longrightarrow> delimited rest \<Longrightarrow>
     parse_val n (dumps j @ rest) = Inr (j, rest)"
proof (induction j arbitrary: n rest)
  case JNull
  then show ?case by (cases n) (simp_all add: parse_lit_def)
next
  case (JBool b)
  then show ?case by (cases n) (auto simp add: parse_lit_def split: if_splits)
next
  case (JInt i)
  then have "0 < n" using length_dumps_pos [of "JInt i"] by (cases n) auto
  then show ?case using JInt parse_val_int by simp
next
  case (JStr t)
  then obtain m where "n = Suc m" by (cases n) (auto simp: dumps_str_def)
  then show ?case using parse_str_dumps [of t rest] by (simp add: dumps_str_def)
next
  case (JArr xs)
  obtain m where m: "n = Suc m" using JArr.prems by (cases n) auto
  show ?case
  proof (cases "xs = []")
    case False
    then obtain x ys where xs: "xs = x # ys" by (cases xs) auto
    obtain c cs where "dumps x = c # cs" "c \<notin> {CHR '' '', CHR 0x09, CHR 0x0A, CHR 0x0D, CHR '']'', CHR 0x7D}"
      using dumps_cons by blast
    then obtain t where t: "join '', '' (map dumps xs) @ CHR '']'' # rest = c # t"
        "c \<notin> {CHR '' '', CHR 0x09, CHR 0x0A, CHR 0x0D, CHR '']''}"
      by (cases ys) (auto simp: xs)
    have "parse_items m (join '', '' (map dumps xs) @ CHR '']'' # rest) = Inr (xs, rest)"
      using JArr False by (intro parse_items_dumps) (simp_all add: list_all_iff m)
    then show ?thesis using t by (simp add: m)
  qed (simp add: m)
next
  case (JObj kvs)
  obtain m where m: "n = Suc m" using JObj.prems by (cases n) auto
  show ?case
  proof (cases "kvs = []")
    case False
    let ?text = "join '', '' (map (\<lambda>(k, v). dumps_str k @ '': '' @ dumps v) kvs) @ CHR 0x7D # rest"
    obtain t where t: "?text = CHR 0x22 # t"
      using False by (cases kvs rule: remdups_adj.cases) (auto simp: dumps_str_def)
    have "parse_members m ?text = Inr (kvs, rest)"
    proof (rule parse_members_dumps)
      fix k v n rest
      assume "(k, v) \<in> set kvs" "2 * length (dumps v) \<le> n" "delimited rest"
      then show "parse_val n (dumps v @ rest) = Inr (v, rest)"
        using JObj.prems(1) by (intro JObj.IH [of "(k, v)"]) (auto simp: list_all_iff)
    qed (use JObj.prems False in \<open>simp_all add: m\<close>)
    moreover have "dict_union [] kvs = kvs" using JObj.prems(1) dict_union_distinct [of "[]" kvs] by simp
    ultimately show ?thesis using t by (simp add: m)
  qed (simp add: m)
qed

theorem loads_dumps: "wf_json j \<Longrightarrow> loads (dumps j) = Inr j"
proof -
  assume "wf_json j"
  then have "parse_val (2 * length (dumps j)) (dumps j @ []) = Inr (j, [])"
    by (intro parse_val_dumps) (simp_all add: delimited_def)
  then show ?thesis using skip_ws_dumps [of j "[]"] by (simp add: loads_def)
qed

text \<open>What \<open>dumps\<close> prints is ASCII, so encoding it as UTF-8 is one byte per character.\<close>

definition is_ascii :: "string \<Rightarrow> bool" where
  "is_ascii s = list_all (\<lambda>c. (of_char c :: nat) < 128) s"

lemma is_ascii_simps [simp]:
  "is_ascii []" "is_ascii (c # s) \<longleftrightarrow> (of_char c :: nat) < 128 \<and> is_ascii s"
  "is_ascii (s @ t) \<longleftrightarrow> is_ascii s \<and> is_ascii t"
  by (simp_all add: is_ascii_def)

lemma is_ascii_join: "is_ascii sep \<Longrightarrow> (\<And>w. w \<in> set ws \<Longrightarrow> is_ascii w) \<Longrightarrow> is_ascii (join sep ws)"
  by (induction ws rule: induct_list012) simp_all

lemma is_ascii_hex_digit: "n < 16 \<Longrightarrow> (of_char (hex_digit n) :: nat) < 128"
  by (simp add: hex_digit_def of_char_of)

lemma is_ascii_dumps_char: "is_ascii (dumps_char c)"
  using nat_of_char_less_256 [of c]
  by (auto simp: dumps_char_def Let_def is_ascii_hex_digit less_mult_imp_div_less)

lemma is_ascii_dumps_str: "is_ascii (dumps_str s)"
  by (induction s) (simp_all add: dumps_str_def is_ascii_dumps_char)

lemma is_ascii_dumps_int: "is_ascii (dumps_int i)"
proof -
  have "is_ascii (digits n)" for n
    using digits_all_digit [of n] by (auto simp: is_ascii_def list_all_iff is_digit_def)
  then show ?thesis by (simp add: dumps_int_def)
qed

lemma is_ascii_dumps: "is_ascii (dumps j)"
  by (induction j)
    (fastforce simp: is_ascii_dumps_str is_ascii_dumps_int intro!: is_ascii_join)+

section \<open>JSON values as Python values\<close>

text \<open>
  As a dictionary key a value must be hashable, which lists and dictionaries are not, and
  \<open>True\<close>/\<open>False\<close> are the same key as 1/0.
\<close>

fun hash_key :: "json \<Rightarrow> json res" where
  "hash_key (JArr xs) = Inl TypeError"
| "hash_key (JObj d) = Inl TypeError"
| "hash_key (JBool b) = Inr (JInt (if b then 1 else 0))"
| "hash_key j = Inr j"

text \<open>The number a value is, booleans being 0 and 1.\<close>

fun py_int :: "json \<Rightarrow> int option" where
  "py_int (JInt i) = Some i"
| "py_int (JBool b) = Some (if b then 1 else 0)"
| "py_int _ = None"

text \<open>\<open>bool(v)\<close>.\<close>

fun truthy :: "json \<Rightarrow> bool" where
  "truthy JNull = False"
| "truthy (JBool b) = b"
| "truthy (JInt i) = (i \<noteq> 0)"
| "truthy (JStr s) = (s \<noteq> [])"
| "truthy (JArr xs) = (xs \<noteq> [])"
| "truthy (JObj d) = (d \<noteq> [])"

text \<open>\<open>int(s)\<close> of a string: surrounding white space, a sign, digits with single underscores.\<close>

definition int_of_digits :: "string \<Rightarrow> int res" where
  "int_of_digits s =
     (let parts = split_by (\<lambda>c. c = CHR ''_'') s in
      if list_all (\<lambda>p. p \<noteq> [] \<and> list_all is_digit p) parts then Inr (int (digits_val (concat parts)))
      else Inl ValueError)"

definition int_of_string :: "string \<Rightarrow> int res" where
  "int_of_string s =
     (case strip s of
        c # cs \<Rightarrow> if c = CHR ''-'' then rbind (int_of_digits cs) (\<lambda>i. Inr (- i))
                   else if c = CHR ''+'' then int_of_digits cs
                   else int_of_digits (c # cs)
      | [] \<Rightarrow> Inl ValueError)"

section \<open>Fuel\<close>

text \<open>Every parser consumes, so twice the length of the text is enough for any text.\<close>

lemma parse_str_shrinks: "parse_str s = Inr (t, r) \<Longrightarrow> length r < length s"
proof (induction s arbitrary: t r rule: parse_str.induct)
  case (2 c cs)
  show ?case
  proof (cases "c = CHR 0x5C")
    case False
    then show ?thesis using "2.prems" "2.IH"(3)
      by (auto simp: push_def rbind_eq_Inr split: if_splits intro: less_SucI)
  next
    case True
    then obtain e cs' where cs: "cs = e # cs'" using "2.prems" by (cases cs) auto
    show ?thesis
    proof (cases "e = CHR ''u''")
      case False
      then show ?thesis using "2.prems" "2.IH"(2) True cs
        by (fastforce simp: push_def rbind_eq_Inr split: option.splits)
    next
      case u: True
      show ?thesis
      proof (cases "\<exists>h1 h2 h3 h4 rest. cs' = h1 # h2 # h3 # h4 # rest")
        case False
        then show ?thesis using "2.prems" True u cs by (auto split: list.splits)
      next
        case h: True
        then obtain h1 h2 h3 h4 rest where cs': "cs' = h1 # h2 # h3 # h4 # rest" by blast
        show ?thesis using "2.prems" "2.IH"(1) True u cs cs'
          by (fastforce simp: push_def rbind_eq_Inr simp del: hex4.simps split: option.splits if_splits)
      qed
    qed
  qed
qed simp

lemma skip_ws_shrinks: "length (skip_ws s) \<le> length s"
  by (simp add: skip_ws_def length_dropWhile_le)

lemma skip_ws_Cons: "skip_ws s = c # cs \<Longrightarrow> length cs < length s"
  using skip_ws_shrinks [of s] by simp

lemma parse_nat_shrinks: "parse_nat s = Inr (k, r) \<Longrightarrow> length r < length s"
  by (cases s) (auto simp: less_Suc_eq_le length_dropWhile_le split: if_splits)

lemma parse_int_shrinks: "parse_int s = Inr (i, r) \<Longrightarrow> length r < length s"
  by (auto simp: parse_int_def rbind_eq_Inr less_SucI split: list.splits if_splits simp del: parse_nat.simps dest!: parse_nat_shrinks)

lemma parse_lit_shrinks: "parse_lit w j s = Inr (v, r) \<Longrightarrow> w \<noteq> [] \<Longrightarrow> s \<noteq> [] \<Longrightarrow> length r < length s"
  by (auto simp: parse_lit_def split: if_splits)

lemma parse_shrinks:
  "parse_val n s = Inr (v, r) \<Longrightarrow> length r < length s"
  "parse_items n s = Inr (xs, r) \<Longrightarrow> length r < length s"
  "parse_members n s = Inr (kvs, r) \<Longrightarrow> length r < length s"
proof (induction n arbitrary: s v xs kvs r)
  case (Suc n)
  {
    case 1
    then obtain c cs where s: "s = c # cs" by (cases s) auto
    show ?case
    proof (cases "c \<in> {CHR 0x7B, CHR ''['', CHR 0x22}")
      case True
      then show ?thesis using 1 s Suc.IH(2,3)
        by (fastforce simp: rbind_eq_Inr split: list.splits if_splits dest: parse_str_shrinks skip_ws_Cons)
    next
      case False
      then show ?thesis using 1 s
        by (auto simp: rbind_eq_Inr split: if_splits dest!: parse_int_shrinks parse_lit_shrinks)
    qed
  next
    case 2
    then obtain x r0 where x: "parse_val n s = Inr (x, r0)" by (auto simp: rbind_eq_Inr)
    have r0: "length r0 < length s" using x by (rule Suc.IH(1))
    obtain c cs where r0': "skip_ws r0 = c # cs" using 2 x by (cases "skip_ws r0") auto
    have cs: "length cs < length r0" using r0' by (rule skip_ws_Cons)
    show ?case
    proof (cases "c = CHR '']''")
      case True
      then show ?thesis using 2 x r0' r0 cs by simp
    next
      case False
      then obtain ys where "parse_items n (skip_ws cs) = Inr (ys, r)"
        using 2 x r0' by (auto simp: rbind_eq_Inr split: if_splits)
      then have "length r < length (skip_ws cs)" by (rule Suc.IH(2))
      then show ?thesis using skip_ws_shrinks [of cs] cs r0 by simp
    qed
  next
    case 3
    then obtain s' where s: "s = CHR 0x22 # s'" by (cases s) (auto split: if_splits)
    obtain k r0 where k: "parse_str s' = Inr (k, r0)" using 3 s by (auto simp: rbind_eq_Inr)
    have r0: "length r0 < length s'" using k by (rule parse_str_shrinks)
    obtain cs where r0': "skip_ws r0 = CHR '':'' # cs"
      using 3 s k by (cases "skip_ws r0") (auto split: if_splits)
    have cs: "length cs < length r0" using r0' by (rule skip_ws_Cons)
    obtain v r1 where v: "parse_val n (skip_ws cs) = Inr (v, r1)" using 3 s k r0' by (auto simp: rbind_eq_Inr)
    have r1: "length r1 < length cs" using Suc.IH(1) [OF v] skip_ws_shrinks [of cs] by simp
    obtain d ds where r1': "skip_ws r1 = d # ds" using 3 s k r0' v by (cases "skip_ws r1") auto
    have ds: "length ds < length r1" using r1' by (rule skip_ws_Cons)
    show ?case
    proof (cases "d = CHR 0x7D")
      case True
      then show ?thesis using 3 s k r0' v r1' r0 cs r1 ds by simp
    next
      case False
      then obtain ys where "parse_members n (skip_ws ds) = Inr (ys, r)"
        using 3 s k r0' v r1' by (auto simp: rbind_eq_Inr split: if_splits)
      then have "length r < length (skip_ws ds)" by (rule Suc.IH(3))
      then show ?thesis using skip_ws_shrinks [of ds] s r0 cs r1 ds by simp
    qed
  }
qed simp_all

lemma parse_fuel:
  "2 * length s \<le> n \<Longrightarrow> n \<le> m \<Longrightarrow> parse_val m s = parse_val n s"
  "2 * length s < n \<Longrightarrow> n \<le> m \<Longrightarrow> parse_items m s = parse_items n s"
  "2 * length s < n \<Longrightarrow> n \<le> m \<Longrightarrow> parse_members m s = parse_members n s"
proof (induction n arbitrary: s m)
  case 0
  {
    case 1
    then show ?case by (cases m) simp_all
  }
next
  case (Suc n)
  {
    case 1
    then obtain m' where m: "m = Suc m'" "n \<le> m'" by (cases m) auto
    show ?case
    proof (cases s)
      case (Cons c cs)
      have "parse_items m' (d # ds) = parse_items n (d # ds)" "parse_members m' (d # ds) = parse_members n (d # ds)"
        if "skip_ws cs = d # ds" for d ds
        using Suc.IH(2,3) [of "d # ds" m'] that skip_ws_Cons [OF that] 1 m Cons by simp_all
      then show ?thesis by (auto simp: Cons m split: list.split)
    qed (simp add: m)
  next
    case 2
    then obtain m' where m: "m = Suc m'" "n \<le> m'" by (cases m) auto
    have v: "parse_val m' s = parse_val n s" using 2 m Suc.IH(1) [of s m'] by simp
    have "parse_items m' (skip_ws cs) = parse_items n (skip_ws cs)"
      if "parse_val n s = Inr (x, r)" "skip_ws r = c # cs" for x r c cs
      using Suc.IH(2) [of "skip_ws cs" m'] parse_shrinks(1) [OF that(1)] skip_ws_Cons [OF that(2)] skip_ws_shrinks [of cs] 2 m by simp
    then show ?case unfolding m parse_items.simps v
      by (intro rbind_cong refl) (auto split: list.split)
  next
    case 3
    then obtain m' where m: "m = Suc m'" "n \<le> m'" by (cases m) auto
    show ?case
    proof (cases s)
      case (Cons q s')
      have v: "parse_val m' (skip_ws cs) = parse_val n (skip_ws cs)"
        if "parse_str s' = Inr (k, r)" "skip_ws r = c # cs" for k r c cs
        using Suc.IH(1) [of "skip_ws cs" m'] parse_str_shrinks [OF that(1)] skip_ws_Cons [OF that(2)] skip_ws_shrinks [of cs]
          3 m Cons by simp
      have ms: "parse_members m' (skip_ws ds) = parse_members n (skip_ws ds)"
        if "parse_str s' = Inr (k, r)" "skip_ws r = c # cs" "parse_val n (skip_ws cs) = Inr (v, r')" "skip_ws r' = d # ds"
        for k r c cs v r' d ds
        using Suc.IH(3) [of "skip_ws ds" m'] parse_str_shrinks [OF that(1)] skip_ws_Cons [OF that(2)] skip_ws_shrinks [of cs]
          parse_shrinks(1) [OF that(3)] skip_ws_Cons [OF that(4)] skip_ws_shrinks [of ds] 3 m Cons by simp
      show ?thesis
      proof (cases "parse_str s'")
        case (Inr kr)
        obtain k r where k: "parse_str s' = Inr (k, r)" using Inr by (cases kr) auto
        show ?thesis
        proof (cases "skip_ws r")
          case c: (Cons c cs)
          show ?thesis unfolding m Cons parse_members.simps list.case k rbind_Inr prod.case c v [OF k c]
            by (intro if_cong rbind_cong refl) (auto simp: ms [OF k c] split: list.split prod.split)
        qed (simp add: m Cons k)
      qed (simp add: m Cons)
    qed (simp add: m)
  }
qed simp_all

text \<open>More fuel never changes what a text, well formed or not, is read as.\<close>

theorem loads_fuel_enough:
  assumes "2 * length s \<le> fuel"
  shows "rbind (parse_val fuel (skip_ws s)) (\<lambda>(j, r). if skip_ws r = [] then Inr j else Inl JSONDecodeError) = loads s"
proof -
  have "parse_val fuel (skip_ws s) = parse_val (2 * length (skip_ws s)) (skip_ws s)"
    "parse_val (2 * length s) (skip_ws s) = parse_val (2 * length (skip_ws s)) (skip_ws s)"
    using assms skip_ws_shrinks [of s] by (intro parse_fuel(1); simp)+
  then show ?thesis by (simp add: loads_def)
qed

end
