(* ===== verification/Framing.thy ===== *)
theory Framing
  imports Json "HOL-Library.Word"
begin

text \<open>
  The message layer of labs 3 and 4: \<open>core/message.py\<close> (class \<open>JsonMessage\<close>) and
  \<open>core/socket_helpers.py\<close> (\<open>recvall\<close>, \<open>recv_message\<close>). A message is a JSON text behind an
  8-byte big-endian length. The socket is an interface, the locale \<open>byte_stream\<close>: what
  \<open>recv(n)\<close> hands out is a prefix of the bytes still to come, at most \<open>n\<close> of them, and
  nothing only at the end of the stream. It is interpreted on a TCP socket that delivers its bytes
  in arbitrary segments, so the receive theorems hold for every fragmentation.
\<close>

section \<open>Bytes\<close>

type_synonym bytes = "8 word list"

text \<open>UTF-8 for the code points below 256 that the model's strings hold.\<close>

definition encode_char :: "char \<Rightarrow> bytes" where
  "encode_char c = (let n = of_char c :: nat in
     if n < 128 then [word_of_nat n]
     else [word_of_nat (192 + n div 64), word_of_nat (128 + n mod 64)])"

definition utf8_encode :: "string \<Rightarrow> bytes" where
  "utf8_encode s = concat (map encode_char s)"

text \<open>Decoding; lead bytes of code points from 256 on are outside the model and refused.\<close>

fun utf8_decode :: "bytes \<Rightarrow> string res" where
  "utf8_decode [] = Inr []"
| "utf8_decode (b # bs) =
     (if unat b < 128 then rbind (utf8_decode bs) (\<lambda>s. Inr (char_of (unat b) # s))
      else if unat b = 194 \<or> unat b = 195 then
        (case bs of
           [] \<Rightarrow> Inl UnicodeDecodeError
         | b' # bs' \<Rightarrow>
             if 128 \<le> unat b' \<and> unat b' < 192
             then rbind (utf8_decode bs') (\<lambda>s. Inr (char_of ((unat b - 192) * 64 + (unat b' - 128)) # s))
             else Inl UnicodeDecodeError)
      else Inl UnicodeDecodeError)"

text \<open>\<open>int.to_bytes(k, "big")\<close> and \<open>struct.pack\<close> of an unsigned field of \<open>k\<close> bytes.\<close>

fun be_bytes :: "nat \<Rightarrow> nat \<Rightarrow> bytes" where
  "be_bytes 0 n = []"
| "be_bytes (Suc k) n = be_bytes k (n div 256) @ [word_of_nat (n mod 256)]"

definition be_value :: "bytes \<Rightarrow> nat" where
  "be_value bs = foldl (\<lambda>a b. a * 256 + unat b) 0 bs"

lemma length_be_bytes [simp]: "length (be_bytes k n) = k"
  by (induction k arbitrary: n) simp_all

lemma unat_word_of_nat_byte: "n < 256 \<Longrightarrow> unat (word_of_nat n :: 8 word) = n"
  by (simp add: unat_of_nat take_bit_nat_eq_self_iff)

lemma be_value_be_bytes: "n < 256 ^ k \<Longrightarrow> be_value (be_bytes k n) = n"
proof (induction k arbitrary: n)
  case 0
  then show ?case by (simp add: be_value_def)
next
  case (Suc k)
  then have "n div 256 < 256 ^ k" by (simp add: less_mult_imp_div_less mult.commute)
  then have "be_value (be_bytes k (n div 256)) = n div 256" by (rule Suc.IH)
  then show ?case by (simp add: be_value_def unat_word_of_nat_byte)
qed

lemma utf8_decode_ascii: "is_ascii s \<Longrightarrow> utf8_decode (utf8_encode s) = Inr s"
  by (induction s) (simp_all add: utf8_encode_def encode_char_def Let_def unat_word_of_nat_byte)

lemma length_utf8_ascii: "is_ascii s \<Longrightarrow> length (utf8_encode s) = length s"
  by (induction s) (simp_all add: utf8_encode_def encode_char_def)

section \<open>JsonMessage\<close>

text \<open>
  A \<open>JsonMessage\<close> wraps whatever \<open>json.loads\<close> returned, normally a dictionary. Item access
  on another value raises what Python raises.
\<close>

type_synonym json_message = json

fun msg_getitem :: "json_message \<Rightarrow> string \<Rightarrow> json res" where
  "msg_getitem (JObj d) k = dict_index d k"
| "msg_getitem _ k = Inl TypeError"

fun msg_setitem :: "json_message \<Rightarrow> string \<Rightarrow> json \<Rightarrow> json_message res" where
  "msg_setitem (JObj d) k v = Inr (JObj (dict_set d k v))"
| "msg_setitem _ k v = Inl TypeError"

fun is_infix :: "string \<Rightarrow> string \<Rightarrow> bool" where
  "is_infix k [] = (k = [])"
| "is_infix k (c # s) = (take (length k) (c # s) = k \<or> is_infix k s)"

fun msg_contains :: "json_message \<Rightarrow> string \<Rightarrow> bool res" where
  "msg_contains (JObj d) k = Inr (k \<in> set (dict_keys d))"
| "msg_contains (JArr xs) k = Inr (JStr k \<in> set xs)"
| "msg_contains (JStr s) k = Inr (is_infix k s)"
| "msg_contains _ k = Inl TypeError"

text \<open>\<open>get\<close> returns Python's \<open>None\<close>, which is \<open>JNull\<close>, for a missing key.\<close>

fun msg_get :: "json_message \<Rightarrow> string \<Rightarrow> json res" where
  "msg_get (JObj d) k = Inr (case dict_get d k of None \<Rightarrow> JNull | Some v \<Rightarrow> v)"
| "msg_get _ k = Inl AttributeError"

definition msg_str :: "json_message \<Rightarrow> string" where
  "msg_str m = dumps m"

definition msg_bytes :: "json_message \<Rightarrow> bytes" where
  "msg_bytes m = utf8_encode (msg_str m)"

definition msg_len :: "json_message \<Rightarrow> nat" where
  "msg_len m = length (msg_bytes m)"

definition serialize :: "json_message \<Rightarrow> bytes res" where
  "serialize m = (if msg_len m < 2 ^ 64 then Inr (be_bytes 8 (msg_len m) @ msg_bytes m)
                  else Inl OverflowError)"

definition deserialize :: "bytes \<Rightarrow> json_message res" where
  "deserialize bs = rbind (utf8_decode bs) loads"

lemma msg_len_dumps: "msg_len m = length (dumps m)"
  by (simp add: msg_len_def msg_bytes_def msg_str_def length_utf8_ascii is_ascii_dumps)

lemma deserialize_msg_bytes: "wf_json m \<Longrightarrow> deserialize (msg_bytes m) = Inr m"
  by (simp add: deserialize_def msg_bytes_def msg_str_def utf8_decode_ascii is_ascii_dumps loads_dumps)

lemma msg_len_pos: "0 < msg_len m"
  using length_dumps_pos [of m] by (simp add: msg_len_dumps)

lemma be_bytes_0: "be_bytes k 0 = replicate k 0"
  by (induction k) (simp_all add: replicate_append_same)

text \<open>A short message, for evaluating examples.\<close>

lemma serialize_short:
  assumes "length (dumps m) < 256"
  shows "serialize m = Inr ([0, 0, 0, 0, 0, 0, 0, word_of_nat (length (dumps m))] @ utf8_encode (dumps m))"
proof -
  have eight: "(8::nat) = Suc 7" by simp
  have seven: "replicate 7 (0 :: 8 word) = [0, 0, 0, 0, 0, 0, 0]" by (simp add: numeral_eq_Suc)
  have "be_bytes 8 (length (dumps m)) = [0, 0, 0, 0, 0, 0, 0, word_of_nat (length (dumps m))]"
    unfolding eight be_bytes.simps using assms by (simp add: be_bytes_0 seven)
  moreover have "length (dumps m) < 2 ^ 64" using assms by simp
  ultimately show ?thesis
    by (simp add: serialize_def msg_len_dumps msg_bytes_def msg_str_def)
qed

lemma serialize_split:
  "serialize m = Inr bs \<Longrightarrow>
     take 8 bs = be_bytes 8 (msg_len m) \<and> drop 8 bs = msg_bytes m \<and> be_value (take 8 bs) = msg_len m"
  using be_value_be_bytes [of "msg_len m" 8]
  by (auto simp: serialize_def split: if_splits)

section \<open>Receiving\<close>

definition MESSAGE_VALID :: nat where "MESSAGE_VALID = 0"
definition MESSAGE_HEADER_INVALID :: nat where "MESSAGE_HEADER_INVALID = 0"
definition MESSAGE_BODY_INVALID :: nat where "MESSAGE_BODY_INVALID = 0"

text \<open>A dictionary display with a repeated key keeps the last value.\<close>

definition STATUS_CODE :: "(nat, string) dict" where
  "STATUS_CODE = dict_union []
     [(MESSAGE_VALID, ''Message Valid''),
      (MESSAGE_HEADER_INVALID, ''Invalid Message Format from the client: 1st 8 bytes should be message length''),
      (MESSAGE_BODY_INVALID, ''Invalid Message Format from the client: next {msglen} bytes must be message'')]"

text \<open>
  \<open>recvall(sock, n)\<close>: the loop reads until \<open>n\<close> bytes are there or \<open>recv\<close> returns nothing.
  The parameter \<open>rcv\<close> is the socket's \<open>recv\<close>. The loop of the source ends because every
  non-empty packet shortens what is missing.
\<close>

function recv_loop :: "(nat \<Rightarrow> 's \<Rightarrow> bytes \<times> 's) \<Rightarrow> nat \<Rightarrow> bytes \<Rightarrow> 's \<Rightarrow> bytes option \<times> 's" where
  "recv_loop rcv n data sock =
     (if length data < n then
        (case rcv (n - length data) sock of (packet, sock') \<Rightarrow>
           if packet = [] then (None, sock') else recv_loop rcv n (data @ packet) sock')
      else (Some data, sock))"
  by pat_completeness auto
termination
proof (relation "measure (\<lambda>(rcv, n, data, sock). n - length data)", goal_cases)
  case (2 rcv n data sock packet)
  then show ?case by (cases packet) auto
qed simp

declare recv_loop.simps [simp del]

definition recvall :: "(nat \<Rightarrow> 's \<Rightarrow> bytes \<times> 's) \<Rightarrow> nat \<Rightarrow> 's \<Rightarrow> bytes option \<times> 's" where
  "recvall rcv n sock = recv_loop rcv n [] sock"

text \<open>
  \<open>recv_message(sock)\<close> of lab 3. An empty body counts as missing, since \<open>not data\<close> holds of
  the empty byte string as well. The log call on that branch passes \<open>data\<close>, not a string, as
  the message to the logger, a third-party object: its outcome is the parameter \<open>crit\<close>.
\<close>

definition recv_message ::
  "(bytes option \<Rightarrow> nat \<Rightarrow> unit res) \<Rightarrow> (nat \<Rightarrow> 's \<Rightarrow> bytes \<times> 's) \<Rightarrow> 's \<Rightarrow>
     (nat \<times> json_message option) res \<times> 's" where
  "recv_message crit rcv sock =
     (case recvall rcv 8 sock of
        (None, sock') \<Rightarrow> (Inr (MESSAGE_HEADER_INVALID, None), sock')
      | (Some raw_msglen, sock') \<Rightarrow>
          let msglen = be_value raw_msglen in
          case recvall rcv msglen sock' of
            (data, sock'') \<Rightarrow>
              if data = None \<or> data = Some [] then
                (rbind (crit data msglen) (\<lambda>_. Inr (MESSAGE_BODY_INVALID, None)), sock'')
              else
                (rbind (deserialize (the data)) (\<lambda>m. Inr (MESSAGE_VALID, Some m)), sock''))"

section \<open>The socket as an interface\<close>

locale byte_stream =
  fixes rcv :: "nat \<Rightarrow> 's \<Rightarrow> bytes \<times> 's"
    and pending :: "'s \<Rightarrow> bytes"
  assumes rcv_split: "rcv n s = (p, s') \<Longrightarrow> pending s = p @ pending s'"
    and rcv_bound: "0 < n \<Longrightarrow> rcv n s = (p, s') \<Longrightarrow> length p \<le> n"
    and rcv_eof: "0 < n \<Longrightarrow> rcv n s = ([], s') \<Longrightarrow> pending s = []"
begin

text \<open>
  The loop returns the first \<open>n\<close> bytes if so many are still to come, otherwise it runs into
  the end of the stream; how \<open>recv\<close> cuts the bytes into packets does not matter.
\<close>

lemma recv_loop_result:
  assumes "length data \<le> n"
  shows "\<exists>s'. recv_loop rcv n data s =
      (if n \<le> length (data @ pending s) then Some (take n (data @ pending s)) else None, s') \<and>
      pending s' = drop n (data @ pending s)"
  using assms
proof (induction "n - length data" arbitrary: data s rule: less_induct)
  case less
  show ?case
  proof (cases "length data = n")
    case True
    then show ?thesis by (subst recv_loop.simps) simp
  next
    case False
    with less.prems have lt: "length data < n" by simp
    obtain p t where r: "rcv (n - length data) s = (p, t)" by fastforce
    have split: "pending s = p @ pending t" using rcv_split [OF r] .
    show ?thesis
    proof (cases "p = []")
      case True
      have "pending s = []" using rcv_eof [of "n - length data" s t] r True lt by simp
      then show ?thesis using lt r True split by (subst recv_loop.simps) simp
    next
      case False
      have "length (data @ p) \<le> n" using rcv_bound [OF _ r] lt by simp
      moreover have "n - length (data @ p) < n - length data" using False lt by (cases p) auto
      moreover have step: "recv_loop rcv n data s = recv_loop rcv n (data @ p) t"
        using lt r False by (subst recv_loop.simps) simp
      moreover have eq: "data @ pending s = (data @ p) @ pending t" using split by simp
      ultimately show ?thesis unfolding step eq by (intro less.hyps)
    qed
  qed
qed

lemma recvall_enough:
  "n \<le> length (pending s) \<Longrightarrow>
     \<exists>s'. recvall rcv n s = (Some (take n (pending s)), s') \<and> pending s' = drop n (pending s)"
  using recv_loop_result [of "[]" n s] by (simp add: recvall_def)

lemma recvall_eof:
  "length (pending s) < n \<Longrightarrow> \<exists>s'. recvall rcv n s = (None, s') \<and> pending s' = []"
  using recv_loop_result [of "[]" n s] by (simp add: recvall_def)

lemma recv_message_result:
  assumes "wf_json m" "serialize m = Inr bs" "pending s = bs @ rest"
  shows "\<exists>s'. recv_message crit rcv s = (Inr (MESSAGE_VALID, Some m), s') \<and> pending s' = rest"
proof -
  have bs: "take 8 bs = be_bytes 8 (msg_len m)" "drop 8 bs = msg_bytes m"
      "be_value (take 8 bs) = msg_len m" "8 \<le> length bs"
    using serialize_split [OF assms(2)] assms(2) by (auto simp: serialize_def split: if_splits)
  obtain s1 where s1: "recvall rcv 8 s = (Some (take 8 bs), s1)" "pending s1 = msg_bytes m @ rest"
    using recvall_enough [of 8 s] assms(3) bs by auto
  obtain s2 where s2: "recvall rcv (msg_len m) s1 = (Some (msg_bytes m), s2)" "pending s2 = rest"
    using recvall_enough [of "msg_len m" s1] s1(2) by (auto simp: msg_len_def)
  have "msg_bytes m \<noteq> []" using msg_len_pos [of m] by (auto simp: msg_len_def)
  then show ?thesis
    using s1(1) s2 bs(3) deserialize_msg_bytes [OF assms(1)]
    by (simp add: recv_message_def)
qed

lemma recv_message_truncated:
  assumes "serialize m = Inr bs" "k < length bs" "pending s = take k bs" "\<And>d n. crit d n = Inr ()"
  shows "\<exists>s'. recv_message crit rcv s =
     (Inr (if k < 8 then MESSAGE_HEADER_INVALID else MESSAGE_BODY_INVALID, None), s') \<and> pending s' = []"
proof (cases "k < 8")
  case True
  then have "length (pending s) < 8" using assms by simp
  then show ?thesis using recvall_eof [of s 8] True by (auto simp: recv_message_def)
next
  case False
  have bs: "take 8 bs = be_bytes 8 (msg_len m)" "drop 8 bs = msg_bytes m"
      "be_value (take 8 bs) = msg_len m" "length bs = 8 + msg_len m"
    using serialize_split [OF assms(1)] assms(1) by (auto simp: serialize_def msg_len_def split: if_splits)
  have len: "length (pending s) = k" using assms by simp
  have take8: "take 8 (pending s) = take 8 bs" using False assms(3) by (simp add: min_def)
  obtain s1 where s1: "recvall rcv 8 s = (Some (take 8 bs), s1)" "pending s1 = drop 8 (pending s)"
    using recvall_enough [of 8 s] len take8 False by auto
  have "length (pending s1) < msg_len m" using s1(2) len bs(4) assms(2) False by simp
  then obtain s2 where "recvall rcv (msg_len m) s1 = (None, s2)" "pending s2 = []"
    using recvall_eof by blast
  then show ?thesis using s1(1) bs(3) False assms(4) by (simp add: recv_message_def)
qed

end

text \<open>
  A TCP socket: the segments that have arrived or will arrive before the peer closes, in order.
  \<open>recv(n)\<close> returns the next segment, or its first \<open>n\<close> bytes when it is longer.
\<close>

type_synonym socket = "bytes list"

fun tcp_recv :: "nat \<Rightarrow> socket \<Rightarrow> bytes \<times> socket" where
  "tcp_recv n [] = ([], [])"
| "tcp_recv n (seg # segs) =
     (if seg = [] then tcp_recv n segs
      else if length seg \<le> n then (seg, segs)
      else (take n seg, drop n seg # segs))"

lemma tcp_recv_split: "tcp_recv n s = (p, s') \<Longrightarrow> concat s = p @ concat s'"
  by (induction n s arbitrary: p s' rule: tcp_recv.induct) (auto split: if_splits)

lemma tcp_recv_bound: "tcp_recv n s = (p, s') \<Longrightarrow> length p \<le> n"
  by (induction n s arbitrary: p s' rule: tcp_recv.induct) (auto split: if_splits)

lemma tcp_recv_eof: "0 < n \<Longrightarrow> tcp_recv n s = ([], s') \<Longrightarrow> concat s = []"
  by (induction n s arbitrary: s' rule: tcp_recv.induct) (auto split: if_splits)

interpretation tcp: byte_stream tcp_recv concat
  by unfold_locales (auto dest: tcp_recv_split tcp_recv_bound tcp_recv_eof)

section \<open>Properties\<close>

text \<open>
  C13. Whatever segments the network cuts the bytes into, \<open>recv_message\<close> on a stream that starts
  with a serialized message returns exactly that message with the valid status and leaves exactly
  the bytes after it for the next call.
\<close>

theorem recv_serialize_roundtrip:
  assumes "wf_json m" and "serialize m = Inr bs" and "concat sock = bs @ rest"
  shows "\<exists>sock'. recv_message crit tcp_recv sock = (Inr (MESSAGE_VALID, Some m), sock') \<and> concat sock' = rest"
  using assms by (rule tcp.recv_message_result)

lemma dumps_example:
  "dumps (JObj [(''a'', JInt 1)]) = [CHR 0x7B, CHR 0x22, CHR ''a'', CHR 0x22, CHR '':'', CHR '' '', CHR ''1'', CHR 0x7D]"
  by code_simp

theorem recv_serialize_roundtrip_witness:
  "\<exists>sock'. recv_message (\<lambda>_ _. Inr ()) tcp_recv
      [[0, 0, 0], [0, 0, 0, 0], [8, 123, 34], [97, 34], [58], [32, 49, 125, 9]]
     = (Inr (MESSAGE_VALID, Some (JObj [(''a'', JInt 1)])), sock') \<and> concat sock' = [9]"
proof (rule recv_serialize_roundtrip)
  show "wf_json (JObj [(''a'', JInt 1)])" by simp
  show "serialize (JObj [(''a'', JInt 1)]) = Inr [0, 0, 0, 0, 0, 0, 0, 8, 123, 34, 97, 34, 58, 32, 49, 125]"
    by (simp add: serialize_short dumps_example utf8_encode_def encode_char_def del: dumps.simps)
qed simp

text \<open>
  A peer that closes the connection in the middle of a message: the receiver reports no
  message, but the status it reports is the number of the valid status, and the status table
  reads that number as a body error even when the header was cut.
\<close>

theorem recv_truncated_status:
  assumes "serialize m = Inr bs" and "k < length bs" and "concat sock = take k bs"
  shows "\<exists>code sock'. recv_message (\<lambda>_ _. Inr ()) tcp_recv sock = (Inr (code, None), sock') \<and>
     code = MESSAGE_VALID \<and>
     dict_get STATUS_CODE code =
       Some ''Invalid Message Format from the client: next {msglen} bytes must be message''"
proof -
  obtain sock' where "recv_message (\<lambda>_ _. Inr ()) tcp_recv sock =
      (Inr (if k < 8 then MESSAGE_HEADER_INVALID else MESSAGE_BODY_INVALID, None), sock')"
    using tcp.recv_message_truncated [OF assms, of "\<lambda>_ _. Inr ()"] by blast
  then show ?thesis
    by (simp add: STATUS_CODE_def dict_union_def MESSAGE_VALID_def MESSAGE_HEADER_INVALID_def
        MESSAGE_BODY_INVALID_def)
qed

theorem recv_truncated_status_witness:
  "\<exists>code sock'. recv_message (\<lambda>_ _. Inr ()) tcp_recv [[0, 0, 0]] = (Inr (code, None), sock') \<and>
     code = MESSAGE_VALID \<and>
     dict_get STATUS_CODE code =
       Some ''Invalid Message Format from the client: next {msglen} bytes must be message''"
proof (rule recv_truncated_status [where k = 3 and m = "JObj []"])
  show "serialize (JObj []) = Inr [0, 0, 0, 0, 0, 0, 0, 2, 123, 125]"
    by (simp add: serialize_short utf8_encode_def encode_char_def)
qed simp_all

end
