(* ===== verification/Links.thy ===== *)
theory Links
  imports Framing
begin

text \<open>
  How lab 3 processes reach each other: \<open>core/network.py\<close> (\<open>TcpClient\<close> with its pool of
  sockets, \<open>ConnectionStub\<close>) and the wiring done by \<open>core/cluster.py\<close>
  (\<open>ClusterManager.__init__\<close>). Sockets are of any type \<open>'s\<close>; \<open>conn\<close> opens the i-th socket of a
  pool, \<open>snd_all\<close> and \<open>rcv_msg\<close> are the two calls \<open>TcpClient.send\<close> makes on a socket
  (\<open>sendall\<close> of the serialized message and \<open>recv_message\<close>).
\<close>

record server_info =
  si_name :: string
  si_host :: string
  si_port :: int

section \<open>TcpClient\<close>

record 's tcp_client =
  tc_info :: server_info
  tc_blocking :: bool
  tc_sockets :: "'s list option"
  tc_pool_sz :: nat

definition tcp_client_init :: "server_info \<Rightarrow> bool \<Rightarrow> nat \<Rightarrow> 's tcp_client" where
  "tcp_client_init info blocking sz =
     \<lparr>tc_info = info, tc_blocking = blocking, tc_sockets = None, tc_pool_sz = sz\<rparr>"

text \<open>
  The loop of the property \<open>client_sockets\<close>: sockets are connected and appended one by one. When
  a connect raises, the sockets appended so far stay in the list, which is already stored.
\<close>

fun open_pool :: "(nat \<Rightarrow> 's res) \<Rightarrow> nat list \<Rightarrow> 's list \<Rightarrow> unit res \<times> 's list" where
  "open_pool conn [] socks = (Inr (), socks)"
| "open_pool conn (i # is) socks =
     (case conn i of
        Inl e \<Rightarrow> (Inl e, socks)
      | Inr s \<Rightarrow> open_pool conn is (socks @ [s]))"

definition client_sockets :: "(nat \<Rightarrow> 's res) \<Rightarrow> 's tcp_client \<Rightarrow> 's list res \<times> 's tcp_client" where
  "client_sockets conn c =
     (case tc_sockets c of
        Some socks \<Rightarrow> (Inr socks, c)
      | None \<Rightarrow>
          (case open_pool conn [0..<tc_pool_sz c] [] of
             (r, socks) \<Rightarrow> (rbind r (\<lambda>_. Inr socks), c\<lparr>tc_sockets := Some socks\<rparr>)))"

definition get_sock :: "(nat \<Rightarrow> 's res) \<Rightarrow> 's tcp_client \<Rightarrow> 's res \<times> 's tcp_client" where
  "get_sock conn c =
     (case client_sockets conn c of
        (Inl e, c') \<Rightarrow> (Inl e, c')
      | (Inr socks, c') \<Rightarrow>
          if socks = [] then (Inl (AssertionError ''Exhausted sockets''), c')
          else (Inr (last socks), c'\<lparr>tc_sockets := Some (butlast socks)\<rparr>))"

definition release_sock :: "(nat \<Rightarrow> 's res) \<Rightarrow> 's \<Rightarrow> 's tcp_client \<Rightarrow> unit res \<times> 's tcp_client" where
  "release_sock conn s c =
     (case client_sockets conn c of
        (Inl e, c') \<Rightarrow> (Inl e, c')
      | (Inr socks, c') \<Rightarrow> (Inr (), c'\<lparr>tc_sockets := Some (socks @ [s])\<rparr>))"

definition close_client_sockets :: "'s tcp_client \<Rightarrow> 's tcp_client" where
  "close_client_sockets c = c\<lparr>tc_sockets := None\<rparr>"

text \<open>
  The body of the \<open>try\<close> block of \<open>send\<close>: the response and the socket after use. Every exception
  is logged and leaves \<open>response\<close> at \<open>None\<close>; a missing message is answered with the status text.
\<close>

definition exchange ::
  "('s \<Rightarrow> json_message \<Rightarrow> unit res \<times> 's) \<Rightarrow> ('s \<Rightarrow> (nat \<times> json_message option) res \<times> 's) \<Rightarrow>
     bool \<Rightarrow> 's \<Rightarrow> json_message \<Rightarrow> json_message option \<times> 's" where
  "exchange snd_all rcv_msg blocking s msg =
     (case snd_all s msg of
        (Inl e, s') \<Rightarrow> (None, s')
      | (Inr _, s') \<Rightarrow>
          if blocking then
            (case rcv_msg s' of
               (Inl e, s'') \<Rightarrow> (None, s'')
             | (Inr (err_code, None), s'') \<Rightarrow>
                 (case dict_index STATUS_CODE err_code of
                    Inl e \<Rightarrow> (None, s'')
                  | Inr text \<Rightarrow> (Some (JObj [(''status'', JStr text)]), s''))
             | (Inr (err_code, Some response), s'') \<Rightarrow> (Some response, s''))
          else (None, s'))"

definition tcp_send ::
  "(nat \<Rightarrow> 's res) \<Rightarrow> ('s \<Rightarrow> json_message \<Rightarrow> unit res \<times> 's) \<Rightarrow>
     ('s \<Rightarrow> (nat \<times> json_message option) res \<times> 's) \<Rightarrow>
     's tcp_client \<Rightarrow> json_message \<Rightarrow> json_message option res \<times> 's tcp_client" where
  "tcp_send conn snd_all rcv_msg c msg =
     (case get_sock conn c of
        (Inl e, c') \<Rightarrow> (Inl e, c')
      | (Inr s, c') \<Rightarrow>
          (case exchange snd_all rcv_msg (tc_blocking c) s msg of
             (response, s') \<Rightarrow>
               (case release_sock conn s' c' of
                  (Inl e, c'') \<Rightarrow> (Inl e, c'')
                | (Inr _, c'') \<Rightarrow> (Inr response, c''))))"

section \<open>ConnectionStub\<close>

record 's connection_stub =
  cs_connections :: "(string, server_info) dict"
  cs_blocking :: "(string, 's tcp_client) dict"
  cs_non_blocking :: "(string, 's tcp_client) dict"
  cs_pool_sz :: nat

definition connection_stub_init :: "server_info list \<Rightarrow> nat \<Rightarrow> 's connection_stub" where
  "connection_stub_init infos sz =
     \<lparr>cs_connections = fold (\<lambda>si d. dict_set d (si_name si) si) infos [],
      cs_blocking = [], cs_non_blocking = [], cs_pool_sz = sz\<rparr>"

definition initalize_connections :: "'s connection_stub \<Rightarrow> 's connection_stub" where
  "initalize_connections st =
     fold (\<lambda>(_, si) st. st\<lparr>
         cs_blocking := dict_set (cs_blocking st) (si_name si) (tcp_client_init si True (cs_pool_sz st)),
         cs_non_blocking := dict_set (cs_non_blocking st) (si_name si) (tcp_client_init si False (cs_pool_sz st))\<rparr>)
       (cs_connections st) st"

definition get_connection :: "'s connection_stub \<Rightarrow> string \<Rightarrow> bool \<Rightarrow> 's tcp_client res" where
  "get_connection st to blocking =
     (if blocking then dict_index (cs_blocking st) to else dict_index (cs_non_blocking st) to)"

definition stub_send ::
  "(server_info \<Rightarrow> nat \<Rightarrow> 's res) \<Rightarrow> ('s \<Rightarrow> json_message \<Rightarrow> unit res \<times> 's) \<Rightarrow>
     ('s \<Rightarrow> (nat \<times> json_message option) res \<times> 's) \<Rightarrow>
     's connection_stub \<Rightarrow> string \<Rightarrow> json_message \<Rightarrow> bool \<Rightarrow>
     json_message option res \<times> 's connection_stub" where
  "stub_send conn snd_all rcv_msg st to msg blocking =
     (if blocking then
        (case dict_get (cs_blocking st) to of
           None \<Rightarrow> (Inl (AssertionError ''Connection doesn't exist''), st)
         | Some c \<Rightarrow>
             (case tcp_send (conn (tc_info c)) snd_all rcv_msg c msg of
                (r, c') \<Rightarrow> (r, st\<lparr>cs_blocking := dict_set (cs_blocking st) to c'\<rparr>)))
      else
        (case dict_get (cs_non_blocking st) to of
           None \<Rightarrow> (Inl (AssertionError ''Connection doesn't exist''), st)
         | Some c \<Rightarrow>
             (case tcp_send (conn (tc_info c)) snd_all rcv_msg c msg of
                (r, c') \<Rightarrow> (r, st\<lparr>cs_non_blocking := dict_set (cs_non_blocking st) to c'\<rparr>))))"

text \<open>\<open>broadcast\<close>: the non-blocking clients one after the other; an exception leaves the loop.\<close>

fun broadcast_loop ::
  "(server_info \<Rightarrow> nat \<Rightarrow> 's res) \<Rightarrow> ('s \<Rightarrow> json_message \<Rightarrow> unit res \<times> 's) \<Rightarrow>
     ('s \<Rightarrow> (nat \<times> json_message option) res \<times> 's) \<Rightarrow>
     json_message \<Rightarrow> (string, 's tcp_client) dict \<Rightarrow> unit res \<times> (string, 's tcp_client) dict" where
  "broadcast_loop conn snd_all rcv_msg msg [] = (Inr (), [])"
| "broadcast_loop conn snd_all rcv_msg msg ((name, c) # clients) =
     (case tcp_send (conn (tc_info c)) snd_all rcv_msg c msg of
        (Inl e, c') \<Rightarrow> (Inl e, (name, c') # clients)
      | (Inr response, c') \<Rightarrow>
          (case broadcast_loop conn snd_all rcv_msg msg clients of (r, clients') \<Rightarrow> (r, (name, c') # clients')))"

definition broadcast ::
  "(server_info \<Rightarrow> nat \<Rightarrow> 's res) \<Rightarrow> ('s \<Rightarrow> json_message \<Rightarrow> unit res \<times> 's) \<Rightarrow>
     ('s \<Rightarrow> (nat \<times> json_message option) res \<times> 's) \<Rightarrow>
     's connection_stub \<Rightarrow> json_message \<Rightarrow> unit res \<times> 's connection_stub" where
  "broadcast conn snd_all rcv_msg st msg =
     (case broadcast_loop conn snd_all rcv_msg msg (cs_non_blocking st) of
        (r, clients) \<Rightarrow> (r, st\<lparr>cs_non_blocking := clients\<rparr>))"

section \<open>ClusterManager\<close>

text \<open>
  \<open>topology\<close> maps a server to the set of servers it may call; the set is a list here, in the
  order Python's iteration yields it. Two \<open>ServerInfo\<close> objects are the same key exactly when
  name, host and port are equal, which is equality of the records.
\<close>

type_synonym topology = "(server_info, server_info list) dict"

definition server_infos :: "topology \<Rightarrow> (string, server_info) dict" where
  "server_infos topo =
     fold (\<lambda>(from, tos) d. fold (\<lambda>t d. dict_set d (si_name t) t) tos (dict_set d (si_name from) from))
       topo []"

definition complete_topology :: "topology \<Rightarrow> topology" where
  "complete_topology topo =
     fold (\<lambda>(_, si) t. if si \<in> set (dict_keys t) then t else dict_set t si []) (server_infos topo) topo"

definition make_servers :: "(server_info \<Rightarrow> 's connection_stub \<Rightarrow> 'srv) \<Rightarrow> topology \<Rightarrow> nat \<Rightarrow>
    (string, 'srv) dict res" where
  "make_servers create topo sz =
     fold (\<lambda>(_, si) r. rbind r (\<lambda>d.
         rbind (dict_index (complete_topology topo) si) (\<lambda>tos.
           Inr (dict_set d (si_name si) (create si (connection_stub_init tos sz))))))
       (server_infos topo) (Inr [])"

definition master_info :: "topology \<Rightarrow> string \<Rightarrow> server_info res" where
  "master_info topo master_name = dict_index (server_infos topo) master_name"

text \<open>\<open>remove_connections\<close> checks the names and changes nothing.\<close>

fun remove_connections :: "(string, 'srv) dict \<Rightarrow> (string \<times> string) list \<Rightarrow> unit res" where
  "remove_connections servers [] = Inr ()"
| "remove_connections servers ((frm, to) # connections) =
     rbind (py_assert (frm \<in> set (dict_keys servers)) (frm @ '' is not a server'')) (\<lambda>_.
     rbind (py_assert (to \<in> set (dict_keys servers)) (to @ '' is not a server'')) (\<lambda>_.
       remove_connections servers connections))"

section \<open>The pool\<close>

lemma get_sock_open:
  "tc_sockets c = Some socks \<Longrightarrow> socks \<noteq> [] \<Longrightarrow>
     get_sock conn c = (Inr (last socks), c\<lparr>tc_sockets := Some (butlast socks)\<rparr>)"
  by (simp add: get_sock_def client_sockets_def)

lemma get_sock_exhausted:
  "tc_sockets c = Some [] \<Longrightarrow> get_sock conn c = (Inl (AssertionError ''Exhausted sockets''), c)"
  by (simp add: get_sock_def client_sockets_def)

lemma release_sock_open:
  "tc_sockets c = Some socks \<Longrightarrow> release_sock conn s c = (Inr (), c\<lparr>tc_sockets := Some (socks @ [s])\<rparr>)"
  by (simp add: release_sock_def client_sockets_def)

lemma tcp_send_open:
  assumes "tc_sockets c = Some socks" "socks \<noteq> []"
    and "exchange snd_all rcv_msg (tc_blocking c) (last socks) msg = (resp, s')"
  shows "tcp_send conn snd_all rcv_msg c msg = (Inr resp, c\<lparr>tc_sockets := Some (butlast socks @ [s'])\<rparr>)"
  using assms by (simp add: tcp_send_def get_sock_open release_sock_def client_sockets_def)

lemma tcp_send_exhausted:
  "tc_sockets c = Some [] \<Longrightarrow>
     tcp_send conn snd_all rcv_msg c msg = (Inl (AssertionError ''Exhausted sockets''), c)"
  by (simp add: tcp_send_def get_sock_exhausted)

text \<open>
  Sending never leaks a socket: with a non-empty pool a send does not raise, whatever fails
  on the socket, and afterwards the pool holds as many sockets as before; the sockets not used
  are untouched.
\<close>

theorem tcp_send_keeps_pool:
  assumes "tc_sockets c = Some socks" and "socks \<noteq> []"
  shows "\<exists>resp s'. tcp_send conn snd_all rcv_msg c msg =
           (Inr resp, c\<lparr>tc_sockets := Some (butlast socks @ [s'])\<rparr>) \<and>
         length (butlast socks @ [s']) = length socks"
proof -
  obtain resp s' where "exchange snd_all rcv_msg (tc_blocking c) (last socks) msg = (resp, s')"
    by fastforce
  from tcp_send_open [OF assms this] show ?thesis using assms(2) by (cases socks) auto
qed

theorem tcp_send_keeps_pool_witness:
  "\<exists>resp s'. tcp_send (\<lambda>_. Inl ValueError) (\<lambda>s m. (Inl ValueError, Suc s)) (\<lambda>s. (Inr (0, None), s))
     \<lparr>tc_info = \<lparr>si_name = ''b'', si_host = ''localhost'', si_port = 9901\<rparr>, tc_blocking = True,
      tc_sockets = Some [7, 8], tc_pool_sz = 2\<rparr> (JObj []) =
       (Inr resp, \<lparr>tc_info = \<lparr>si_name = ''b'', si_host = ''localhost'', si_port = 9901\<rparr>, tc_blocking = True,
      tc_sockets = Some ([7] @ [s']), tc_pool_sz = 2\<rparr>) \<and> length ([7] @ [s']) = 2"
  using tcp_send_keeps_pool [where c = "\<lparr>tc_info = \<lparr>si_name = ''b'', si_host = ''localhost'', si_port = 9901\<rparr>,
      tc_blocking = True, tc_sockets = Some [7, 8], tc_pool_sz = 2\<rparr>" and socks = "[7, 8]"
      and conn = "\<lambda>_. Inl ValueError" and snd_all = "\<lambda>s m. (Inl ValueError, Suc s)"
      and rcv_msg = "\<lambda>s. (Inr (0, None), s)" and msg = "JObj []"]
  by simp

text \<open>
  A peer that is not listening yet when the pool is first opened: the send raises the
  connect error, and the empty pool it leaves behind makes every later send of the same client
  fail with "Exhausted sockets", even when connecting would work again.
\<close>

theorem failed_connect_sticks:
  assumes "tc_sockets c = None" and "0 < tc_pool_sz c" and "conn 0 = Inl e"
  shows "\<exists>c'. tcp_send conn snd_all rcv_msg c msg = (Inl e, c') \<and>
     tcp_send conn' snd_all' rcv_msg' c' msg' = (Inl (AssertionError ''Exhausted sockets''), c')"
proof -
  have "[0..<tc_pool_sz c] = 0 # [1..<tc_pool_sz c]" using assms(2) by (simp add: upt_conv_Cons)
  then have "get_sock conn c = (Inl e, c\<lparr>tc_sockets := Some []\<rparr>)"
    using assms by (simp add: get_sock_def client_sockets_def)
  then show ?thesis
    by (simp add: tcp_send_exhausted tcp_send_def [of conn])
qed

theorem failed_connect_sticks_witness:
  "\<exists>c'. tcp_send (\<lambda>_. Inl ValueError) (\<lambda>s m. (Inr (), s)) (\<lambda>s. (Inr (0, Some JNull), s))
      (tcp_client_init \<lparr>si_name = ''b'', si_host = ''localhost'', si_port = 9901\<rparr> True 32) JNull = (Inl ValueError, c') \<and>
     tcp_send (\<lambda>i. Inr i) (\<lambda>s m. (Inr (), s)) (\<lambda>s. (Inr (0, Some JNull), s)) c' JNull =
       (Inl (AssertionError ''Exhausted sockets''), c')"
  by (rule failed_connect_sticks) (simp_all add: tcp_client_init_def)

section \<open>Wiring\<close>

text \<open>The two nested loops are one loop over the servers in order.\<close>

definition add_info :: "server_info \<Rightarrow> (string, server_info) dict \<Rightarrow> (string, server_info) dict" where
  "add_info si d = dict_set d (si_name si) si"

definition named_servers :: "topology \<Rightarrow> server_info list" where
  "named_servers topo = concat (map (\<lambda>(from, tos). from # tos) topo)"

lemma server_infos_fold: "server_infos topo = fold add_info (named_servers topo) []"
proof -
  have "fold (\<lambda>(from, tos) d. fold (\<lambda>t d. dict_set d (si_name t) t) tos (dict_set d (si_name from) from)) topo d =
        fold add_info (named_servers topo) d" for d
    by (induction topo arbitrary: d) (auto simp: named_servers_def add_info_def [abs_def])
  then show ?thesis by (simp add: server_infos_def)
qed

lemma keys_fold_add_info: "fst ` set (fold add_info xs d) = fst ` set d \<union> si_name ` set xs"
  by (induction xs arbitrary: d) (auto simp: add_info_def AList.dom_update)

lemma names_fold_add_info:
  "\<forall>p \<in> set d. fst p = si_name (snd p) \<Longrightarrow> \<forall>p \<in> set (fold add_info xs d). fst p = si_name (snd p)"
proof (induction xs arbitrary: d)
  case (Cons x xs)
  have "\<forall>p \<in> set (add_info x d). fst p = si_name (snd p)"
    using Cons.prems set_dict_set [of "si_name x" x d] by (auto simp: add_info_def)
  then show ?case using Cons.IH by simp
qed simp

lemma set_named_servers: "set (named_servers topo) = (\<Union>(from, tos) \<in> set topo. insert from (set tos))"
  by (auto simp: named_servers_def)

definition complete_step :: "string \<times> server_info \<Rightarrow> topology \<Rightarrow> topology" where
  "complete_step p t = (if snd p \<in> set (dict_keys t) then t else dict_set t (snd p) [])"

lemma complete_topology_fold: "complete_topology topo = fold complete_step (server_infos topo) topo"
  by (simp add: complete_topology_def complete_step_def [abs_def] case_prod_unfold)

lemma keys_complete: "fst ` set (fold complete_step infos t) = fst ` set t \<union> snd ` set infos"
  by (induction infos arbitrary: t) (auto simp: complete_step_def AList.dom_update)

text \<open>
  Building a cluster never fails on the topology: every server named in it, as a caller or
  only as a callee, gets exactly one entry under its name, and the lookup of its neighbours
  succeeds because the topology was completed with empty sets.
\<close>

theorem make_servers_total:
  "\<exists>d. make_servers create topo sz = Inr d \<and>
     set (dict_keys d) = si_name ` (\<Union>(from, tos) \<in> set topo. insert from (set tos))"
proof -
  let ?T = "complete_topology topo"
  let ?step = "\<lambda>(_ :: string, si) r. rbind r (\<lambda>d. rbind (dict_index ?T si) (\<lambda>tos.
      Inr (dict_set d (si_name si) (create si (connection_stub_init tos sz)))))"
  have fold_ok: "\<forall>p \<in> set infos. fst p = si_name (snd p) \<and> snd p \<in> fst ` set ?T \<Longrightarrow>
      \<exists>d'. fold ?step infos (Inr d) = Inr d' \<and> fst ` set d' = fst ` set d \<union> fst ` set infos"
    for infos :: "(string \<times> server_info) list" and d
  proof (induction infos arbitrary: d)
    case (Cons p infos)
    obtain n si where p: "p = (n, si)" by (cases p)
    with Cons.prems have "si \<in> fst ` set ?T" and n: "n = si_name si" by simp_all
    then obtain tos where tos: "map_of ?T si = Some tos"
      by (metis map_of_eq_None_iff not_None_eq)
    have "fold ?step (p # infos) (Inr d) =
        fold ?step infos (Inr (dict_set d (si_name si) (create si (connection_stub_init tos sz))))"
      using tos by (simp add: p dict_index_def)
    moreover have "\<forall>p \<in> set infos. fst p = si_name (snd p) \<and> snd p \<in> fst ` set ?T"
      using Cons.prems by simp
    ultimately show ?case
      using Cons.IH [of "dict_set d (si_name si) (create si (connection_stub_init tos sz))"]
      by (simp add: AList.dom_update p n)
  qed simp
  have "\<forall>p \<in> set (server_infos topo). fst p = si_name (snd p) \<and> snd p \<in> fst ` set ?T"
    using names_fold_add_info [of "[]"]
    by (auto simp: server_infos_fold complete_topology_fold keys_complete)
  from fold_ok [OF this, of "[]"] show ?thesis
    by (auto simp: make_servers_def server_infos_fold keys_fold_add_info set_named_servers)
qed

end
