(* ===== verification/ChainServer.thy ===== *)
theory ChainServer
  imports Links
begin

text \<open>
  The chain replication server of lab 3 (\<open>cr/cr_server.py\<close>), its fixed cluster of four
  processes and its client (\<open>cr/cr_cluster.py\<close>), and one iteration of the connection loop
  \<open>Server.handle_client\<close> (\<open>core/server.py\<close>). A handler is split where the code blocks: \<open>process_req\<close> does
  everything up to the reply or up to the request that it forwards to the next server, whose
  response it then returns unchanged.
\<close>

section \<open>Requests\<close>

text \<open>The constructors check that the fields are there and keep the message.\<close>

definition kv_get_request :: "json_message \<Rightarrow> json_message res" where
  "kv_get_request msg =
     rbind (msg_contains msg ''key'') (\<lambda>b. rbind (py_assert b ''key'') (\<lambda>_. Inr msg))"

definition kv_set_request :: "json_message \<Rightarrow> json_message res" where
  "kv_set_request msg =
     rbind (msg_contains msg ''key'') (\<lambda>b. rbind (py_assert b ''key'') (\<lambda>_.
     rbind (msg_contains msg ''val'') (\<lambda>b. rbind (py_assert b ''val'') (\<lambda>_. Inr msg))))"

section \<open>The server\<close>

record cr_server =
  cr_name :: string
  cr_next :: "string option"
  cr_prev :: "string option"
  cr_tail :: string
  cr_d :: "json \<rightharpoonup> json"

definition cr_server_init ::
  "server_info \<Rightarrow> server_info option \<Rightarrow> server_info option \<Rightarrow> server_info \<Rightarrow> cr_server" where
  "cr_server_init info nxt prv tail_info =
     \<lparr>cr_name = si_name info, cr_next = map_option si_name nxt, cr_prev = map_option si_name prv,
      cr_tail = si_name tail_info, cr_d = Map.empty\<rparr>"

datatype cr_action =
    Reply json_message
  | Forward string json_message

definition status_ok :: json_message where
  "status_ok = JObj [(''status'', JStr ''OK'')]"

definition cr_get :: "cr_server \<Rightarrow> json_message \<Rightarrow> cr_action res" where
  "cr_get s req =
     rbind (py_assert (cr_next s = None) ''GET shall only be sent to the TAIL!'') (\<lambda>_.
     rbind (msg_getitem req ''key'') (\<lambda>key.
     rbind (hash_key key) (\<lambda>key.
       case cr_d s key of
         None \<Rightarrow> Inl KeyError
       | Some val \<Rightarrow> Inr (Reply (JObj [(''status'', JStr ''OK''), (''val'', val)])))))"

definition cr_set :: "cr_server \<Rightarrow> json_message \<Rightarrow> cr_action res \<times> cr_server" where
  "cr_set s req =
     (case rbind (msg_getitem req ''key'') (\<lambda>key.
           rbind (msg_getitem req ''val'') (\<lambda>val.
           rbind (hash_key key) (\<lambda>key. Inr (key, val)))) of
        Inl e \<Rightarrow> (Inl e, s)
      | Inr (key, val) \<Rightarrow>
          let s' = s\<lparr>cr_d := (cr_d s)(key \<mapsto> val)\<rparr> in
          (case cr_next s of
             Some n \<Rightarrow> (Inr (Forward n req), s')
           | None \<Rightarrow> (Inr (Reply status_ok), s')))"

definition process_req :: "cr_server \<Rightarrow> json_message \<Rightarrow> cr_action res \<times> cr_server" where
  "process_req s msg =
     (case msg_get msg ''type'' of
        Inl e \<Rightarrow> (Inl e, s)
      | Inr t \<Rightarrow>
          if t = JStr ''GET'' then (rbind (kv_get_request msg) (cr_get s), s)
          else if t = JStr ''SET'' then
            (case kv_set_request msg of Inl e \<Rightarrow> (Inl e, s) | Inr req \<Rightarrow> cr_set s req)
          else (Inr (Reply (JObj [(''status'', JStr ''Unexpected type'')])), s))"

text \<open>
  One turn of the loop in \<open>handle_client\<close>: read a request, answer it, send the answer if
  there is one. \<open>proc\<close> is the whole handler with its blocking calls; it returns no message when
  the forwarded request got none. The turn raises when any of the three parts does, which ends
  the loop and closes the connection.
\<close>

definition handle_client_turn ::
  "('c \<Rightarrow> (nat \<times> json_message option) res \<times> 'c) \<Rightarrow> ('c \<Rightarrow> json_message \<Rightarrow> unit res \<times> 'c) \<Rightarrow>
     ('st \<Rightarrow> json_message \<Rightarrow> json_message option res \<times> 'st) \<Rightarrow> 'st \<Rightarrow> 'c \<Rightarrow> unit res \<times> 'st \<times> 'c" where
  "handle_client_turn rcv_msg snd_all proc st sock =
     (case rcv_msg sock of
        (Inl e, sock') \<Rightarrow> (Inl e, st, sock')
      | (Inr (err_code, None), sock') \<Rightarrow>
          (case dict_index STATUS_CODE err_code of
             Inl e \<Rightarrow> (Inl e, st, sock')
           | Inr text \<Rightarrow>
               (case snd_all sock' (JObj [(''error_msg'', JStr text), (''error_code'', JInt (int err_code))]) of
                  (r, sock'') \<Rightarrow> (r, st, sock'')))
      | (Inr (err_code, Some request), sock') \<Rightarrow>
          (case proc st request of
             (Inl e, st') \<Rightarrow> (Inl e, st', sock')
           | (Inr None, st') \<Rightarrow> (Inr (), st', sock')
           | (Inr (Some sr), st') \<Rightarrow>
               (case snd_all sock' sr of (r, sock'') \<Rightarrow> (r, st', sock''))))"

section \<open>The cluster\<close>

definition cr_a :: server_info where "cr_a = \<lparr>si_name = ''a'', si_host = ''localhost'', si_port = 9900\<rparr>"
definition cr_b :: server_info where "cr_b = \<lparr>si_name = ''b'', si_host = ''localhost'', si_port = 9901\<rparr>"
definition cr_c :: server_info where "cr_c = \<lparr>si_name = ''c'', si_host = ''localhost'', si_port = 9902\<rparr>"
definition cr_dd :: server_info where "cr_dd = \<lparr>si_name = ''d'', si_host = ''localhost'', si_port = 9903\<rparr>"

definition cr_prev_table :: "(server_info, server_info option) dict" where
  "cr_prev_table = [(cr_a, None), (cr_b, Some cr_a), (cr_c, Some cr_b), (cr_dd, Some cr_c)]"

definition cr_next_table :: "(server_info, server_info option) dict" where
  "cr_next_table = [(cr_a, Some cr_b), (cr_b, Some cr_c), (cr_c, Some cr_dd), (cr_dd, None)]"

definition cr_topology :: topology where
  "cr_topology = [(cr_a, [cr_b]), (cr_b, [cr_c]), (cr_c, [cr_dd]), (cr_dd, [])]"

definition POOL_SZ :: nat where "POOL_SZ = 32"

definition cr_create_server :: "server_info \<Rightarrow> cr_server res" where
  "cr_create_server si =
     rbind (dict_index cr_next_table si) (\<lambda>nxt.
     rbind (dict_index cr_prev_table si) (\<lambda>prv.
       Inr (cr_server_init si nxt prv cr_dd)))"

text \<open>\<open>CrCluster.connect\<close>: the client's connections, head first and tail last.\<close>

definition cr_conns :: "string list" where
  "cr_conns = map si_name [cr_a, cr_b, cr_c, cr_dd]"

section \<open>The client\<close>

datatype cr_op = OpSet string string | OpGet string

fun request_of :: "cr_op \<Rightarrow> json_message" where
  "request_of (OpSet key val) = JObj [(''type'', JStr ''SET''), (''key'', JStr key), (''val'', JStr val)]"
| "request_of (OpGet key) = JObj [(''type'', JStr ''GET''), (''key'', JStr key)]"

text \<open>\<open>self.conns[0]\<close> for a set, \<open>self.conns[-1]\<close> for a get.\<close>

fun server_of :: "string list \<Rightarrow> cr_op \<Rightarrow> string" where
  "server_of conns (OpSet key val) = hd conns"
| "server_of conns (OpGet key) = last conns"

definition client_set_result :: "json_message option \<Rightarrow> bool res" where
  "client_set_result response =
     (case response of
        None \<Rightarrow> Inl (AssertionError '''')
      | Some r \<Rightarrow> rbind (msg_getitem r ''status'') (\<lambda>st. Inr (st = JStr ''OK'')))"

definition client_get_result :: "json_message option \<Rightarrow> (bool \<times> json) res" where
  "client_get_result response =
     (case response of
        None \<Rightarrow> Inl (AssertionError '''')
      | Some r \<Rightarrow>
          rbind (msg_getitem r ''status'') (\<lambda>st.
            if st = JStr ''OK'' then rbind (msg_getitem r ''val'') (\<lambda>v. Inr (True, v))
            else Inr (False, st)))"

section \<open>What a server does with the client's requests\<close>

definition value_reply :: "json \<Rightarrow> json_message" where
  "value_reply v = JObj [(''status'', JStr ''OK''), (''val'', v)]"

lemma process_set:
  "process_req s (request_of (OpSet k v)) =
     (Inr (case cr_next s of Some n \<Rightarrow> Forward n (request_of (OpSet k v)) | None \<Rightarrow> Reply status_ok),
      s\<lparr>cr_d := (cr_d s)(JStr k \<mapsto> JStr v)\<rparr>)"
  by (simp add: process_req_def kv_set_request_def cr_set_def dict_index_def Let_def split: option.split)

lemma process_get:
  "process_req s (request_of (OpGet k)) =
     (if cr_next s = None then
        (case cr_d s (JStr k) of None \<Rightarrow> Inl KeyError | Some v \<Rightarrow> Inr (Reply (value_reply v)))
      else Inl (AssertionError ''GET shall only be sent to the TAIL!''), s)"
  by (cases "cr_next s")
    (simp_all add: process_req_def kv_get_request_def cr_get_def dict_index_def value_reply_def
      split: option.split)

lemma cr_create_server_simps:
  "cr_create_server cr_a = Inr (cr_server_init cr_a (Some cr_b) None cr_dd)"
  "cr_create_server cr_b = Inr (cr_server_init cr_b (Some cr_c) (Some cr_a) cr_dd)"
  "cr_create_server cr_c = Inr (cr_server_init cr_c (Some cr_dd) (Some cr_b) cr_dd)"
  "cr_create_server cr_dd = Inr (cr_server_init cr_dd None (Some cr_c) cr_dd)"
  by (simp_all add: cr_create_server_def cr_next_table_def cr_prev_table_def dict_index_def
      cr_a_def cr_b_def cr_c_def cr_dd_def)

end
