(* ===== verification/ChainRuns.thy ===== *)
theory ChainRuns
  imports ChainServer
begin

text \<open>
  Runs of the lab 3 cluster. Every request is a thread of execution: it is processed by a
  server, forwarded along the chain while the servers behind it wait, and its response travels
  back. Threads of different clients interleave freely, one dictionary access at a time; a
  forward takes one of the \<open>POOL_SZ\<close> sockets of the link and raises when all are in use. At any
  point a message may get lost, after which nobody in front of it gets an answer (\<open>Lose\<close>), or
  the handler that holds the request may die, which the server in front of it sees as the end of
  the stream (\<open>Crash\<close>).

  What is proved about all runs is \<open>linearizable\<close>, stated over the events clients see. The
  locale \<open>chain\<close> is what the proofs need of the wiring, and \<open>CrCluster\<close> provides it.
\<close>

section \<open>Configurations and steps\<close>

text \<open>
  \<open>Running n m waiting\<close>: server \<open>n\<close> has the request \<open>m\<close>, the servers in \<open>waiting\<close> block on
  its answer, the nearest first. \<open>Replying\<close>: the answer has reached the first of \<open>waiting\<close>,
  or the client when there is none. \<open>Hung\<close>: a connection died, the servers in it wait for ever.
\<close>

datatype stage =
    Running string json_message "string list"
  | Replying json_message "string list"
  | Hung "string list"
  | Finished

datatype event = Inv nat cr_op | Res nat json_message

record config =
  servers :: "string \<Rightarrow> cr_server"
  threads :: "(nat, stage) dict"
  history :: "event list"

datatype label = Invoke nat cr_op | Work nat | Lose nat | Crash nat

fun waiting :: "stage \<Rightarrow> string list" where
  "waiting (Running n m ws) = ws"
| "waiting (Replying r ws) = ws"
| "waiting (Hung ws) = ws"
| "waiting Finished = []"

text \<open>How many sockets of the link from server \<open>n\<close> to its successor are in use.\<close>

definition occupancy :: "config \<Rightarrow> string \<Rightarrow> nat" where
  "occupancy c n = length (filter (\<lambda>(i, st). n \<in> set (waiting st)) (threads c))"

text \<open>
  A handler that raises closes the connection, and the \<open>TcpClient.send\<close> on the other side turns
  the missing message into the status text.
\<close>

definition failure :: json_message where
  "failure = JObj [(''status'', JStr ''Invalid Message Format from the client: next {msglen} bytes must be message'')]"

lemma failure_status: "failure = JObj [(''status'', JStr (the (dict_get STATUS_CODE MESSAGE_HEADER_INVALID)))]"
  by (simp add: failure_def STATUS_CODE_def dict_union_def MESSAGE_VALID_def MESSAGE_HEADER_INVALID_def
        MESSAGE_BODY_INVALID_def)

definition set_stage :: "config \<Rightarrow> nat \<Rightarrow> stage \<Rightarrow> config" where
  "set_stage c i st = c\<lparr>threads := dict_set (threads c) i st\<rparr>"

definition after_process :: "config \<Rightarrow> string \<Rightarrow> string list \<Rightarrow> cr_action res \<Rightarrow> stage" where
  "after_process c n ws r =
     (case r of
        Inl e \<Rightarrow> Replying failure ws
      | Inr (Reply resp) \<Rightarrow> Replying resp ws
      | Inr (Forward n' m') \<Rightarrow>
          if occupancy c n < POOL_SZ then Running n' m' (n # ws) else Replying failure ws)"

definition work :: "config \<Rightarrow> nat \<Rightarrow> config option" where
  "work c i =
     (case dict_get (threads c) i of
        Some (Running n m ws) \<Rightarrow>
          (case process_req (servers c n) m of
             (r, s') \<Rightarrow>
               Some (set_stage (c\<lparr>servers := (servers c)(n := s')\<rparr>) i (after_process c n ws r)))
      | Some (Replying r (n # ws)) \<Rightarrow> Some (set_stage c i (Replying r ws))
      | Some (Replying r []) \<Rightarrow> Some ((set_stage c i Finished)\<lparr>history := history c @ [Res i r]\<rparr>)
      | _ \<Rightarrow> None)"

fun chain_step :: "string list \<Rightarrow> config \<Rightarrow> label \<Rightarrow> config option" where
  "chain_step conns c (Invoke i x) =
     (if i \<in> set (dict_keys (threads c)) then None
      else Some ((set_stage c i (Running (server_of conns x) (request_of x) []))
                   \<lparr>history := history c @ [Inv i x]\<rparr>))"
| "chain_step conns c (Work i) = work c i"
| "chain_step conns c (Lose i) =
     (case dict_get (threads c) i of
        Some (Running n m ws) \<Rightarrow> Some (set_stage c i (Hung ws))
      | Some (Replying r ws) \<Rightarrow> Some (set_stage c i (Hung ws))
      | _ \<Rightarrow> None)"
| "chain_step conns c (Crash i) =
     (case dict_get (threads c) i of
        Some (Running n m ws) \<Rightarrow> Some (set_stage c i (Replying failure ws))
      | Some (Replying r (n # ws)) \<Rightarrow> Some (set_stage c i (Replying failure ws))
      | _ \<Rightarrow> None)"

fun run :: "string list \<Rightarrow> config \<Rightarrow> label list \<Rightarrow> config option" where
  "run conns c [] = Some c"
| "run conns c (l # ls) = (case chain_step conns c l of None \<Rightarrow> None | Some c' \<Rightarrow> run conns c' ls)"

lemma run_append: "run conns c (ls @ ls') = (case run conns c ls of None \<Rightarrow> None | Some c' \<Rightarrow> run conns c' ls')"
  by (induction ls arbitrary: c) (auto split: option.split)

definition start :: "(string \<Rightarrow> cr_server) \<Rightarrow> config" where
  "start srv = \<lparr>servers = srv, threads = [], history = []\<rparr>"

text \<open>The servers of \<open>CrCluster\<close> by name.\<close>

definition cr_servers :: "string \<Rightarrow> cr_server" where
  "cr_servers n =
     (case map_of (map (\<lambda>si. (si_name si, si)) [cr_a, cr_b, cr_c, cr_dd]) n of
        Some si \<Rightarrow> (case cr_create_server si of Inr s \<Rightarrow> s | Inl e \<Rightarrow> cr_server_init si None None cr_dd)
      | None \<Rightarrow> cr_server_init \<lparr>si_name = n, si_host = '''', si_port = 0\<rparr> None None cr_dd)"

lemma start_simps [simp]:
  "servers (start srv) = srv" "threads (start srv) = []" "history (start srv) = []"
  by (simp_all add: start_def)

lemma occupancy_start [simp]: "occupancy (start srv) n = 0"
  by (simp add: occupancy_def)

inductive reachable :: "string list \<Rightarrow> (string \<Rightarrow> cr_server) \<Rightarrow> config \<Rightarrow> bool"
  for conns srv where
  init: "reachable conns srv (start srv)"
| step: "reachable conns srv c \<Longrightarrow> chain_step conns c l = Some c' \<Longrightarrow> reachable conns srv c'"

inductive_cases reachable_cases: "reachable conns srv c"

lemma reachable_run: "reachable conns srv c \<Longrightarrow> run conns c ls = Some c' \<Longrightarrow> reachable conns srv c'"
  by (induction ls arbitrary: c) (auto split: option.splits intro: reachable.step)

lemma dict_get_set_stage [simp]:
  "dict_get (threads (set_stage c i st)) j = (if j = i then Some st else dict_get (threads c) j)"
  by (simp add: set_stage_def dict_simps)

lemma set_stage_simps [simp]:
  "servers (set_stage c i st) = servers c" "history (set_stage c i st) = history c"
  by (simp_all add: set_stage_def)

section \<open>The sequential register map and linearizability\<close>

text \<open>
  The specification: a set answers OK and stores; a get answers the stored value. A client whose
  request fails does not learn whether the request took effect.
\<close>

fun spec_step :: "(string \<rightharpoonup> json) \<Rightarrow> cr_op \<Rightarrow> json_message \<Rightarrow> (string \<rightharpoonup> json) option" where
  "spec_step m (OpSet k v) r = (if r = status_ok then Some (m(k \<mapsto> JStr v)) else None)"
| "spec_step m (OpGet k) r =
     (case m k of Some v \<Rightarrow> if r = value_reply v then Some m else None | None \<Rightarrow> None)"

fun spec_run :: "(string \<rightharpoonup> json) \<Rightarrow> (nat \<times> cr_op \<times> json_message) list \<Rightarrow> (string \<rightharpoonup> json) option" where
  "spec_run m [] = Some m"
| "spec_run m ((i, x, r) # L) = (case spec_step m x r of None \<Rightarrow> None | Some m' \<Rightarrow> spec_run m' L)"

text \<open>Operation \<open>i\<close> returned before operation \<open>j\<close> was invoked.\<close>

definition returned_before :: "event list \<Rightarrow> nat \<Rightarrow> nat \<Rightarrow> bool" where
  "returned_before h i j \<longleftrightarrow> (\<exists>h1 r h2 x. h = h1 @ Res i r # h2 \<and> Inv j x \<in> set h2)"

text \<open>
  A sequence \<open>L\<close> of operations with their responses explains the history: every response in the
  history that is not a failure is the one in \<open>L\<close>, every operation in \<open>L\<close> was invoked, no operation comes before one
  that had returned before it was invoked, and \<open>L\<close> is a run of the specification.
\<close>

definition answered :: "(nat \<times> cr_op \<times> json_message) list \<Rightarrow> nat \<Rightarrow> json_message \<Rightarrow> bool" where
  "answered L i r \<longleftrightarrow> r = failure \<or> (\<exists>x. (i, x, r) \<in> set L)"

definition linearization :: "event list \<Rightarrow> (nat \<times> cr_op \<times> json_message) list \<Rightarrow> bool" where
  "linearization h L \<longleftrightarrow>
     distinct (map fst L) \<and>
     (\<forall>i r. Res i r \<in> set h \<longrightarrow> answered L i r) \<and>
     (\<forall>i x r. (i, x, r) \<in> set L \<longrightarrow> Inv i x \<in> set h) \<and>
     sorted_wrt (\<lambda>p q. \<not> returned_before h (fst q) (fst p)) L \<and>
     spec_run Map.empty L \<noteq> None"

definition linearizable :: "event list \<Rightarrow> bool" where
  "linearizable h \<longleftrightarrow> (\<exists>L. linearization h L)"

lemma answered_snoc: "answered (L @ [(j, x, r)]) i r' \<longleftrightarrow> answered L i r' \<or> i = j \<and> r' = r"
  by (auto simp: answered_def)

lemma answered_failure: "answered L i failure"
  by (simp add: answered_def)

lemma spec_run_append:
  "spec_run m (L @ L') = (case spec_run m L of None \<Rightarrow> None | Some m' \<Rightarrow> spec_run m' L')"
  by (induction m L rule: spec_run.induct) (auto split: option.split)

lemma returned_before_snoc_Inv:
  "returned_before (h @ [Inv k x]) i j \<longleftrightarrow> returned_before h i j \<or> (\<exists>r. Res i r \<in> set h) \<and> j = k"
proof
  assume "returned_before (h @ [Inv k x]) i j"
  then obtain h1 r h2 y where e: "h @ [Inv k x] = h1 @ Res i r # h2" "Inv j y \<in> set h2"
    by (auto simp: returned_before_def)
  obtain h3 where h2: "h2 = h3 @ [Inv k x]" using e by (cases h2 rule: rev_cases) auto
  then have "h = h1 @ Res i r # h3" using e by simp
  then show "returned_before h i j \<or> (\<exists>r. Res i r \<in> set h) \<and> j = k"
    using e(2) h2 by (auto simp: returned_before_def)
next
  assume "returned_before h i j \<or> (\<exists>r. Res i r \<in> set h) \<and> j = k"
  then show "returned_before (h @ [Inv k x]) i j"
  proof
    assume "returned_before h i j"
    then obtain h1 r h2 y where "h = h1 @ Res i r # h2" "Inv j y \<in> set h2"
      by (auto simp: returned_before_def)
    then show ?thesis unfolding returned_before_def
      by (intro exI [of _ h1] exI [of _ r] exI [of _ "h2 @ [Inv k x]"] exI [of _ y]) auto
  next
    assume "(\<exists>r. Res i r \<in> set h) \<and> j = k"
    then obtain r h1 h2 where "h = h1 @ Res i r # h2" "j = k" by (auto dest: split_list)
    then show ?thesis unfolding returned_before_def
      by (intro exI [of _ h1] exI [of _ r] exI [of _ "h2 @ [Inv k x]"]) auto
  qed
qed

lemma returned_before_snoc_Res: "returned_before (h @ [Res k r]) i j \<longleftrightarrow> returned_before h i j"
proof
  assume "returned_before (h @ [Res k r]) i j"
  then obtain h1 r' h2 y where e: "h @ [Res k r] = h1 @ Res i r' # h2" "Inv j y \<in> set h2"
    by (auto simp: returned_before_def)
  obtain h3 where h2: "h2 = h3 @ [Res k r]" using e by (cases h2 rule: rev_cases) auto
  then have "h = h1 @ Res i r' # h3" using e by simp
  then show "returned_before h i j" using e(2) h2 by (auto simp: returned_before_def)
next
  assume "returned_before h i j"
  then obtain h1 r' h2 y where "h = h1 @ Res i r' # h2" "Inv j y \<in> set h2"
    by (auto simp: returned_before_def)
  then show "returned_before (h @ [Res k r]) i j" unfolding returned_before_def
    by (intro exI [of _ h1] exI [of _ r'] exI [of _ "h2 @ [Res k r]"] exI [of _ y]) auto
qed

lemma returned_before_Res: "returned_before h i j \<Longrightarrow> \<exists>r. Res i r \<in> set h"
  by (auto simp: returned_before_def)

lemma chain_step_cases:
  assumes "chain_step conns c l = Some c'"
  obtains
    (invoke) i x where "l = Invoke i x" "dict_get (threads c) i = None"
      "c' = (set_stage c i (Running (server_of conns x) (request_of x) []))\<lparr>history := history c @ [Inv i x]\<rparr>"
  | (process) i n m ws r s' where "l = Work i" "dict_get (threads c) i = Some (Running n m ws)"
      "process_req (servers c n) m = (r, s')"
      "c' = set_stage (c\<lparr>servers := (servers c)(n := s')\<rparr>) i (after_process c n ws r)"
  | (hop) i r n ws where "l = Work i" "dict_get (threads c) i = Some (Replying r (n # ws))"
      "c' = set_stage c i (Replying r ws)"
  | (return) i r where "l = Work i" "dict_get (threads c) i = Some (Replying r [])"
      "c' = (set_stage c i Finished)\<lparr>history := history c @ [Res i r]\<rparr>"
  | (drop) i st st' where "l = Lose i \<or> l = Crash i" "dict_get (threads c) i = Some st" "st \<noteq> Finished"
      "c' = set_stage c i st'" "(\<exists>ws. st' = Hung ws) \<or> (\<exists>ws. st' = Replying failure ws)"
proof (cases l)
  case (Invoke i x)
  then show ?thesis using assms invoke
    by (auto simp: map_of_eq_None_iff split: if_splits)
next
  case (Work i)
  then show ?thesis using assms process hop return
    by (auto simp: work_def split: option.splits stage.splits prod.splits list.splits)
next
  case (Lose i)
  then show ?thesis using assms drop
    by (auto split: option.splits stage.splits)
next
  case (Crash i)
  then show ?thesis using assms drop
    by (auto split: option.splits stage.splits list.splits)
qed

section \<open>Any chain of servers\<close>

text \<open>From \<open>c\<close> to \<open>c'\<close> the servers in \<open>S\<close> have stored \<open>v\<close> under \<open>k\<close>, and nothing else happened to the stores.\<close>

definition stored :: "config \<Rightarrow> string set \<Rightarrow> string \<Rightarrow> string \<Rightarrow> config \<Rightarrow> bool" where
  "stored c S k v c' \<longleftrightarrow> (\<forall>n. cr_d (servers c' n) =
     (if n \<in> S then (cr_d (servers c n))(JStr k \<mapsto> JStr v) else cr_d (servers c n)))"


locale chain =
  fixes nodes :: "string list" and srv :: "string \<Rightarrow> cr_server"
  assumes nodes_nonempty: "nodes \<noteq> []"
    and nodes_distinct: "distinct nodes"
    and next_inner: "Suc p < length nodes \<Longrightarrow> cr_next (srv (nodes ! p)) = Some (nodes ! Suc p)"
    and next_last: "cr_next (srv (last nodes)) = None"
    and store_empty: "n \<in> set nodes \<Longrightarrow> cr_d (srv n) = Map.empty"
begin

lemma last_index: "p < length nodes \<Longrightarrow> nodes ! p = last nodes \<longleftrightarrow> Suc p = length nodes"
  using nodes_nonempty nodes_distinct
  by (auto simp: last_conv_nth nth_eq_iff_index_eq)

lemma hd_index: "hd nodes = nodes ! 0"
  using nodes_nonempty by (simp add: hd_conv_nth)

text \<open>
  The place of a thread: a set walks down the chain from the head, and the servers behind it wait;
  a get is at the tail.
\<close>

fun placed :: "cr_op \<Rightarrow> string \<Rightarrow> string list \<Rightarrow> bool" where
  "placed (OpSet k v) n ws = (\<exists>p < length nodes. n = nodes ! p \<and> ws = rev (take p nodes))"
| "placed (OpGet k) n ws = (n = last nodes \<and> ws = [])"

definition wellformed :: "config \<Rightarrow> bool" where
  "wellformed c \<longleftrightarrow>
     (\<forall>n. cr_next (servers c n) = cr_next (srv n)) \<and>
     (\<forall>i n m ws. dict_get (threads c) i = Some (Running n m ws) \<longrightarrow>
        (\<exists>x. Inv i x \<in> set (history c) \<and> m = request_of x \<and> placed x n ws)) \<and>
     (\<forall>i. dict_get (threads c) i = None \<longleftrightarrow> (\<forall>x. Inv i x \<notin> set (history c))) \<and>
     (\<forall>i x y. Inv i x \<in> set (history c) \<longrightarrow> Inv i y \<in> set (history c) \<longrightarrow> x = y) \<and>
     (\<forall>i r. Res i r \<in> set (history c) \<longrightarrow> dict_get (threads c) i = Some Finished)"

lemma wellformed_next: "wellformed c \<Longrightarrow> cr_next (servers c n) = cr_next (srv n)"
  and wellformed_running: "wellformed c \<Longrightarrow> dict_get (threads c) i = Some (Running n m ws) \<Longrightarrow>
        \<exists>x. Inv i x \<in> set (history c) \<and> m = request_of x \<and> placed x n ws"
  and wellformed_fresh: "wellformed c \<Longrightarrow> dict_get (threads c) i = None \<Longrightarrow> Inv i x \<notin> set (history c)"
  and wellformed_known: "wellformed c \<Longrightarrow> dict_get (threads c) i = Some st \<Longrightarrow> \<exists>x. Inv i x \<in> set (history c)"
  and wellformed_unique: "wellformed c \<Longrightarrow> Inv i x \<in> set (history c) \<Longrightarrow> Inv i y \<in> set (history c) \<Longrightarrow> x = y"
  and wellformed_Res: "wellformed c \<Longrightarrow> Res i r \<in> set (history c) \<Longrightarrow> dict_get (threads c) i = Some Finished"
  unfolding wellformed_def by (blast, blast, blast, (metis option.discI), blast, blast)

text \<open>What processing a request does: the next stage, and the effect on the stores.\<close>

lemma process_next: "process_req s (request_of x) = (r, s') \<Longrightarrow> cr_next s' = cr_next s"
  by (cases x) (auto simp del: request_of.simps simp: process_set process_get)

lemma process_stage:
  assumes "wellformed c" "placed x n ws" "process_req (servers c n) (request_of x) = (r, s')"
    "after_process c n ws r = Running n' m' ws'"
  shows "m' = request_of x \<and> placed x n' ws'"
proof (cases x)
  case (OpSet k v)
  then obtain p where p: "p < length nodes" "n = nodes ! p" "ws = rev (take p nodes)"
    using assms(2) by auto
  have r: "r = Inr (case cr_next (srv n) of Some n \<Rightarrow> Forward n (request_of x) | None \<Rightarrow> Reply status_ok)"
    using assms(1,3) OpSet by (simp only: process_set wellformed_next prod.inject)
  show ?thesis
  proof (cases "Suc p = length nodes")
    case True
    then have "cr_next (srv n) = None" using next_last last_index p by metis
    then show ?thesis using assms(4) r by (simp add: after_process_def)
  next
    case False
    then have "Suc p < length nodes" using p by simp
    moreover from this have "cr_next (srv n) = Some (nodes ! Suc p)" using next_inner p by simp
    ultimately show ?thesis
      using assms(4) r p OpSet
      by (auto simp: after_process_def take_Suc_conv_app_nth split: if_splits)
  qed
next
  case (OpGet k)
  then show ?thesis using assms(3,4)
    by (simp only: process_get prod.inject) (auto simp: after_process_def split: if_splits option.splits)
qed

lemma wellformed_start: "wellformed (start srv)"
  by (simp add: wellformed_def start_def)

lemma wellformed_step:
  assumes wf: "wellformed c" and st: "chain_step nodes c l = Some c'"
  shows "wellformed c'"
  using st
proof (cases rule: chain_step_cases)
  case (invoke i x)
  have "placed x (server_of nodes x) []"
    using nodes_nonempty hd_index by (cases x) (auto intro!: exI [of _ 0])
  moreover have "Inv i y \<notin> set (history c)" "Res i r \<notin> set (history c)" for y r
    using wf invoke(2) wellformed_fresh wellformed_Res by fastforce+
  ultimately show ?thesis
    using wf invoke(2) unfolding invoke(3) wellformed_def by auto
next
  case (process i n m ws r s')
  obtain x where x: "Inv i x \<in> set (history c)" "m = request_of x" "placed x n ws"
    using wellformed_running [OF wf process(2)] by blast
  have nx: "cr_next s' = cr_next (servers c n)" using process(3) x(2) process_next by simp
  have "\<exists>x. Inv i x \<in> set (history c) \<and> m' = request_of x \<and> placed x n' ws'"
    if "after_process c n ws r = Running n' m' ws'" for n' m' ws'
    using process_stage [OF wf x(3) _ that] process(3) x by blast
  moreover have "Res i r' \<notin> set (history c)" for r'
    using wf process(2) wellformed_Res by fastforce
  ultimately show ?thesis
    using wf x(1) nx unfolding process(4) wellformed_def by auto
next
  case (hop i r n ws)
  moreover have "Res i r' \<notin> set (history c)" for r' using wf hop(2) wellformed_Res by fastforce
  moreover have "\<exists>x. Inv i x \<in> set (history c)" by (rule wellformed_known [OF wf hop(2)])
  ultimately show ?thesis using wf unfolding hop(3) wellformed_def by auto
next
  case (return i r)
  moreover have "\<exists>x. Inv i x \<in> set (history c)" by (rule wellformed_known [OF wf return(2)])
  ultimately show ?thesis using wf unfolding return(3) wellformed_def by auto
next
  case (drop i st st')
  moreover have "Res i r' \<notin> set (history c)" for r' using wf drop(2,3) wellformed_Res by fastforce
  moreover have "\<exists>x. Inv i x \<in> set (history c)" by (rule wellformed_known [OF wf drop(2)])
  ultimately show ?thesis using wf unfolding drop(4) wellformed_def by auto
qed

lemma wellformed_reachable: "reachable nodes srv c \<Longrightarrow> wellformed c"
  by (induction rule: reachable.induct) (auto intro: wellformed_start wellformed_step)

section \<open>Every reachable history is linearizable\<close>

text \<open>The abstract state is what the tail stores; an operation takes effect when the tail processes it.\<close>

definition tail_map :: "config \<Rightarrow> string \<rightharpoonup> json" where
  "tail_map c = (\<lambda>k. cr_d (servers c (last nodes)) (JStr k))"

definition explains :: "config \<Rightarrow> (nat \<times> cr_op \<times> json_message) list \<Rightarrow> bool" where
  "explains c L \<longleftrightarrow>
     distinct (map fst L) \<and>
     (\<forall>i r ws. dict_get (threads c) i = Some (Replying r ws) \<longrightarrow> answered L i r) \<and>
     (\<forall>i r. Res i r \<in> set (history c) \<longrightarrow> answered L i r) \<and>
     (\<forall>i x r. (i, x, r) \<in> set L \<longrightarrow> Inv i x \<in> set (history c)) \<and>
     (\<forall>i x r n m ws. (i, x, r) \<in> set L \<longrightarrow> dict_get (threads c) i \<noteq> Some (Running n m ws)) \<and>
     sorted_wrt (\<lambda>p q. \<not> returned_before (history c) (fst q) (fst p)) L \<and>
     spec_run Map.empty L = Some (tail_map c)"

lemma explains_linearization: "explains c L \<Longrightarrow> linearization (history c) L"
  by (simp add: explains_def linearization_def)

lemma explains_start: "explains (start srv) []"
  using store_empty [of "last nodes"] nodes_nonempty
  by (simp add: explains_def start_def tail_map_def)

text \<open>A request either leaves the tail's store alone, or is answered there as the specification says.\<close>

lemma process_effect:
  assumes "wellformed c" "placed x n ws" "process_req (servers c n) (request_of x) = (r, s')"
  obtains
    (pass) "n \<noteq> last nodes \<or> cr_d s' = cr_d (servers c n)"
      "(\<exists>n' m' ws'. after_process c n ws r = Running n' m' ws') \<or> after_process c n ws r = Replying failure ws"
  | (commit) resp where "n = last nodes" "after_process c n ws r = Replying resp ws"
      "spec_step (tail_map c) x resp = Some (\<lambda>k. cr_d s' (JStr k))"
proof (cases x)
  case (OpSet k v)
  then obtain p where p: "p < length nodes" "n = nodes ! p" "ws = rev (take p nodes)"
    using assms(2) by auto
  have r: "r = Inr (case cr_next (srv n) of Some n \<Rightarrow> Forward n (request_of x) | None \<Rightarrow> Reply status_ok)"
    and s': "s' = (servers c n)\<lparr>cr_d := (cr_d (servers c n))(JStr k \<mapsto> JStr v)\<rparr>"
    using assms(1,3) OpSet by (simp_all only: process_set wellformed_next prod.inject)
  show ?thesis
  proof (cases "Suc p = length nodes")
    case True
    then have n: "n = last nodes" "cr_next (srv n) = None" using next_last last_index p by metis+
    then show ?thesis
      using r s' OpSet by (intro commit [of status_ok]) (auto simp: after_process_def tail_map_def fun_eq_iff)
  next
    case False
    then have "n \<noteq> last nodes" "cr_next (srv n) = Some (nodes ! Suc p)"
      using p next_inner [of p] last_index [of p] by auto
    then show ?thesis using r by (intro pass) (auto simp: after_process_def)
  qed
next
  case (OpGet k)
  then have n: "n = last nodes" "cr_next (servers c n) = None"
    using assms(1,2) next_last by (auto simp: wellformed_next)
  show ?thesis
  proof (cases "cr_d (servers c n) (JStr k)")
    case None
    then show ?thesis using assms(3) OpGet n
      by (intro pass) (auto simp only: process_get, simp_all add: after_process_def)
  next
    case (Some v)
    then show ?thesis using assms(3) OpGet n
      by (intro commit [of "value_reply v"]) (auto simp only: process_get, simp_all add: after_process_def tail_map_def)
  qed
qed

lemma explains_step:
  assumes wf: "wellformed c" and ex: "explains c L" and st: "chain_step nodes c l = Some c'"
  shows "\<exists>L'. explains c' L'"
  using st
proof (cases rule: chain_step_cases)
  case (invoke i x)
  have fresh: "Inv i y \<notin> set (history c)" for y by (rule wellformed_fresh [OF wf invoke(2)])
  have notin: "(i, y, r) \<notin> set L" for y r using ex fresh by (fastforce simp: explains_def)
  have "sorted_wrt (\<lambda>p q. \<not> returned_before (history c @ [Inv i x]) (fst q) (fst p)) L"
  proof (rule sorted_wrt_mono_rel [rotated])
    show "sorted_wrt (\<lambda>p q. \<not> returned_before (history c) (fst q) (fst p)) L"
      using ex by (simp add: explains_def)
  next
    fix p q assume "p \<in> set L" "\<not> returned_before (history c) (fst q) (fst p)"
    moreover have "fst p \<noteq> i" using notin \<open>p \<in> set L\<close> by (cases p) auto
    ultimately show "\<not> returned_before (history c @ [Inv i x]) (fst q) (fst p)"
      by (simp add: returned_before_snoc_Inv)
  qed
  then have "explains c' L"
    using ex notin unfolding invoke(3) explains_def tail_map_def by auto
  then show ?thesis ..
next
  case (process i n m ws r s')
  obtain x where x: "Inv i x \<in> set (history c)" "m = request_of x" "placed x n ws"
    using wellformed_running [OF wf process(2)] by blast
  have notin: "(i, y, r) \<notin> set L" for y r using ex process(2) by (fastforce simp: explains_def)
  have nores: "Res i r' \<notin> set (history c)" for r'
    using wf process(2) wellformed_Res by fastforce
  from process(3) have "process_req (servers c n) (request_of x) = (r, s')" using x(2) by simp
  from wf x(3) this show ?thesis
  proof (cases rule: process_effect)
    case pass
    then have "tail_map c' = tail_map c" unfolding process(4) by (auto simp: tail_map_def)
    then have "explains c' L"
      using ex pass(2) notin unfolding process(4) explains_def by (auto simp: answered_failure)
    then show ?thesis ..
  next
    case (commit resp)
    have "\<not> returned_before (history c) i j" for j using nores returned_before_Res by blast
    moreover have "spec_run Map.empty (L @ [(i, x, resp)]) = Some (tail_map c')"
      using ex commit by (simp add: explains_def spec_run_append process(4) tail_map_def)
    moreover have "i \<notin> set (map fst L)" using notin by auto
    ultimately have "explains c' (L @ [(i, x, resp)])"
      using ex commit(2) x(1) unfolding process(4) explains_def
      by (auto simp: sorted_wrt_append answered_snoc answered_failure)
    then show ?thesis ..
  qed
next
  case (hop i r n ws)
  then have "explains c' L" using ex unfolding hop(3) explains_def tail_map_def by auto
  then show ?thesis ..
next
  case (return i r)
  then have "explains c' L" using ex unfolding return(3) explains_def tail_map_def
    by (auto simp: returned_before_snoc_Res)
  then show ?thesis ..
next
  case (drop i st st')
  then have "explains c' L" using ex unfolding drop(4) explains_def tail_map_def
    by (auto simp: answered_failure)
  then show ?thesis ..
qed

lemma explains_reachable: "reachable nodes srv c \<Longrightarrow> \<exists>L. explains c L"
proof (induction rule: reachable.induct)
  case (step c l c')
  then show ?case using explains_step wellformed_reachable by blast
qed (use explains_start in blast)

lemma reachable_linearizable: "reachable nodes srv c \<Longrightarrow> linearizable (history c)"
  using explains_reachable explains_linearization unfolding linearizable_def by blast

section \<open>Progress\<close>

text \<open>The answer travels back over the servers that wait for it.\<close>

lemma reply_up:
  "dict_get (threads c) i = Some (Replying r ws) \<Longrightarrow>
     \<exists>c'. run conns c (replicate (Suc (length ws)) (Work i)) = Some c' \<and> servers c' = servers c \<and>
       history c' = history c @ [Res i r] \<and> dict_get (threads c') i = Some Finished"
proof (induction ws arbitrary: c)
  case (Cons n ws)
  then show ?case using Cons.IH [of "set_stage c i (Replying r ws)"] by (simp add: work_def)
qed (simp add: work_def)

lemma work_running:
  "dict_get (threads c) i = Some (Running n m ws) \<Longrightarrow> process_req (servers c n) m = (r, s') \<Longrightarrow>
     work c i = Some (set_stage (c\<lparr>servers := (servers c)(n := s')\<rparr>) i (after_process c n ws r))"
  by (simp add: work_def)

text \<open>A thread that is scheduled and not disturbed gets its answer, whatever the others hold.\<close>

lemma finishes:
  assumes "reachable nodes srv c" "dict_get (threads c) i = Some (Running n m ws)"
  shows "\<exists>k \<le> 2 * length nodes. \<exists>c' r. run nodes c (replicate k (Work i)) = Some c' \<and>
    dict_get (threads c') i = Some Finished \<and> Res i r \<in> set (history c')"
proof -
  have "\<exists>k \<le> 2 * length nodes - length ws. \<exists>c' r. run nodes c (replicate k (Work i)) = Some c' \<and>
      dict_get (threads c') i = Some Finished \<and> Res i r \<in> set (history c')"
    if "placed x n ws" "wellformed c" "dict_get (threads c) i = Some (Running n (request_of x) ws)" for x
    using that
  proof (induction "length nodes - length ws" arbitrary: c n ws rule: less_induct)
    case less
    have ws: "length ws < length nodes"
      using less.prems(1) nodes_nonempty by (cases x) auto
    obtain r s' where pr: "process_req (servers c n) (request_of x) = (r, s')" by fastforce
    define d where "d = set_stage (c\<lparr>servers := (servers c)(n := s')\<rparr>) i (after_process c n ws r)"
    have st: "chain_step nodes c (Work i) = Some d"
      using work_running [OF less.prems(3) pr] by (simp add: d_def)
    have answer: ?case if "after_process c n ws r = Replying resp ws" for resp
    proof -
      have "dict_get (threads d) i = Some (Replying resp ws)" using that by (simp add: d_def)
      from reply_up [OF this, of nodes] obtain e where e:
        "run nodes d (replicate (Suc (length ws)) (Work i)) = Some e" "Res i resp \<in> set (history e)"
        "dict_get (threads e) i = Some Finished" by auto
      from e st ws show ?thesis
        by (intro exI [of _ "Suc (Suc (length ws))"] conjI exI [of _ e] exI [of _ resp]) auto
    qed
    from less.prems(2,1) pr show ?case
    proof (cases rule: process_effect)
      case pass
      from pass(2) show ?thesis
      proof
        assume "\<exists>n' m' ws'. after_process c n ws r = Running n' m' ws'"
        then obtain n' m' ws' where run: "after_process c n ws r = Running n' m' ws'" by blast
        have pl: "m' = request_of x \<and> placed x n' ws'"
          by (rule process_stage [OF less.prems(2,1) pr run])
        have len: "length ws' = Suc (length ws)"
          using run by (auto simp: after_process_def split: sum.splits cr_action.splits if_splits)
        have "\<exists>k \<le> 2 * length nodes - length ws'. \<exists>e r. run nodes d (replicate k (Work i)) = Some e \<and>
            dict_get (threads e) i = Some Finished \<and> Res i r \<in> set (history e)"
          using len ws pl run wellformed_step [OF less.prems(2) st]
          by (intro less.hyps) (auto simp: d_def)
        then obtain k e r' where "k \<le> 2 * length nodes - length ws'"
          "run nodes d (replicate k (Work i)) = Some e"
          "dict_get (threads e) i = Some Finished \<and> Res i r' \<in> set (history e)" by blast
        then show ?thesis using st len ws
          by (intro exI [of _ "Suc k"] conjI exI [of _ e] exI [of _ r']) auto
      qed (rule answer)
    next
      case (commit resp)
      then show ?thesis by (intro answer)
    qed
  qed
  moreover obtain x where "m = request_of x" "placed x n ws"
    using wellformed_running [OF wellformed_reachable [OF assms(1)] assms(2)] by blast
  ultimately show ?thesis
    using wellformed_reachable [OF assms(1)] assms(2) by (meson diff_le_self order_trans)
qed

text \<open>A set that nobody disturbs writes every server of the chain.\<close>

lemma occupancy_set_stage:
  "n \<notin> set (waiting st) \<Longrightarrow> occupancy (set_stage c i st) n \<le> occupancy c n"
proof -
  have "length (filter (\<lambda>(i, st). n \<in> set (waiting st)) (dict_set d i st)) \<le>
        length (filter (\<lambda>(i, st). n \<in> set (waiting st)) d)" if "n \<notin> set (waiting st)" for d
    using that by (induction d) (auto simp: le_SucI)
  then show "n \<notin> set (waiting st) \<Longrightarrow> occupancy (set_stage c i st) n \<le> occupancy c n"
    by (simp add: occupancy_def set_stage_def)
qed

lemma set_walks_down:
  assumes "p < length nodes" "dict_get (threads c) i = Some (Running (nodes ! p) (request_of (OpSet k v)) (rev (take p nodes)))"
    "\<forall>n. cr_next (servers c n) = cr_next (srv n)"
    "\<forall>q. p \<le> q \<longrightarrow> q < length nodes \<longrightarrow> occupancy c (nodes ! q) < POOL_SZ"
  shows "\<exists>c'. run nodes c (replicate (length nodes - p) (Work i)) = Some c' \<and>
    dict_get (threads c') i = Some (Replying status_ok (rev (butlast nodes))) \<and>
    history c' = history c \<and> stored c (set (drop p nodes)) k v c'"
  using assms
proof (induction "length nodes - p" arbitrary: p c)
  case (Suc d)
  let ?n = "nodes ! p" and ?x = "OpSet k v"
  define s' where "s' = (servers c ?n)\<lparr>cr_d := (cr_d (servers c ?n))(JStr k \<mapsto> JStr v)\<rparr>"
  define e where "e = c\<lparr>servers := (servers c)(?n := s')\<rparr>"
  define r where "r = (Inr (case cr_next (srv ?n) of Some n \<Rightarrow> Forward n (request_of ?x) | None \<Rightarrow> Reply status_ok) :: cr_action res)"
  have "process_req (servers c ?n) (request_of ?x) = (r, s')"
    using Suc.prems(3) by (simp only: process_set s'_def r_def)
  from work_running [OF Suc.prems(2) this]
  have st: "chain_step nodes c (Work i) = Some (set_stage e i (after_process c ?n (rev (take p nodes)) r))"
    by (simp add: e_def)
  have drop: "drop p nodes = ?n # drop (Suc p) nodes" using Suc.prems(1) by (simp add: Cons_nth_drop_Suc)
  show ?case
  proof (cases "Suc p = length nodes")
    case True
    then have "cr_next (srv ?n) = None" using next_last last_index Suc.prems(1) by metis
    then have ap: "after_process c ?n (rev (take p nodes)) r = Replying status_ok (rev (butlast nodes))"
      using True by (simp add: r_def after_process_def butlast_conv_take flip: True)
    have "stored c (set (drop p nodes)) k v (set_stage e i st)" for st
      using True drop by (auto simp: stored_def e_def s'_def)
    moreover have "run nodes c (replicate (length nodes - p) (Work i)) =
        Some (set_stage e i (Replying status_ok (rev (butlast nodes))))"
    proof -
      have "length nodes - p = 1" using True by simp
      then show ?thesis using st ap by simp
    qed
    moreover have "history (set_stage e i (Replying status_ok (rev (butlast nodes)))) = history c"
      by (simp add: e_def)
    ultimately show ?thesis using dict_get_set_stage by metis
  next
    case False
    then have p: "Suc p < length nodes" using Suc.prems(1) by simp
    then have "cr_next (srv ?n) = Some (nodes ! Suc p)" using next_inner by simp
    then have ap: "after_process c ?n (rev (take p nodes)) r =
        Running (nodes ! Suc p) (request_of ?x) (rev (take (Suc p) nodes))"
      using Suc.prems(1,4) by (simp add: r_def after_process_def take_Suc_conv_app_nth)
    let ?e = "set_stage e i (Running (nodes ! Suc p) (request_of ?x) (rev (take (Suc p) nodes)))"
    have occ: "occupancy ?e (nodes ! q) < POOL_SZ" if q: "Suc p \<le> q" "q < length nodes" for q
    proof -
      have "nodes ! q \<notin> set (take (Suc p) nodes)"
        using nodes_distinct q p by (auto simp: in_set_conv_nth nth_eq_iff_index_eq)
      then have "occupancy ?e (nodes ! q) \<le> occupancy e (nodes ! q)"
        by (intro occupancy_set_stage) simp
      also have "\<dots> = occupancy c (nodes ! q)" by (simp add: occupancy_def e_def)
      also have "\<dots> < POOL_SZ" using Suc.prems(4) q by simp
      finally show ?thesis .
    qed
    have "\<exists>c'. run nodes ?e (replicate (length nodes - Suc p) (Work i)) = Some c' \<and>
        dict_get (threads c') i = Some (Replying status_ok (rev (butlast nodes))) \<and>
        history c' = history ?e \<and> stored ?e (set (drop (Suc p) nodes)) k v c'"
      using Suc.hyps(2) p occ Suc.prems(3)
      by (intro Suc.hyps(1)) (auto simp: e_def s'_def)
    then obtain c' where c': "run nodes ?e (replicate (length nodes - Suc p) (Work i)) = Some c'"
      "dict_get (threads c') i = Some (Replying status_ok (rev (butlast nodes)))"
      "history c' = history ?e" "stored ?e (set (drop (Suc p) nodes)) k v c'" by blast
    have "?n \<notin> set (drop (Suc p) nodes)"
      using nodes_distinct Suc.prems(1) by (metis drop distinct.simps(2) distinct_drop)
    then have "stored c (set (drop p nodes)) k v c'"
      using c'(4) by (auto simp: stored_def e_def s'_def drop)
    moreover have "run nodes c (replicate (length nodes - p) (Work i)) = Some c'"
      using st ap c'(1) Suc_diff_Suc [of p "length nodes"] p by (metis Suc_lessD option.simps(5) replicate_Suc run.simps(2))
    moreover have "history c' = history c" using c'(3) by (simp add: e_def)
    ultimately show ?thesis using c'(2) by blast
  qed
qed simp

lemma solo_set:
  assumes "reachable nodes srv c" "dict_get (threads c) i = None"
    "\<forall>n \<in> set nodes. occupancy c n < POOL_SZ"
  shows "\<exists>c'. run nodes c (Invoke i (OpSet k v) # replicate (2 * length nodes) (Work i)) = Some c' \<and>
    history c' = history c @ [Inv i (OpSet k v), Res i status_ok] \<and> stored c (set nodes) k v c'"
proof -
  define d where "d = (set_stage c i (Running (hd nodes) (request_of (OpSet k v)) []))
                        \<lparr>history := history c @ [Inv i (OpSet k v)]\<rparr>"
  have inv: "chain_step nodes c (Invoke i (OpSet k v)) = Some d"
    using assms(2) by (simp add: d_def map_of_eq_None_iff)
  have wf: "wellformed c" by (rule wellformed_reachable [OF assms(1)])
  have occ: "occupancy d n < POOL_SZ" if "n \<in> set nodes" for n
  proof -
    have "occupancy d n = occupancy (set_stage c i (Running (hd nodes) (request_of (OpSet k v)) [])) n"
      by (simp add: occupancy_def d_def)
    also have "\<dots> \<le> occupancy c n" by (rule occupancy_set_stage) simp
    also have "\<dots> < POOL_SZ" using assms(3) that by simp
    finally show ?thesis .
  qed
  have "\<exists>e. run nodes d (replicate (length nodes - 0) (Work i)) = Some e \<and>
    dict_get (threads e) i = Some (Replying status_ok (rev (butlast nodes))) \<and>
    history e = history d \<and> stored d (set (drop 0 nodes)) k v e"
    using nodes_nonempty hd_index occ wellformed_next [OF wf]
    by (intro set_walks_down) (auto simp: d_def)
  then obtain e where e: "run nodes d (replicate (length nodes) (Work i)) = Some e"
    "dict_get (threads e) i = Some (Replying status_ok (rev (butlast nodes)))"
    "history e = history d" "stored d (set nodes) k v e" by auto
  from reply_up [OF e(2), of nodes] obtain c' where c':
    "run nodes e (replicate (length nodes) (Work i)) = Some c'" "servers c' = servers e"
    "history c' = history e @ [Res i status_ok]" using nodes_nonempty by auto
  have "run nodes d (replicate (2 * length nodes) (Work i)) = Some c'"
    using e(1) c'(1) by (simp add: mult_2 replicate_add run_append)
  with inv c' e show ?thesis by (auto simp: d_def stored_def)
qed

text \<open>A get answers what the tail stores.\<close>

lemma solo_get:
  assumes "reachable nodes srv c" "dict_get (threads c) i = None"
  shows "\<exists>c'. run nodes c [Invoke i (OpGet k), Work i, Work i] = Some c' \<and>
    history c' = history c @ [Inv i (OpGet k),
      Res i (case cr_d (servers c (last nodes)) (JStr k) of Some v \<Rightarrow> value_reply v | None \<Rightarrow> failure)] \<and>
    servers c' = servers c"
proof -
  define d where "d = (set_stage c i (Running (last nodes) (request_of (OpGet k)) []))
                        \<lparr>history := history c @ [Inv i (OpGet k)]\<rparr>"
  have inv: "chain_step nodes c (Invoke i (OpGet k)) = Some d"
    using assms(2) by (simp add: d_def map_of_eq_None_iff)
  have nx: "cr_next (servers d (last nodes)) = None"
    using wellformed_next [OF wellformed_reachable [OF assms(1)]] next_last by (simp add: d_def)
  define resp where
    "resp = (case cr_d (servers c (last nodes)) (JStr k) of Some v \<Rightarrow> value_reply v | None \<Rightarrow> failure)"
  define e where "e = set_stage (d\<lparr>servers := (servers d)(last nodes := servers d (last nodes))\<rparr>) i
      (after_process d (last nodes) [] (case cr_d (servers d (last nodes)) (JStr k) of
         None \<Rightarrow> Inl KeyError | Some v \<Rightarrow> Inr (Reply (value_reply v))))"
  have "chain_step nodes d (Work i) = Some e"
    unfolding chain_step.simps e_def
    by (rule work_running [of _ _ _ "request_of (OpGet k)"]) (simp add: d_def, simp only: process_get nx simp_thms if_True)
  moreover have "dict_get (threads e) i = Some (Replying resp [])" "servers e = servers c" "history e = history d"
    by (auto simp: e_def resp_def d_def after_process_def split: option.split)
  ultimately show ?thesis
    using inv reply_up [of e i resp "[]" nodes] by (auto simp: resp_def d_def)
qed

end

section \<open>The cluster of lab 3\<close>

lemma cr_servers_next:
  "map (\<lambda>n. cr_next (cr_servers n)) cr_conns = [Some ''b'', Some ''c'', Some ''d'', None]"
  by (simp add: cr_servers_def cr_conns_def cr_create_server_simps cr_server_init_def)
    (simp add: cr_a_def cr_b_def cr_c_def cr_dd_def)

lemma cr_conns_names: "cr_conns = [''a'', ''b'', ''c'', ''d'']"
  by (simp add: cr_conns_def cr_a_def cr_b_def cr_c_def cr_dd_def)

lemma cr_servers_store: "cr_d (cr_servers n) = Map.empty"
  by (simp add: cr_servers_def cr_server_init_def cr_create_server_def dict_index_def split: option.split)

interpretation cr: chain cr_conns cr_servers
proof
  fix p assume "Suc p < length cr_conns"
  then have "p \<in> {0, 1, 2}" by (auto simp: cr_conns_names)
  then show "cr_next (cr_servers (cr_conns ! p)) = Some (cr_conns ! Suc p)"
    using cr_servers_next by (auto simp: cr_conns_names)
qed (use cr_servers_next in \<open>auto simp: cr_conns_names cr_servers_store\<close>)

text \<open>A set of key x by client 1 has only reached the head while client 2 sets it completely and reads it.\<close>

definition two_sets :: "label list" where
  "two_sets = [Invoke 1 (OpSet ''x'' ''1''), Work 1, Invoke 2 (OpSet ''x'' ''2'')] @ replicate 8 (Work 2) @
     replicate 7 (Work 1)"

lemma two_sets_run:
  "map_option history (run cr_conns (start cr_servers) two_sets) =
     Some [Inv 1 (OpSet ''x'' ''1''), Inv 2 (OpSet ''x'' ''2''), Res 2 status_ok, Res 1 status_ok]"
  by code_simp

lemma two_sets_stores:
  "map_option (\<lambda>c. map (\<lambda>n. cr_d (servers c n) (JStr ''x'')) cr_conns) (run cr_conns (start cr_servers) two_sets) =
     Some [Some (JStr ''2''), Some (JStr ''1''), Some (JStr ''1''), Some (JStr ''1'')]"
  by code_simp

text \<open>
  C1. Chain replication is linearizable. In every reachable configuration of the four servers,
  whatever the interleaving of clients' requests and of the servers' handlers, and whichever
  messages get lost or handlers die, the history that clients have seen can be explained
  by one sequence of operations on a single register map that respects real-time order: each
  answered GET returns the last SET before it in that sequence.
\<close>

theorem cr_linearizable:
  assumes "reachable cr_conns cr_servers c"
  shows "linearizable (history c)"
  by (rule cr.reachable_linearizable [OF assms])

theorem cr_linearizable_witness:
  "linearizable [Inv 1 (OpSet ''x'' ''1''), Inv 2 (OpSet ''x'' ''2''), Res 2 status_ok, Res 1 status_ok]"
proof -
  obtain c where c: "run cr_conns (start cr_servers) two_sets = Some c"
    "history c = [Inv 1 (OpSet ''x'' ''1''), Inv 2 (OpSet ''x'' ''2''), Res 2 status_ok, Res 1 status_ok]"
    using two_sets_run by auto
  from cr_linearizable [OF reachable_run [OF reachable.init c(1)]] c(2) show ?thesis by simp
qed

text \<open>
  C18. No request waits on another: in every reachable configuration, a request that a server has
  started on is answered after at most eight steps of its own (down the chain and back), whatever
  the other requests hold.
\<close>

theorem cr_request_finishes:
  assumes "reachable cr_conns cr_servers c" and "dict_get (threads c) i = Some (Running n m ws)"
  shows "\<exists>k \<le> 8. \<exists>c' r. run cr_conns c (replicate k (Work i)) = Some c' \<and>
    dict_get (threads c') i = Some Finished \<and> Res i r \<in> set (history c')"
  using cr.finishes [OF assms] by (simp add: cr_conns_names)

theorem cr_request_finishes_witness:
  "\<exists>c. run cr_conns (start cr_servers) [Invoke 1 (OpSet ''x'' ''1''), Work 1, Invoke 2 (OpSet ''x'' ''2'')] = Some c \<and>
     (\<exists>k \<le> 8. \<exists>c' r. run cr_conns c (replicate k (Work 1)) = Some c' \<and>
       dict_get (threads c') 1 = Some Finished \<and> Res 1 r \<in> set (history c'))"
proof -
  let ?ls = "[Invoke 1 (OpSet ''x'' ''1''), Work 1, Invoke 2 (OpSet ''x'' ''2'')]"
  have "map_option (\<lambda>c. dict_get (threads c) 1) (run cr_conns (start cr_servers) ?ls) =
      Some (Some (Running ''b'' (request_of (OpSet ''x'' ''1'')) [''a'']))" by code_simp
  then obtain c where c: "run cr_conns (start cr_servers) ?ls = Some c"
    "dict_get (threads c) 1 = Some (Running ''b'' (request_of (OpSet ''x'' ''1'')) [''a''])" by auto
  from cr_request_finishes [OF reachable_run [OF reachable.init c(1)] c(2)] c(1) show ?thesis by blast
qed

text \<open>
  A SET that no other request overlaps, with a socket free on every link, is acknowledged
  after eight steps and has then stored the value on every server of the chain and changed nothing
  else.
\<close>

theorem cr_solo_set:
  assumes "reachable cr_conns cr_servers c" and "dict_get (threads c) i = None"
    and "\<forall>n \<in> set cr_conns. occupancy c n < POOL_SZ"
  shows "\<exists>c'. run cr_conns c (Invoke i (OpSet k v) # replicate 8 (Work i)) = Some c' \<and>
    history c' = history c @ [Inv i (OpSet k v), Res i status_ok] \<and>
    (\<forall>n. cr_d (servers c' n) =
       (if n \<in> set cr_conns then (cr_d (servers c n))(JStr k \<mapsto> JStr v) else cr_d (servers c n)))"
  using cr.solo_set [OF assms, of k v] by (simp add: cr_conns_names stored_def)

theorem cr_solo_set_witness:
  "\<exists>c'. run cr_conns (start cr_servers) (Invoke 1 (OpSet ''x'' ''1'') # replicate 8 (Work 1)) = Some c' \<and>
    history c' = [Inv 1 (OpSet ''x'' ''1''), Res 1 status_ok] \<and>
    (\<forall>n. cr_d (servers c' n) = (if n \<in> set cr_conns then [JStr ''x'' \<mapsto> JStr ''1''] else Map.empty))"
  using cr_solo_set [OF reachable.init, of 1 "''x''" "''1''"]
  by (simp add: POOL_SZ_def cr_servers_store del: run.simps cong: if_cong)

text \<open>
  A GET answers exactly what the tail stores: the client gets the value, or, for a key that is
  not stored, a failure (the handler's KeyError closes the connection); no server changes.
\<close>

theorem cr_solo_get:
  assumes "reachable cr_conns cr_servers c" and "dict_get (threads c) i = None"
  shows "\<exists>c' r. run cr_conns c [Invoke i (OpGet k), Work i, Work i] = Some c' \<and>
    history c' = history c @ [Inv i (OpGet k), Res i r] \<and> servers c' = servers c \<and>
    client_get_result (Some r) =
      Inr (case cr_d (servers c ''d'') (JStr k) of
             Some v \<Rightarrow> (True, v)
           | None \<Rightarrow> (False, JStr ''Invalid Message Format from the client: next {msglen} bytes must be message''))"
proof -
  have "last cr_conns = ''d''" by (simp add: cr_conns_names)
  with cr.solo_get [OF assms, of k] obtain c' where c': "run cr_conns c [Invoke i (OpGet k), Work i, Work i] = Some c'"
    "history c' = history c @ [Inv i (OpGet k),
      Res i (case cr_d (servers c ''d'') (JStr k) of Some v \<Rightarrow> value_reply v | None \<Rightarrow> failure)]"
    "servers c' = servers c" by auto
  moreover have "client_get_result (Some (case m of Some v \<Rightarrow> value_reply v | None \<Rightarrow> failure)) =
      Inr (case m of Some v \<Rightarrow> (True, v)
           | None \<Rightarrow> (False, JStr ''Invalid Message Format from the client: next {msglen} bytes must be message''))" for m
    by (simp add: client_get_result_def failure_def value_reply_def dict_index_def split: option.split)
  ultimately show ?thesis by blast
qed

theorem cr_solo_get_witness:
  "\<exists>c' r. run cr_conns (start cr_servers) [Invoke 1 (OpGet ''x''), Work 1, Work 1] = Some c' \<and>
    history c' = [Inv 1 (OpGet ''x''), Res 1 r] \<and> servers c' = cr_servers \<and>
    client_get_result (Some r) =
      Inr (False, JStr ''Invalid Message Format from the client: next {msglen} bytes must be message'')"
  using cr_solo_get [OF reachable.init, of 1 "''x''"] by (simp add: cr_servers_store del: run.simps)


end
