(* ===== verification/ChainSockets.thy ===== *)
theory ChainSockets
  imports ChainRuns
begin

text \<open>
  The lab 3 cluster with its socket pools. \<open>ChainRuns\<close> counts how many requests use a link; here every
  server owns the \<open>ConnectionStub\<close> of \<open>core/network.py\<close>, and a forwarded request takes a socket out of
  the pool with \<open>get_sock\<close>, holds it while it waits and puts it back with \<open>release_sock\<close>. A socket
  outlives the connection: when the handler on the other side has died, \<open>send\<close> still puts the socket back,
  and whoever takes it next talks to nobody. The abstraction function \<open>forget\<close> drops the pools, and every step
  here is a sequence of steps of \<open>ChainRuns\<close>, so what is proved there about all histories holds here.
\<close>

section \<open>The two halves of a send\<close>

text \<open>
  \<open>ConnectionStub.send\<close> up to the moment it has a socket, and its end: what \<open>stub_send\<close> does at once is
  split, because the server waits in between while other requests use the same pool.
\<close>

definition stub_acquire ::
  "(server_info \<Rightarrow> nat \<Rightarrow> 's res) \<Rightarrow> 's connection_stub \<Rightarrow> string \<Rightarrow> 's res \<times> 's connection_stub" where
  "stub_acquire conn st to =
     (case dict_get (cs_blocking st) to of
        None \<Rightarrow> (Inl (AssertionError ''Connection doesn't exist''), st)
      | Some c \<Rightarrow>
          (case get_sock (conn (tc_info c)) c of
             (r, c') \<Rightarrow> (r, st\<lparr>cs_blocking := dict_set (cs_blocking st) to c'\<rparr>)))"

definition stub_release ::
  "(server_info \<Rightarrow> nat \<Rightarrow> 's res) \<Rightarrow> 's connection_stub \<Rightarrow> string \<Rightarrow> 's \<Rightarrow> unit res \<times> 's connection_stub" where
  "stub_release conn st to s =
     (case dict_get (cs_blocking st) to of
        None \<Rightarrow> (Inl (AssertionError ''Connection doesn't exist''), st)
      | Some c \<Rightarrow>
          (case release_sock (conn (tc_info c)) s c of
             (r, c') \<Rightarrow> (r, st\<lparr>cs_blocking := dict_set (cs_blocking st) to c'\<rparr>)))"

lemma client_sockets_simps:
  "tc_info (snd (client_sockets conn c)) = tc_info c"
  "tc_blocking (snd (client_sockets conn c)) = tc_blocking c"
  "tc_pool_sz (snd (client_sockets conn c)) = tc_pool_sz c"
  by (simp_all add: client_sockets_def split: option.split prod.split)

lemma get_sock_simps:
  "tc_info (snd (get_sock conn c)) = tc_info c"
  "tc_blocking (snd (get_sock conn c)) = tc_blocking c"
  "tc_pool_sz (snd (get_sock conn c)) = tc_pool_sz c"
  using client_sockets_simps [of conn c]
  by (cases "client_sockets conn c"; simp add: get_sock_def split: sum.split)+

text \<open>Without interruption the two halves around an exchange are the send of the code.\<close>

lemma stub_send_halves:
  assumes "list_all (\<lambda>(_, c). tc_blocking c) (cs_blocking st)"
  shows "stub_send conn snd_all rcv_msg st to msg True =
     (case stub_acquire conn st to of
        (Inl e, st') \<Rightarrow> (Inl e, st')
      | (Inr s, st') \<Rightarrow>
          (case exchange snd_all rcv_msg True s msg of
             (response, s') \<Rightarrow>
               (case stub_release conn st' to s' of
                  (Inl e, st'') \<Rightarrow> (Inl e, st'')
                | (Inr _, st'') \<Rightarrow> (Inr response, st''))))"
proof (cases "dict_get (cs_blocking st) to")
  case None
  then show ?thesis by (simp add: stub_send_def stub_acquire_def)
next
  case (Some c)
  then have "tc_blocking c" using assms by (auto simp: list_all_iff dest: map_of_SomeD)
  moreover have "tc_info (snd (get_sock (conn (tc_info c)) c)) = tc_info c" by (rule get_sock_simps)
  ultimately show ?thesis using Some
    by (auto simp: stub_send_def stub_acquire_def stub_release_def tcp_send_def dict_simps AList.update_last
        split: prod.split sum.split)
qed

section \<open>Configurations and steps\<close>

text \<open>
  A socket is usable until the handler at its other end closes the connection. A waiting server holds
  the name it forwarded to and the socket it uses.
\<close>

datatype sock = Usable | Dead

type_synonym frame = "string \<times> string \<times> sock"

datatype sstage =
    SRunning string json_message "frame list"
  | SReplying json_message "frame list"
  | SHung "frame list"
  | SFinished

record sconfig =
  s_servers :: "string \<Rightarrow> cr_server"
  s_stubs :: "string \<Rightarrow> sock connection_stub"
  s_threads :: "(nat, sstage) dict"
  s_history :: "event list"

text \<open>\<open>SWork i reset\<close>: a use of a dead socket raises when \<open>reset\<close>, else it reads the end of the stream.\<close>

datatype slabel = SInvoke nat cr_op | SWork nat bool | SLose nat | SCrash nat

fun frames :: "sstage \<Rightarrow> frame list" where
  "frames (SRunning n m fs) = fs"
| "frames (SReplying r fs) = fs"
| "frames (SHung fs) = fs"
| "frames SFinished = []"

text \<open>What the two calls on a dead socket do: the peer has closed, so nothing is ever received.\<close>

definition dead_sendall :: "bool \<Rightarrow> sock \<Rightarrow> json_message \<Rightarrow> unit res \<times> sock" where
  "dead_sendall reset s m = (if reset then Inl ConnectionError else Inr (), s)"

definition dead_recv :: "sock \<Rightarrow> (nat \<times> json_message option) res \<times> sock" where
  "dead_recv s = (Inr (MESSAGE_HEADER_INVALID, None), s)"

text \<open>The handler in front has raised and closed its connection.\<close>

fun peer_closed :: "frame list \<Rightarrow> frame list" where
  "peer_closed [] = []"
| "peer_closed ((n, to, s) # fs) = (n, to, Dead) # fs"

definition set_sstage :: "sconfig \<Rightarrow> nat \<Rightarrow> sstage \<Rightarrow> sconfig" where
  "set_sstage c i st = c\<lparr>s_threads := dict_set (s_threads c) i st\<rparr>"

definition set_stub :: "sconfig \<Rightarrow> string \<Rightarrow> sock connection_stub \<Rightarrow> sconfig" where
  "set_stub c n st = c\<lparr>s_stubs := (s_stubs c)(n := st)\<rparr>"

text \<open>
  A response of \<open>None\<close> is sent to nobody (\<open>if sr is not None\<close> in \<open>handle_client\<close>), so the servers in
  front wait for ever.
\<close>

definition s_forward ::
  "(string \<Rightarrow> server_info \<Rightarrow> nat \<Rightarrow> sock res) \<Rightarrow> bool \<Rightarrow> sconfig \<Rightarrow> nat \<Rightarrow> string \<Rightarrow> frame list \<Rightarrow>
     string \<Rightarrow> json_message \<Rightarrow> sconfig" where
  "s_forward conn reset c i n fs to m =
     (case stub_acquire (conn n) (s_stubs c n) to of
        (Inl e, st) \<Rightarrow> set_sstage (set_stub c n st) i (SReplying failure (peer_closed fs))
      | (Inr Usable, st) \<Rightarrow> set_sstage (set_stub c n st) i (SRunning to m ((n, to, Usable) # fs))
      | (Inr Dead, st) \<Rightarrow>
          (case exchange (dead_sendall reset) dead_recv True Dead m of
             (resp, s) \<Rightarrow>
               set_sstage (set_stub c n (snd (stub_release (conn n) st to s))) i
                 (case resp of None \<Rightarrow> SHung fs | Some r \<Rightarrow> SReplying r fs)))"

definition s_work ::
  "(string \<Rightarrow> server_info \<Rightarrow> nat \<Rightarrow> sock res) \<Rightarrow> bool \<Rightarrow> sconfig \<Rightarrow> nat \<Rightarrow> sconfig option" where
  "s_work conn reset c i =
     (case dict_get (s_threads c) i of
        Some (SRunning n m fs) \<Rightarrow>
          (case process_req (s_servers c n) m of
             (r, s') \<Rightarrow>
               let c' = c\<lparr>s_servers := (s_servers c)(n := s')\<rparr> in
               Some (case r of
                   Inl e \<Rightarrow> set_sstage c' i (SReplying failure (peer_closed fs))
                 | Inr (Reply resp) \<Rightarrow> set_sstage c' i (SReplying resp fs)
                 | Inr (Forward to m') \<Rightarrow> s_forward conn reset c' i n fs to m'))
      | Some (SReplying r ((n, to, s) # fs)) \<Rightarrow>
          Some (set_sstage (set_stub c n (snd (stub_release (conn n) (s_stubs c n) to s))) i (SReplying r fs))
      | Some (SReplying r []) \<Rightarrow> Some ((set_sstage c i SFinished)\<lparr>s_history := s_history c @ [Res i r]\<rparr>)
      | _ \<Rightarrow> None)"

fun s_step ::
  "(string \<Rightarrow> server_info \<Rightarrow> nat \<Rightarrow> sock res) \<Rightarrow> string list \<Rightarrow> sconfig \<Rightarrow> slabel \<Rightarrow> sconfig option" where
  "s_step conn conns c (SInvoke i x) =
     (if i \<in> set (dict_keys (s_threads c)) then None
      else Some ((set_sstage c i (SRunning (server_of conns x) (request_of x) []))
                   \<lparr>s_history := s_history c @ [Inv i x]\<rparr>))"
| "s_step conn conns c (SWork i reset) = s_work conn reset c i"
| "s_step conn conns c (SLose i) =
     (case dict_get (s_threads c) i of
        Some (SRunning n m fs) \<Rightarrow> Some (set_sstage c i (SHung fs))
      | Some (SReplying r fs) \<Rightarrow> Some (set_sstage c i (SHung fs))
      | _ \<Rightarrow> None)"
| "s_step conn conns c (SCrash i) =
     (case dict_get (s_threads c) i of
        Some (SRunning n m fs) \<Rightarrow> Some (set_sstage c i (SReplying failure (peer_closed fs)))
      | Some (SReplying r ((n, to, s) # fs)) \<Rightarrow>
          Some (set_sstage (set_stub c n (snd (stub_release (conn n) (s_stubs c n) to s))) i
                 (SReplying failure (peer_closed fs)))
      | _ \<Rightarrow> None)"

fun s_run :: "(string \<Rightarrow> server_info \<Rightarrow> nat \<Rightarrow> sock res) \<Rightarrow> string list \<Rightarrow> sconfig \<Rightarrow> slabel list \<Rightarrow> sconfig option" where
  "s_run conn conns c [] = Some c"
| "s_run conn conns c (l # ls) =
     (case s_step conn conns c l of None \<Rightarrow> None | Some c' \<Rightarrow> s_run conn conns c' ls)"

definition s_start :: "(string \<Rightarrow> cr_server) \<Rightarrow> (string \<Rightarrow> sock connection_stub) \<Rightarrow> sconfig" where
  "s_start srv stubs = \<lparr>s_servers = srv, s_stubs = stubs, s_threads = [], s_history = []\<rparr>"

inductive s_reachable ::
  "(string \<Rightarrow> server_info \<Rightarrow> nat \<Rightarrow> sock res) \<Rightarrow> string list \<Rightarrow> (string \<Rightarrow> cr_server) \<Rightarrow>
     (string \<Rightarrow> sock connection_stub) \<Rightarrow> sconfig \<Rightarrow> bool"
  for conn conns srv stubs where
  init: "s_reachable conn conns srv stubs (s_start srv stubs)"
| step: "s_reachable conn conns srv stubs c \<Longrightarrow> s_step conn conns c l = Some c' \<Longrightarrow>
           s_reachable conn conns srv stubs c'"

text \<open>The stubs of \<open>CrCluster\<close> after \<open>initalize_connections\<close>: one client for each server it may call.\<close>

definition cr_stubs :: "string \<Rightarrow> sock connection_stub" where
  "cr_stubs n =
     initalize_connections (connection_stub_init
       (case map_of (map (\<lambda>(si, tos). (si_name si, tos)) (complete_topology cr_topology)) n of
          Some tos \<Rightarrow> tos | None \<Rightarrow> []) POOL_SZ)"


section \<open>Forgetting the pools\<close>

fun forget_stage :: "sstage \<Rightarrow> stage" where
  "forget_stage (SRunning n m fs) = Running n m (map fst fs)"
| "forget_stage (SReplying r fs) = Replying r (map fst fs)"
| "forget_stage (SHung fs) = Hung (map fst fs)"
| "forget_stage SFinished = Finished"

definition forget :: "sconfig \<Rightarrow> config" where
  "forget c = \<lparr>servers = s_servers c, threads = map (\<lambda>(i, st). (i, forget_stage st)) (s_threads c),
               history = s_history c\<rparr>"

lemma map_dict_set: "map (\<lambda>(i, x). (i, f x)) (dict_set d k v) = dict_set (map (\<lambda>(i, x). (i, f x)) d) k (f v)"
  by (induction d) auto

lemma dict_get_map: "dict_get (map (\<lambda>(i, x). (i, f x)) d) k = map_option f (dict_get d k)"
  by (induction d) auto

lemma forget_simps [simp]:
  "servers (forget c) = s_servers c" "history (forget c) = s_history c"
  "dict_get (threads (forget c)) i = map_option forget_stage (dict_get (s_threads c) i)"
  "forget (set_sstage c i st) = set_stage (forget c) i (forget_stage st)"
  "forget (set_stub c n s) = forget c"
  "forget (c\<lparr>s_servers := srv\<rparr>) = (forget c)\<lparr>servers := srv\<rparr>"
  "forget (c\<lparr>s_history := h\<rparr>) = (forget c)\<lparr>history := h\<rparr>"
  by (simp_all add: forget_def set_sstage_def set_stage_def set_stub_def map_dict_set dict_get_map)

lemma forget_start [simp]: "forget (s_start srv stubs) = start srv"
  by (simp add: forget_def s_start_def start_def)

lemma set_stage_twice [simp]: "set_stage (set_stage c i st) i st' = set_stage c i st'"
  by (simp add: set_stage_def)

lemma forget_stage_closed [simp]:
  "map fst (peer_closed fs) = map fst fs"
  by (cases fs) auto

text \<open>Accessors of a configuration after the updates.\<close>

lemma sconfig_simps [simp]:
  "s_servers (set_sstage c i st) = s_servers c" "s_stubs (set_sstage c i st) = s_stubs c"
  "s_history (set_sstage c i st) = s_history c"
  "s_servers (set_stub c n s) = s_servers c" "s_threads (set_stub c n s) = s_threads c"
  "s_history (set_stub c n s) = s_history c"
  "s_stubs (set_stub c n s) = (s_stubs c)(n := s)"
  "s_threads (set_sstage c i st) = dict_set (s_threads c) i st"
  by (simp_all add: set_sstage_def set_stub_def)

section \<open>Every socket is accounted for\<close>

text \<open>How many sockets that \<open>n\<close> has to \<open>to\<close> the requests hold.\<close>

fun uses :: "string \<Rightarrow> string \<Rightarrow> frame list \<Rightarrow> nat" where
  "uses n to [] = 0"
| "uses n to ((n', to', s) # fs) = (if n' = n \<and> to' = to then Suc (uses n to fs) else uses n to fs)"

definition held :: "sconfig \<Rightarrow> string \<Rightarrow> string \<Rightarrow> nat" where
  "held c n to = sum_list (map (\<lambda>(i, st). uses n to (frames st)) (s_threads c))"

lemma uses_closed [simp]: "uses n to (peer_closed fs) = uses n to fs"
  by (cases fs) auto

lemma sum_list_dict_set:
  fixes f :: "'b \<Rightarrow> nat"
  shows "sum_list (map (\<lambda>(i, x). f x) (dict_set d k v)) + (case dict_get d k of None \<Rightarrow> 0 | Some x \<Rightarrow> f x) =
    sum_list (map (\<lambda>(i, x). f x) d) + f v"
  by (induction d) auto

lemma held_set_sstage:
  "held (set_sstage c i st) n to + (case dict_get (s_threads c) i of None \<Rightarrow> 0 | Some x \<Rightarrow> uses n to (frames x)) =
     held c n to + uses n to (frames st)"
  using sum_list_dict_set [of "\<lambda>st. uses n to (frames st)" i st "s_threads c"] by (simp add: held_def)

lemma held_simps [simp]:
  "held (set_stub c m s) = held c" "held (c\<lparr>s_servers := srv\<rparr>) = held c"
  "held (c\<lparr>s_history := h\<rparr>) = held c" "held (s_start srv stubs) = (\<lambda>n to. 0)"
  by (simp_all add: held_def fun_eq_iff set_stub_def s_start_def)

text \<open>How many sockets the first use of a pool opens.\<close>

definition opened :: "(server_info \<Rightarrow> nat \<Rightarrow> 's res) \<Rightarrow> 's tcp_client \<Rightarrow> nat" where
  "opened conn cl = length (snd (open_pool (conn (tc_info cl)) [0..<tc_pool_sz cl] []))"

lemma open_pool_bound: "length (snd (open_pool conn is socks)) \<le> length socks + length is"
  by (induction conn "is" socks rule: open_pool.induct) (auto split: sum.split)

lemma opened_bound: "opened conn cl \<le> tc_pool_sz cl"
  using open_pool_bound [of "conn (tc_info cl)" "[0..<tc_pool_sz cl]" "[]"] by (simp add: opened_def)

lemma open_pool_all:
  "\<forall>i \<in> set is. \<exists>s. conn i = Inr s \<Longrightarrow> length (snd (open_pool conn is socks)) = length socks + length is"
  by (induction conn "is" socks rule: open_pool.induct) auto

lemma opened_all: "(\<And>i. \<exists>s. conn (tc_info cl) i = Inr s) \<Longrightarrow> opened conn cl = tc_pool_sz cl"
  using open_pool_all [of "[0..<tc_pool_sz cl]" "conn (tc_info cl)" "[]"] by (simp add: opened_def)

text \<open>The account of one pool when \<open>k\<close> of its sockets are held.\<close>

definition pool_account :: "(server_info \<Rightarrow> nat \<Rightarrow> 's res) \<Rightarrow> 's tcp_client \<Rightarrow> nat \<Rightarrow> bool" where
  "pool_account conn cl k \<longleftrightarrow>
     tc_pool_sz cl = POOL_SZ \<and>
     (case tc_sockets cl of None \<Rightarrow> k = 0 | Some socks \<Rightarrow> length socks + k = opened conn cl)"

lemma client_sockets_account:
  assumes "pool_account conn cl k" "client_sockets (conn (tc_info cl)) cl = (r, cl')"
  shows "pool_account conn cl' k \<and> tc_info cl' = tc_info cl \<and> (\<exists>socks. tc_sockets cl' = Some socks) \<and>
    (\<forall>socks. r = Inr socks \<longrightarrow> tc_sockets cl' = Some socks)"
proof -
  obtain q socks where o: "open_pool (conn (tc_info cl)) [0..<tc_pool_sz cl] [] = (q, socks)" by fastforce
  then have "opened conn (cl\<lparr>tc_sockets := Some socks\<rparr>) = length socks" by (simp add: opened_def)
  then show ?thesis
    using assms o by (auto simp: client_sockets_def pool_account_def rbind_eq_Inr split: option.splits)
qed

text \<open>Taking a socket counts it as held; failing to take one leaves the account as it is.\<close>

lemma get_sock_account:
  assumes "pool_account conn cl k" "get_sock (conn (tc_info cl)) cl = (r, cl')"
  shows "tc_info cl' = tc_info cl \<and> pool_account conn cl' (case r of Inl e \<Rightarrow> k | Inr s \<Rightarrow> Suc k)"
proof -
  obtain q c1 where q: "client_sockets (conn (tc_info cl)) cl = (q, c1)" by fastforce
  note a = client_sockets_account [OF assms(1) q]
  show ?thesis
  proof (cases q)
    case (Inl e)
    then show ?thesis using a q assms(2) by (auto simp: get_sock_def)
  next
    case (Inr socks)
    have "opened conn (c1\<lparr>tc_sockets := x\<rparr>) = opened conn c1" for x by (simp add: opened_def)
    then show ?thesis using Inr a q assms(2)
      by (cases socks rule: rev_cases) (auto simp: get_sock_def pool_account_def)
  qed
qed

lemma release_sock_account:
  assumes "pool_account conn cl (Suc k)" "release_sock (conn (tc_info cl)) s cl = (r, cl')"
  shows "tc_info cl' = tc_info cl \<and> pool_account conn cl' k"
proof -
  obtain socks where socks: "tc_sockets cl = Some socks"
    using assms(1) by (auto simp: pool_account_def split: option.splits)
  have "opened conn (cl\<lparr>tc_sockets := x\<rparr>) = opened conn cl" for x by (simp add: opened_def)
  then show ?thesis using assms socks
    by (auto simp: release_sock_open pool_account_def)
qed

lemma pool_account_bound: "pool_account conn cl k \<Longrightarrow> k \<le> POOL_SZ"
  using opened_bound [of conn cl] by (auto simp: pool_account_def split: option.splits)


text \<open>The account of all pools of one server; \<open>f to\<close> sockets to \<open>to\<close> are held.\<close>

definition stub_account ::
  "(server_info \<Rightarrow> nat \<Rightarrow> 's res) \<Rightarrow> 's connection_stub \<Rightarrow> (string \<Rightarrow> nat) \<Rightarrow> bool" where
  "stub_account conn st f \<longleftrightarrow>
     (\<forall>to. case dict_get (cs_blocking st) to of None \<Rightarrow> f to = 0 | Some cl \<Rightarrow> pool_account conn cl (f to))"

lemma stub_accountD:
  "stub_account conn st f \<Longrightarrow> dict_get (cs_blocking st) to = Some cl \<Longrightarrow> pool_account conn cl (f to)"
  "stub_account conn st f \<Longrightarrow> dict_get (cs_blocking st) to = None \<Longrightarrow> f to = 0"
  by (force simp: stub_account_def split: option.splits)+

lemma stub_account_update:
  assumes "stub_account conn st f" "pool_account conn cl k"
  shows "stub_account conn (st\<lparr>cs_blocking := dict_set (cs_blocking st) to cl\<rparr>) (f(to := k))"
  unfolding stub_account_def
proof
  fix t
  have "case dict_get (cs_blocking st) t of None \<Rightarrow> f t = 0 | Some cl \<Rightarrow> pool_account conn cl (f t)"
    using assms(1) by (simp add: stub_account_def)
  then show "case dict_get (cs_blocking (st\<lparr>cs_blocking := dict_set (cs_blocking st) to cl\<rparr>)) t of
      None \<Rightarrow> (f(to := k)) t = 0 | Some cl \<Rightarrow> pool_account conn cl ((f(to := k)) t)"
    using assms(2) by (cases "t = to"; cases "dict_get (cs_blocking st) t") (simp_all add: dict_simps)
qed

lemma stub_acquire_account:
  assumes "stub_account conn st f" "stub_acquire conn st to = (r, st')"
  shows "stub_account conn st' (case r of Inl e \<Rightarrow> f | Inr s \<Rightarrow> f(to := Suc (f to)))"
proof (cases "dict_get (cs_blocking st) to")
  case None
  then show ?thesis using assms by (auto simp: stub_acquire_def)
next
  case (Some cl)
  obtain q cl' where q: "get_sock (conn (tc_info cl)) cl = (q, cl')" by fastforce
  note a = get_sock_account [OF stub_accountD(1) [OF assms(1) Some] q]
  have "stub_account conn st' (f(to := case q of Inl e \<Rightarrow> f to | Inr s \<Rightarrow> Suc (f to)))"
    using a assms Some q by (auto simp: stub_acquire_def intro: stub_account_update)
  then show ?thesis using assms(2) Some q by (auto simp: stub_acquire_def split: sum.splits)
qed

lemma stub_release_account:
  assumes "stub_account conn st f" "f to = Suc k"
  shows "stub_account conn (snd (stub_release conn st to s)) (f(to := k))"
proof -
  obtain cl where cl: "dict_get (cs_blocking st) to = Some cl"
    using stub_accountD(2) [OF assms(1)] assms(2) by (cases "dict_get (cs_blocking st) to") auto
  obtain q cl' where q: "release_sock (conn (tc_info cl)) s cl = (q, cl')" by fastforce
  have "pool_account conn cl (Suc k)" using stub_accountD(1) [OF assms(1) cl] assms(2) by simp
  from release_sock_account [OF this q] show ?thesis
    using cl q assms(1) by (simp add: stub_release_def stub_account_update)
qed

section \<open>What a step does\<close>

lemma dead_exchange:
  "exchange (dead_sendall reset) dead_recv True Dead m = (if reset then None else Some failure, Dead)"
  by (simp add: exchange_def dead_sendall_def dead_recv_def failure_status STATUS_CODE_def dict_union_def
      dict_index_def MESSAGE_VALID_def MESSAGE_HEADER_INVALID_def MESSAGE_BODY_INVALID_def)

lemma s_step_cases:
  assumes "s_step conn conns c l = Some c'"
  obtains
    (invoke) i x where "l = SInvoke i x" "dict_get (s_threads c) i = None"
      "c' = (set_sstage c i (SRunning (server_of conns x) (request_of x) []))\<lparr>s_history := s_history c @ [Inv i x]\<rparr>"
  | (raises) i b n m fs e s' where "l = SWork i b" "dict_get (s_threads c) i = Some (SRunning n m fs)"
      "process_req (s_servers c n) m = (Inl e, s')"
      "c' = set_sstage (c\<lparr>s_servers := (s_servers c)(n := s')\<rparr>) i (SReplying failure (peer_closed fs))"
  | (reply) i b n m fs resp s' where "l = SWork i b" "dict_get (s_threads c) i = Some (SRunning n m fs)"
      "process_req (s_servers c n) m = (Inr (Reply resp), s')"
      "c' = set_sstage (c\<lparr>s_servers := (s_servers c)(n := s')\<rparr>) i (SReplying resp fs)"
  | (forward) i b n m fs to m' s' where "l = SWork i b" "dict_get (s_threads c) i = Some (SRunning n m fs)"
      "process_req (s_servers c n) m = (Inr (Forward to m'), s')"
      "c' = s_forward conn b (c\<lparr>s_servers := (s_servers c)(n := s')\<rparr>) i n fs to m'"
  | (give) i b r n to s fs where "l = SWork i b" "dict_get (s_threads c) i = Some (SReplying r ((n, to, s) # fs))"
      "c' = set_sstage (set_stub c n (snd (stub_release (conn n) (s_stubs c n) to s))) i (SReplying r fs)"
  | (return) i b r where "l = SWork i b" "dict_get (s_threads c) i = Some (SReplying r [])"
      "c' = (set_sstage c i SFinished)\<lparr>s_history := s_history c @ [Res i r]\<rparr>"
  | (lose) i st where "l = SLose i" "dict_get (s_threads c) i = Some st"
      "(\<exists>n m fs. st = SRunning n m fs) \<or> (\<exists>r fs. st = SReplying r fs)"
      "c' = set_sstage c i (SHung (frames st))"
  | (crash) i n m fs where "l = SCrash i" "dict_get (s_threads c) i = Some (SRunning n m fs)"
      "c' = set_sstage c i (SReplying failure (peer_closed fs))"
  | (crash_back) i r n to s fs where "l = SCrash i" "dict_get (s_threads c) i = Some (SReplying r ((n, to, s) # fs))"
      "c' = set_sstage (set_stub c n (snd (stub_release (conn n) (s_stubs c n) to s))) i
              (SReplying failure (peer_closed fs))"
proof (cases l)
  case (SInvoke i x)
  then show ?thesis using assms invoke by (auto simp: map_of_eq_None_iff split: if_splits)
next
  case (SWork i b)
  then show ?thesis using assms raises reply forward give return
    by (auto simp: s_work_def Let_def split: option.splits sstage.splits prod.splits list.splits sum.splits cr_action.splits)
next
  case (SLose i)
  then show ?thesis using assms lose by (auto split: option.splits sstage.splits)
next
  case (SCrash i)
  then show ?thesis using assms crash crash_back
    by (auto split: option.splits sstage.splits list.splits)
qed

lemma s_forward_cases:
  obtains
    (refused) e st where "stub_acquire (conn n) (s_stubs c n) to = (Inl e, st)"
      "s_forward conn b c i n fs to m = set_sstage (set_stub c n st) i (SReplying failure (peer_closed fs))"
  | (sent) st where "stub_acquire (conn n) (s_stubs c n) to = (Inr Usable, st)"
      "s_forward conn b c i n fs to m = set_sstage (set_stub c n st) i (SRunning to m ((n, to, Usable) # fs))"
  | (bounced) st where "stub_acquire (conn n) (s_stubs c n) to = (Inr Dead, st)"
      "s_forward conn b c i n fs to m = set_sstage (set_stub c n (snd (stub_release (conn n) st to Dead))) i
         (if b then SHung fs else SReplying failure fs)"
proof -
  obtain r st where r: "stub_acquire (conn n) (s_stubs c n) to = (r, st)" by fastforce
  show ?thesis
  proof (cases r)
    case (Inl e)
    then show ?thesis using r refused by (simp add: s_forward_def)
  next
    case (Inr s)
    then show ?thesis using r sent bounced by (cases s) (simp_all add: s_forward_def dead_exchange)
  qed
qed


section \<open>The invariant\<close>

definition pools_ok :: "(string \<Rightarrow> server_info \<Rightarrow> nat \<Rightarrow> sock res) \<Rightarrow> sconfig \<Rightarrow> bool" where
  "pools_ok conn c \<longleftrightarrow> (\<forall>n. stub_account (conn n) (s_stubs c n) (held c n))"

text \<open>A server only ever waits for its successor.\<close>

definition next_only :: "(string \<Rightarrow> cr_server) \<Rightarrow> frame list \<Rightarrow> bool" where
  "next_only srv fs \<longleftrightarrow> (\<forall>n to s. (n, to, s) \<in> set fs \<longrightarrow> cr_next (srv n) = Some to)"

definition wired :: "(string \<Rightarrow> cr_server) \<Rightarrow> sconfig \<Rightarrow> bool" where
  "wired srv c \<longleftrightarrow> (\<forall>n. cr_next (s_servers c n) = cr_next (srv n)) \<and>
     (\<forall>i st. (i, st) \<in> set (s_threads c) \<longrightarrow> next_only srv (frames st))"

lemma next_only_simps [simp]:
  "next_only srv []"
  "next_only srv ((n, to, s) # fs) \<longleftrightarrow> cr_next (srv n) = Some to \<and> next_only srv fs"
  by (auto simp: next_only_def)

lemma next_only_closed [simp]: "next_only srv (peer_closed fs) \<longleftrightarrow> next_only srv fs"
  by (cases fs rule: peer_closed.cases) simp_all

lemma process_keeps_next: "process_req s m = (r, s') \<Longrightarrow> cr_next s' = cr_next s"
  by (auto simp: process_req_def cr_set_def Let_def split: sum.splits if_splits option.splits prod.splits)

lemma process_forwards: "process_req s m = (Inr (Forward to m'), s') \<Longrightarrow> cr_next s = Some to"
  by (auto simp: process_req_def cr_set_def cr_get_def Let_def rbind_eq_Inr
      split: sum.splits if_splits option.splits prod.splits)

lemma wired_thread: "wired srv c \<Longrightarrow> dict_get (s_threads c) i = Some st \<Longrightarrow> next_only srv (frames st)"
  by (auto simp: wired_def dest: map_of_SomeD)

lemma wired_set_sstage: "wired srv c \<Longrightarrow> next_only srv (frames st) \<Longrightarrow> wired srv (set_sstage c i st)"
  using set_dict_set [of i st "s_threads c"] by (auto simp: wired_def)

lemma wired_simps [simp]:
  "wired srv (set_stub c n s) = wired srv c" "wired srv (c\<lparr>s_history := h\<rparr>) = wired srv c"
  by (simp_all add: wired_def set_stub_def)

lemma wired_server:
  "wired srv c \<Longrightarrow> process_req (s_servers c n) m = (r, s') \<Longrightarrow> wired srv (c\<lparr>s_servers := (s_servers c)(n := s')\<rparr>)"
  using process_keeps_next by (auto simp: wired_def)

lemma wired_forward:
  "wired srv c \<Longrightarrow> cr_next (srv n) = Some to \<Longrightarrow> next_only srv fs \<Longrightarrow> wired srv (s_forward conn b c i n fs to m)"
  by (rule s_forward_cases [of conn n c to b i fs m]) (auto intro!: wired_set_sstage)

lemma wired_step: "wired srv c \<Longrightarrow> s_step conn conns c l = Some c' \<Longrightarrow> wired srv c'"
proof (erule s_step_cases)
  fix i b n m fs to m' s' assume w: "wired srv c" and
    f: "dict_get (s_threads c) i = Some (SRunning n m fs)" "process_req (s_servers c n) m = (Inr (Forward to m'), s')"
      "c' = s_forward conn b (c\<lparr>s_servers := (s_servers c)(n := s')\<rparr>) i n fs to m'"
  then show ?thesis
    using wired_thread [OF w f(1)] process_forwards [OF f(2)]
    by (auto simp: f(3) wired_def [of srv c] intro!: wired_forward wired_server)
qed (auto dest: wired_thread intro!: wired_set_sstage wired_server)

text \<open>The pools under the changes of stages.\<close>

lemma pools_set_server [simp]:
  "pools_ok conn (c\<lparr>s_servers := srv\<rparr>) = pools_ok conn c" "pools_ok conn (c\<lparr>s_history := h\<rparr>) = pools_ok conn c"
  by (simp_all add: pools_ok_def)

lemma pools_same_uses:
  assumes "pools_ok conn c"
    and "\<And>n to. uses n to (frames st) = (case dict_get (s_threads c) i of None \<Rightarrow> 0 | Some x \<Rightarrow> uses n to (frames x))"
  shows "pools_ok conn (set_sstage c i st)"
proof -
  have "held (set_sstage c i st) n to = held c n to" for n to
    using held_set_sstage [of c i st n to] assms(2) by simp
  then have "held (set_sstage c i st) n = held c n" for n by (simp add: fun_eq_iff)
  then show ?thesis using assms(1) by (simp add: pools_ok_def)
qed

lemma pools_moved:
  assumes "pools_ok conn c" "stub_account (conn n) st (held (set_sstage c i sst) n)"
    and "\<And>m to. m \<noteq> n \<Longrightarrow> held (set_sstage c i sst) m to = held c m to"
  shows "pools_ok conn (set_sstage (set_stub c n st) i sst)"
proof -
  have "held (set_sstage (set_stub c n st) i sst) = held (set_sstage c i sst)"
    by (simp add: held_def fun_eq_iff)
  moreover have "held (set_sstage c i sst) m = held c m" if "m \<noteq> n" for m
    using assms(3) [OF that] by (simp add: fun_eq_iff)
  ultimately show ?thesis using assms(1,2) by (simp add: pools_ok_def)
qed

lemma pools_acquire:
  assumes ok: "pools_ok conn c" and f: "dict_get (s_threads c) i = Some x" "uses n to (frames x) = k"
    and a: "stub_acquire (conn n) (s_stubs c n) to = (Inr s, st)"
    and u: "\<And>m t. uses m t (frames sst) = uses m t ((n, to, s) # frames x)"
  shows "pools_ok conn (set_sstage (set_stub c n st) i sst)"
proof (rule pools_moved)
  have h: "held (set_sstage c i sst) m t + uses m t (frames x) = held c m t + uses m t ((n, to, s) # frames x)" for m t
    using held_set_sstage [of c i sst m t] f u by simp
  have "held (set_sstage c i sst) n t = ((held c n)(to := Suc (held c n to))) t" for t
    using h [of n t] by (cases "t = to") simp_all
  then have "held (set_sstage c i sst) n = (held c n)(to := Suc (held c n to))" by (simp add: fun_eq_iff)
  then show "stub_account (conn n) st (held (set_sstage c i sst) n)"
    using stub_acquire_account [OF _ a, of "held c n"] ok by (simp add: pools_ok_def)
  show "held (set_sstage c i sst) m t = held c m t" if "m \<noteq> n" for m t
    using h [of m t] that by simp
qed (rule ok)

lemma pools_release:
  assumes ok: "pools_ok conn c" and f: "dict_get (s_threads c) i = Some x" "frames x = (n, to, s) # fs"
    and u: "\<And>m t. uses m t (frames sst) = uses m t fs"
  shows "pools_ok conn (set_sstage (set_stub c n (snd (stub_release (conn n) (s_stubs c n) to s'))) i sst)"
proof (rule pools_moved)
  have h: "held (set_sstage c i sst) m t + uses m t ((n, to, s) # fs) = held c m t + uses m t fs" for m t
    using held_set_sstage [of c i sst m t] f u by simp
  define k where "k = held (set_sstage c i sst) n to"
  have k: "held c n to = Suc k" using h [of n to] by (simp add: k_def)
  have "held (set_sstage c i sst) n t = ((held c n)(to := k)) t" for t
    using h [of n t] by (cases "t = to") (simp_all add: k_def)
  then have "held (set_sstage c i sst) n = (held c n)(to := k)"
    by (simp add: fun_eq_iff)
  then show "stub_account (conn n) (snd (stub_release (conn n) (s_stubs c n) to s')) (held (set_sstage c i sst) n)"
    using stub_release_account [of "conn n" "s_stubs c n" "held c n" to, OF _ k] ok by (simp add: pools_ok_def)
  show "held (set_sstage c i sst) m t = held c m t" if "m \<noteq> n" for m t
    using h [of m t] that by simp
qed (rule ok)

lemma pools_forward:
  assumes ok: "pools_ok conn c" and f: "dict_get (s_threads c) i = Some (SRunning n m fs)"
  shows "pools_ok conn (s_forward conn b c i n fs to m')"
proof (rule s_forward_cases [of conn n c to b i fs m'])
  fix e st assume r: "stub_acquire (conn n) (s_stubs c n) to = (Inl e, st)"
    "s_forward conn b c i n fs to m' = set_sstage (set_stub c n st) i (SReplying failure (peer_closed fs))"
  have "stub_account (conn n) st (held c n)"
    using stub_acquire_account [OF _ r(1), of "held c n"] ok by (simp add: pools_ok_def)
  then have "pools_ok conn (set_stub c n st)"
    using ok by (simp add: pools_ok_def)
  then show ?thesis unfolding r(2) by (rule pools_same_uses) (simp add: f)
next
  fix st assume r: "stub_acquire (conn n) (s_stubs c n) to = (Inr Usable, st)"
    "s_forward conn b c i n fs to m' = set_sstage (set_stub c n st) i (SRunning to m' ((n, to, Usable) # fs))"
  show ?thesis unfolding r(2) by (rule pools_acquire [OF ok f refl r(1)]) simp
next
  fix st assume r: "stub_acquire (conn n) (s_stubs c n) to = (Inr Dead, st)"
    "s_forward conn b c i n fs to m' = set_sstage (set_stub c n (snd (stub_release (conn n) st to Dead))) i
       (if b then SHung fs else SReplying failure fs)"
  have "stub_account (conn n) st ((held c n)(to := Suc (held c n to)))"
    using stub_acquire_account [OF _ r(1), of "held c n"] ok by (simp add: pools_ok_def)
  from stub_release_account [OF this, of to "held c n to" Dead]
  have "pools_ok conn (set_stub c n (snd (stub_release (conn n) st to Dead)))"
    using ok by (simp add: pools_ok_def)
  then show ?thesis unfolding r(2) by (rule pools_same_uses) (simp add: f)
qed

lemma pools_step: "pools_ok conn c \<Longrightarrow> s_step conn conns c l = Some c' \<Longrightarrow> pools_ok conn c'"
proof (erule s_step_cases)
  fix i b n m fs to m' s' assume "pools_ok conn c" and
    f: "dict_get (s_threads c) i = Some (SRunning n m fs)" "process_req (s_servers c n) m = (Inr (Forward to m'), s')"
      "c' = s_forward conn b (c\<lparr>s_servers := (s_servers c)(n := s')\<rparr>) i n fs to m'"
  then show ?thesis by (auto intro!: pools_forward)
next
  fix i r n to s fs b assume "pools_ok conn c" and
    f: "dict_get (s_threads c) i = Some (SReplying r ((n, to, s) # fs))"
      "c' = set_sstage (set_stub c n (snd (stub_release (conn n) (s_stubs c n) to s))) i (SReplying r fs)"
  then show ?thesis by (auto intro!: pools_release)
next
  fix i r n to s fs assume "pools_ok conn c" and
    f: "dict_get (s_threads c) i = Some (SReplying r ((n, to, s) # fs))"
      "c' = set_sstage (set_stub c n (snd (stub_release (conn n) (s_stubs c n) to s))) i
              (SReplying failure (peer_closed fs))"
  then show ?thesis by (auto intro!: pools_release)
qed (auto intro!: pools_same_uses)


definition fresh_stub :: "'s connection_stub \<Rightarrow> bool" where
  "fresh_stub st \<longleftrightarrow> (\<forall>to cl. dict_get (cs_blocking st) to = Some cl \<longrightarrow> tc_sockets cl = None \<and> tc_pool_sz cl = POOL_SZ)"

lemma pools_start: "(\<And>n. fresh_stub (stubs n)) \<Longrightarrow> pools_ok conn (s_start srv stubs)"
  by (simp add: pools_ok_def stub_account_def fresh_stub_def pool_account_def s_start_def held_def split: option.split)

lemma wired_start: "wired srv (s_start srv stubs)"
  by (simp add: wired_def s_start_def)

section \<open>The simulation\<close>

lemma waiting_forget: "waiting (forget_stage st) = map fst (frames st)"
  by (cases st) auto

lemma uses_positive: "next_only srv fs \<Longrightarrow> cr_next (srv n) = Some to \<Longrightarrow> n \<in> fst ` set fs \<Longrightarrow> 0 < uses n to fs"
  by (induction n to fs rule: uses.induct) auto

lemma occupancy_held:
  assumes "wired srv c" "cr_next (srv n) = Some to"
  shows "occupancy (forget c) n \<le> held c n to"
proof -
  have "length (filter (\<lambda>(i, st). n \<in> set (waiting st)) (map (\<lambda>(i, st). (i, forget_stage st)) d)) \<le>
      sum_list (map (\<lambda>(i, st). uses n to (frames st)) d)"
    if "\<forall>(i, st) \<in> set d. next_only srv (frames st)" for d
    using that
  proof (induction d)
    case (Cons p d)
    obtain i st where p: "p = (i, st)" by (cases p)
    have "0 < uses n to (frames st)" if "n \<in> fst ` set (frames st)"
      using uses_positive [of srv "frames st" n to] that Cons.prems p assms(2) by simp
    then show ?case using Cons p
      by (cases "n \<in> fst ` set (frames st)") (simp_all add: waiting_forget)
  qed simp
  then show ?thesis using assms(1) by (auto simp: occupancy_def held_def forget_def wired_def)
qed

lemma acquire_room:
  assumes "wired srv c" "pools_ok conn c" "cr_next (srv n) = Some to"
    and "stub_acquire (conn n) (s_stubs c n) to = (Inr s, st)"
  shows "occupancy (forget c) n < POOL_SZ"
proof -
  have "stub_account (conn n) (s_stubs c n) (held c n)" using assms(2) by (simp add: pools_ok_def)
  from stub_acquire_account [OF this assms(4)]
  have a: "stub_account (conn n) st ((held c n)(to := Suc (held c n to)))" by simp
  obtain cl where "dict_get (cs_blocking st) to = Some cl"
    using stub_accountD(2) [OF a, of to] by (cases "dict_get (cs_blocking st) to") auto
  from pool_account_bound [OF stub_accountD(1) [OF a this]] have "held c n to < POOL_SZ" by simp
  with occupancy_held [OF assms(1,3)] show ?thesis by simp
qed

lemma abstract_refusal:
  assumes "dict_get (threads d) i = Some (Running n' m (n # ws))"
  shows "run conns d [Crash i, Work i] = Some (set_stage d i (Replying failure ws))"
    and "run conns d [Crash i, Work i, Lose i] = Some (set_stage d i (Hung ws))"
  using assms by (simp_all add: work_def)

text \<open>A forward is a step of the abstract handler, in which the message may then get lost or bounce.\<close>

lemma simulate_forward:
  assumes "wired srv c" "pools_ok conn c" "dict_get (s_threads c) i = Some (SRunning n m fs)"
    and pr: "process_req (s_servers c n) m = (Inr (Forward to m'), s')"
  shows "\<exists>ls. run conns (forget c) ls =
    Some (forget (s_forward conn b (c\<lparr>s_servers := (s_servers c)(n := s')\<rparr>) i n fs to m'))"
proof -
  let ?c = "c\<lparr>s_servers := (s_servers c)(n := s')\<rparr>"
  let ?d = "(forget c)\<lparr>servers := (s_servers c)(n := s')\<rparr>"
  let ?R = "Running to m' (n # map fst fs)"
  have nx: "cr_next (srv n) = Some to"
    using process_forwards [OF pr] assms(1) by (simp add: wired_def)
  have w: "run conns (forget c) (Work i # ls) =
      run conns (set_stage ?d i (if occupancy (forget c) n < POOL_SZ then ?R else Replying failure (map fst fs))) ls" for ls
    using assms(3) pr by (simp add: work_def after_process_def)
  note refusal = abstract_refusal [of "set_stage ?d i ?R" i to m' n "map fst fs" conns, simplified set_stage_twice]
  show ?thesis
  proof (rule s_forward_cases [of conn n ?c to b i fs m'])
    fix e st assume f: "s_forward conn b ?c i n fs to m' =
      set_sstage (set_stub ?c n st) i (SReplying failure (peer_closed fs))"
    show ?thesis
    proof (cases "occupancy (forget c) n < POOL_SZ")
      case True
      then show ?thesis using refusal(1)
        by (intro exI [of _ "[Work i, Crash i, Work i]"]) (simp only: w if_True, simp add: f)
    next
      case False
      then show ?thesis by (intro exI [of _ "[Work i]"]) (simp only: w if_False, simp add: f)
    qed
  next
    fix st assume a: "stub_acquire (conn n) (s_stubs ?c n) to = (Inr Usable, st)" and
      f: "s_forward conn b ?c i n fs to m' = set_sstage (set_stub ?c n st) i (SRunning to m' ((n, to, Usable) # fs))"
    have "occupancy (forget c) n < POOL_SZ" using acquire_room [OF assms(1,2) nx] a by simp
    then show ?thesis by (intro exI [of _ "[Work i]"]) (simp only: w if_True, simp add: f)
  next
    fix st assume a: "stub_acquire (conn n) (s_stubs ?c n) to = (Inr Dead, st)" and
      f: "s_forward conn b ?c i n fs to m' = set_sstage (set_stub ?c n (snd (stub_release (conn n) st to Dead))) i
        (if b then SHung fs else SReplying failure fs)"
    have "occupancy (forget c) n < POOL_SZ" using acquire_room [OF assms(1,2) nx] a by simp
    then show ?thesis using refusal
      by (intro exI [of _ "Work i # (if b then [Crash i, Work i, Lose i] else [Crash i, Work i])"])
        (simp only: w if_True, simp add: f)
  qed
qed

lemma simulate_step:
  assumes "wired srv c" "pools_ok conn c" "s_step conn conns c l = Some c'"
  shows "\<exists>ls. run conns (forget c) ls = Some (forget c')"
  using assms(3)
proof (cases rule: s_step_cases)
  case (invoke i x)
  then show ?thesis by (intro exI [of _ "[Invoke i x]"]) (simp add: map_of_eq_None_iff [symmetric])
next
  case (raises i b n m fs e s')
  then show ?thesis by (intro exI [of _ "[Work i]"]) (simp add: work_def after_process_def)
next
  case (reply i b n m fs resp s')
  then show ?thesis by (intro exI [of _ "[Work i]"]) (simp add: work_def after_process_def)
next
  case (forward i b n m fs to m' s')
  then show ?thesis using simulate_forward [OF assms(1,2) forward(2,3)] by simp
next
  case (give i b r n to s fs)
  then show ?thesis by (intro exI [of _ "[Work i]"]) (simp add: work_def)
next
  case (return i b r)
  then show ?thesis by (intro exI [of _ "[Work i]"]) (simp add: work_def)
next
  case (lose i st)
  then show ?thesis by (intro exI [of _ "[Lose i]"]) auto
next
  case (crash i n m fs)
  then show ?thesis by (intro exI [of _ "[Crash i]"]) simp
next
  case (crash_back i r n to s fs)
  then show ?thesis by (intro exI [of _ "[Crash i]"]) simp
qed

lemma s_reachable_invariant:
  assumes "s_reachable conn conns srv stubs c" "\<And>n. fresh_stub (stubs n)"
  shows "wired srv c \<and> pools_ok conn c"
  using assms(1)
  by induction (auto intro: wired_start pools_start assms(2) wired_step pools_step)

lemma s_reachable_forget:
  assumes "s_reachable conn conns srv stubs c" "\<And>n. fresh_stub (stubs n)"
  shows "reachable conns srv (forget c)"
  using assms(1)
proof induction
  case (step c l c')
  then show ?case
    using simulate_step s_reachable_invariant [OF step.hyps(1) assms(2)] reachable_run by blast
qed (simp add: reachable.init)


section \<open>The cluster\<close>

lemma fresh_initalize: "fresh_stub (initalize_connections (connection_stub_init infos POOL_SZ))"
proof -
  let ?step = "\<lambda>(_ :: string, si) st. st\<lparr>
      cs_blocking := dict_set (cs_blocking st) (si_name si) (tcp_client_init si True (cs_pool_sz st)),
      cs_non_blocking := dict_set (cs_non_blocking st) (si_name si) (tcp_client_init si False (cs_pool_sz st))\<rparr>"
  have "fresh_stub (fold ?step xs st)" if "fresh_stub st" "cs_pool_sz st = POOL_SZ"
    for xs and st :: "'s connection_stub"
    using that
  proof (induction xs arbitrary: st)
    case (Cons x xs)
    obtain name si where x: "x = (name, si)" by (cases x)
    have "fresh_stub (?step x st)" "cs_pool_sz (?step x st) = POOL_SZ"
      using Cons.prems by (simp_all add: x fresh_stub_def dict_simps tcp_client_init_def)
    then show ?case using Cons.IH by simp
  qed simp
  then show ?thesis unfolding initalize_connections_def
    by this (simp_all add: connection_stub_init_def fresh_stub_def)
qed

lemma fresh_cr_stubs: "fresh_stub (cr_stubs n)"
  unfolding cr_stubs_def by (rule fresh_initalize)

lemma s_reachable_run:
  "s_reachable conn conns srv stubs c \<Longrightarrow> s_run conn conns c ls = Some c' \<Longrightarrow> s_reachable conn conns srv stubs c'"
  by (induction ls arbitrary: c) (auto split: option.splits intro: s_reachable.step)

lemma s_run_append:
  "s_run conn conns c (ls @ ls') =
     (case s_run conn conns c ls of None \<Rightarrow> None | Some c' \<Rightarrow> s_run conn conns c' ls')"
  by (induction ls arbitrary: c) (auto split: option.split)


section \<open>A socket left behind by a dead handler\<close>

definition all_up :: "string \<Rightarrow> server_info \<Rightarrow> nat \<Rightarrow> sock res" where
  "all_up n si i = Inr Usable"

lemma open_pool_up: "open_pool (all_up n si) is socks = (Inr (), socks @ replicate (length is) Usable)"
  by (induction "is" arbitrary: socks) (simp_all add: all_up_def replicate_append_same)

lemma cr_stub_a: "cs_blocking (cr_stubs ''a'') = [(''b'', tcp_client_init cr_b True POOL_SZ)]"
  by code_simp

lemma server_a: "cr_next (cr_servers ''a'') = Some ''b''"
  using cr_servers_next by (simp add: cr_conns_names)

text \<open>The next socket that server \<open>a\<close> takes for \<open>b\<close> is dead.\<close>

definition poisoned :: "sconfig \<Rightarrow> bool" where
  "poisoned c \<longleftrightarrow> cr_next (s_servers c ''a'') = Some ''b'' \<and>
     (\<exists>cl socks. dict_get (cs_blocking (s_stubs c ''a'')) ''b'' = Some cl \<and> tc_sockets cl = Some (socks @ [Dead]))"

text \<open>A set that nothing disturbs, from the client's request to its answer, when it gets no further than \<open>a\<close>.\<close>

fun short_sets :: "nat \<Rightarrow> (string \<times> string) list \<Rightarrow> slabel list" where
  "short_sets i [] = []"
| "short_sets i ((k, v) # kvs) = [SInvoke i (OpSet k v), SWork i False, SWork i False] @ short_sets (Suc i) kvs"

fun failed_sets :: "nat \<Rightarrow> (string \<times> string) list \<Rightarrow> event list" where
  "failed_sets i [] = []"
| "failed_sets i ((k, v) # kvs) = [Inv i (OpSet k v), Res i failure] @ failed_sets (Suc i) kvs"

lemma poisoned_set:
  assumes "poisoned c" "dict_get (s_threads c) i = None"
  shows "\<exists>c'. s_run conn cr_conns c [SInvoke i (OpSet k v), SWork i False, SWork i False] = Some c' \<and> poisoned c' \<and>
    s_history c' = s_history c @ [Inv i (OpSet k v), Res i failure] \<and>
    s_threads c' = dict_set (s_threads c) i SFinished"
proof -
  obtain cl socks where cl: "dict_get (cs_blocking (s_stubs c ''a'')) ''b'' = Some cl"
    "tc_sockets cl = Some (socks @ [Dead])" and nx: "cr_next (s_servers c ''a'') = Some ''b''"
    using assms(1) by (auto simp: poisoned_def)
  have get: "get_sock (conn ''a'' (tc_info cl)) cl = (Inr Dead, cl\<lparr>tc_sockets := Some socks\<rparr>)"
    using cl(2) by (simp add: get_sock_open)
  show ?thesis
    using assms(2) cl nx get
    by (simp add: poisoned_def s_work_def process_set s_forward_def stub_acquire_def stub_release_def
        release_sock_open dead_exchange dict_simps cr_conns_names map_of_eq_None_iff del: request_of.simps)
qed

lemma poisoned_sets:
  "poisoned c \<Longrightarrow> \<forall>j \<ge> i. dict_get (s_threads c) j = None \<Longrightarrow>
     \<exists>c'. s_run conn cr_conns c (short_sets i kvs) = Some c' \<and> s_history c' = s_history c @ failed_sets i kvs"
proof (induction i kvs arbitrary: c rule: short_sets.induct)
  case (2 i k v kvs)
  obtain c' where c': "s_run conn cr_conns c [SInvoke i (OpSet k v), SWork i False, SWork i False] = Some c'"
    "poisoned c'" "s_history c' = s_history c @ [Inv i (OpSet k v), Res i failure]"
    "s_threads c' = dict_set (s_threads c) i SFinished"
    using poisoned_set [OF 2(2)] 2(3) by blast
  have "\<forall>j \<ge> Suc i. dict_get (s_threads c') j = None"
    using 2(3) by (simp add: c'(4) dict_simps)
  from 2(1) [OF c'(2) this] c'(3) show ?case
    by (simp only: short_sets.simps failed_sets.simps s_run_append c'(1)) auto
qed simp

lemma first_crash:
  "\<exists>c. s_run all_up cr_conns (s_start cr_servers cr_stubs)
       [SInvoke 0 (OpSet k v), SWork 0 False, SCrash 0, SWork 0 False, SWork 0 False] = Some c \<and>
     poisoned c \<and> s_threads c = [(0, SFinished)] \<and> s_history c = [Inv 0 (OpSet k v), Res 0 failure]"
  by (simp add: s_start_def s_work_def process_set server_a s_forward_def stub_acquire_def stub_release_def cr_stub_a
      get_sock_def client_sockets_def release_sock_def tcp_client_init_def open_pool_up POOL_SZ_def poisoned_def
      set_sstage_def set_stub_def dict_simps cr_conns_names butlast_append del: request_of.simps)


lemma first_set:
  "\<exists>c cl socks. s_run all_up cr_conns (s_start cr_servers cr_stubs)
       [SInvoke 1 (OpSet k v), SWork 1 False] = Some c \<and>
     dict_get (cs_blocking (s_stubs c ''a'')) ''b'' = Some cl \<and> tc_sockets cl = Some socks"
  by (simp add: s_start_def s_work_def process_set server_a s_forward_def stub_acquire_def cr_stub_a
      get_sock_def client_sockets_def tcp_client_init_def open_pool_up POOL_SZ_def
      set_sstage_def set_stub_def dict_simps cr_conns_names del: request_of.simps)

section \<open>Starting and stopping the cluster\<close>

text \<open>A server process: the server and its connections, which \<open>Server.run\<close> sets up once it listens.\<close>

definition run_server :: "'srv \<times> sock connection_stub \<Rightarrow> 'srv \<times> sock connection_stub" where
  "run_server p = (case p of (s, stub) \<Rightarrow> (s, initalize_connections stub))"

definition start_all :: "(string, 'srv \<times> sock connection_stub) dict \<Rightarrow> (string, 'srv \<times> sock connection_stub) dict" where
  "start_all procs = map (\<lambda>(n, p). (n, run_server p)) procs"

text \<open>\<open>CrCluster()\<close>: the constructor calls \<open>create_server\<close>, whose exception would be that of the constructor.\<close>

definition cr_cluster :: "(string, cr_server \<times> sock connection_stub) dict res" where
  "cr_cluster =
     rbind (make_servers (\<lambda>si stub. rbind (cr_create_server si) (\<lambda>s. Inr (s, stub))) cr_topology POOL_SZ) (\<lambda>made.
       rmap (\<lambda>(n, r). rbind r (\<lambda>p. Inr (n, p))) made)"

lemma cr_tables:
  "server_infos cr_topology = [(''a'', cr_a), (''b'', cr_b), (''c'', cr_c), (''d'', cr_dd)]"
  "complete_topology cr_topology = cr_topology"
  by code_simp+

lemma cr_cluster_made:
  "cr_cluster = Inr (map (\<lambda>(si, tos). (si_name si, (cr_servers (si_name si), connection_stub_init tos POOL_SZ))) cr_topology)"
proof -
  have names: "si_name cr_a = ''a''" "si_name cr_b = ''b''" "si_name cr_c = ''c''" "si_name cr_dd = ''d''" by code_simp+
  have idx: "dict_index cr_topology cr_a = Inr [cr_b]" "dict_index cr_topology cr_b = Inr [cr_c]"
    "dict_index cr_topology cr_c = Inr [cr_dd]" "dict_index cr_topology cr_dd = Inr []"
    by code_simp+
  have srv: "cr_servers ''a'' = cr_server_init cr_a (Some cr_b) None cr_dd"
    "cr_servers ''b'' = cr_server_init cr_b (Some cr_c) (Some cr_a) cr_dd"
    "cr_servers ''c'' = cr_server_init cr_c (Some cr_dd) (Some cr_b) cr_dd"
    "cr_servers ''d'' = cr_server_init cr_dd None (Some cr_c) cr_dd"
    by (simp_all add: cr_servers_def names cr_create_server_simps)
  show ?thesis
    by (simp add: cr_cluster_def make_servers_def cr_tables idx names cr_create_server_simps srv)
      (simp add: cr_topology_def names srv)
qed

text \<open>The runs begin with what the constructor and \<open>start_all\<close> make.\<close>

lemma cr_cluster_starts:
  "\<exists>d. cr_cluster = Inr d \<and> (\<forall>n \<in> set cr_conns. dict_get (start_all d) n = Some (cr_servers n, cr_stubs n))"
proof -
  have names: "si_name cr_a = ''a''" "si_name cr_b = ''b''" "si_name cr_c = ''c''" "si_name cr_dd = ''d''" by code_simp+
  show ?thesis
    by (simp add: cr_cluster_made cr_conns_names start_all_def run_server_def cr_stubs_def cr_tables)
      (simp add: cr_topology_def names)
qed

section \<open>Properties\<close>

text \<open>
  C14. The cluster with its socket pools refines the chain of abstract requests: whatever the
  connects, the interleaving, the lost messages and the dying handlers do, the state with the pools
  forgotten is a reachable state of \<open>ChainRuns\<close>, and so the history that the clients saw is
  linearizable.
\<close>

theorem sockets_refine_chain:
  assumes "s_reachable conn cr_conns cr_servers cr_stubs c"
  shows "reachable cr_conns cr_servers (forget c) \<and> linearizable (s_history c)"
  using s_reachable_forget [OF assms fresh_cr_stubs] cr.reachable_linearizable by force

theorem sockets_refine_chain_witness:
  "\<exists>c. s_run all_up cr_conns (s_start cr_servers cr_stubs)
       [SInvoke 0 (OpSet ''x'' ''1''), SWork 0 False, SCrash 0, SWork 0 False, SWork 0 False] = Some c \<and>
     reachable cr_conns cr_servers (forget c) \<and> linearizable [Inv 0 (OpSet ''x'' ''1''), Res 0 failure]"
proof -
  obtain c where c: "s_run all_up cr_conns (s_start cr_servers cr_stubs)
       [SInvoke 0 (OpSet ''x'' ''1''), SWork 0 False, SCrash 0, SWork 0 False, SWork 0 False] = Some c"
    "s_history c = [Inv 0 (OpSet ''x'' ''1''), Res 0 failure]" using first_crash by blast
  from sockets_refine_chain [OF s_reachable_run [OF s_reachable.init c(1)]] c show ?thesis by auto
qed

text \<open>
  C25. No socket is lost or used twice: in every reachable configuration, for every server and every
  server it calls, the sockets in the pool and the sockets that requests hold are together exactly the
  sockets that opening the pool had produced, which are never more than 32.
\<close>

theorem sockets_accounted:
  assumes "s_reachable conn cr_conns cr_servers cr_stubs c"
    and "dict_get (cs_blocking (s_stubs c n)) to = Some cl"
  shows "(case tc_sockets cl of
       None \<Rightarrow> held c n to = 0
     | Some socks \<Rightarrow> length socks + held c n to = opened (conn n) cl) \<and> held c n to \<le> 32"
proof -
  have "stub_account (conn n) (s_stubs c n) (held c n)"
    using s_reachable_invariant [OF assms(1) fresh_cr_stubs] by (simp add: pools_ok_def)
  from stub_accountD(1) [OF this assms(2)] have "pool_account (conn n) cl (held c n to)" .
  then show ?thesis using pool_account_bound by (auto simp: pool_account_def POOL_SZ_def)
qed

theorem sockets_accounted_witness:
  "\<exists>c cl socks. s_run all_up cr_conns (s_start cr_servers cr_stubs)
       [SInvoke 1 (OpSet ''x'' ''1''), SWork 1 False] = Some c \<and>
     dict_get (cs_blocking (s_stubs c ''a'')) ''b'' = Some cl \<and> tc_sockets cl = Some socks \<and>
     length socks + held c ''a'' ''b'' = opened (all_up ''a'') cl \<and> held c ''a'' ''b'' \<le> 32"
proof -
  obtain c cl socks where c: "s_run all_up cr_conns (s_start cr_servers cr_stubs)
       [SInvoke 1 (OpSet ''x'' ''1''), SWork 1 False] = Some c"
    "dict_get (cs_blocking (s_stubs c ''a'')) ''b'' = Some cl" "tc_sockets cl = Some socks"
    using first_set by blast
  from sockets_accounted [OF s_reachable_run [OF s_reachable.init c(1)] c(2)] c show ?thesis by auto
qed


end
