(* ===== verification/ChainClient.thy ===== *)
theory ChainClient
  imports ChainRuns
begin

text \<open>
  One lab 3 client and the tail server on one connection, down to the bytes: \<open>CrClient.get\<close> and \<open>set\<close>
  (\<open>cr/cr_cluster.py\<close>) call \<open>TcpClient.send\<close>, whose socket is here a connection to a running
  \<open>handle_client\<close> loop. The request is serialized, cut into segments by the network, received with
  \<open>recv_message\<close>, processed, and the answer travels back the same way. The lemmas compose the
  round trip of \<open>Framing\<close>, the pool of \<open>Links\<close> and the handler of \<open>ChainServer\<close>.
\<close>

section \<open>A connection\<close>

text \<open>
  The server at the other end, whether its handler still runs, and the segments on their way to the
  client. The client is synchronous, so nothing is on its way to the server between two calls.
\<close>

record wire =
  w_server :: cr_server
  w_open :: bool
  w_in :: socket

text \<open>The handler's ends of the connection: what it can still read and what it has written.\<close>

type_synonym ends = "socket \<times> socket"

definition end_recv :: "ends \<Rightarrow> (nat \<times> json_message option) res \<times> ends" where
  "end_recv e = (case recv_message (\<lambda>_ _. Inr ()) tcp_recv (fst e) of (r, s) \<Rightarrow> (r, (s, snd e)))"

definition end_sendall :: "(bytes \<Rightarrow> socket) \<Rightarrow> ends \<Rightarrow> json_message \<Rightarrow> unit res \<times> ends" where
  "end_sendall segs e m =
     (case serialize m of Inl x \<Rightarrow> (Inl x, e) | Inr bs \<Rightarrow> (Inr (), (fst e, snd e @ segs bs)))"

text \<open>The tail's handler; \<open>down\<close> is the send to a successor, which the tail has none of.\<close>

definition tail_proc ::
  "(string \<Rightarrow> json_message \<Rightarrow> json_message option res) \<Rightarrow> cr_server \<Rightarrow> json_message \<Rightarrow>
     json_message option res \<times> cr_server" where
  "tail_proc down s m =
     (case process_req s m of
        (Inl e, s') \<Rightarrow> (Inl e, s')
      | (Inr (Reply r), s') \<Rightarrow> (Inr (Some r), s')
      | (Inr (Forward n m'), s') \<Rightarrow> (down n m', s'))"

text \<open>
  \<open>sendall\<close> of the client: the bytes wake the handler, which makes one turn of its loop and closes the
  connection when the turn raises. On a connection that the server has closed the bytes are accepted
  and thrown away, or, once the reset has come in, the call raises.
\<close>

definition wire_sendall ::
  "(bytes \<Rightarrow> socket) \<Rightarrow> (string \<Rightarrow> json_message \<Rightarrow> json_message option res) \<Rightarrow> bool \<Rightarrow>
     wire \<Rightarrow> json_message \<Rightarrow> unit res \<times> wire" where
  "wire_sendall segs down reset w m =
     (case serialize m of
        Inl e \<Rightarrow> (Inl e, w)
      | Inr bs \<Rightarrow>
          if \<not> w_open w then (if reset then Inl ConnectionError else Inr (), w)
          else
            (case handle_client_turn end_recv (end_sendall segs) (tail_proc down) (w_server w) (segs bs, []) of
               (r, s', (_, out)) \<Rightarrow>
                 (Inr (), \<lparr>w_server = s', w_open = (case r of Inl e \<Rightarrow> False | Inr _ \<Rightarrow> True),
                           w_in = w_in w @ out\<rparr>)))"

definition wire_recv :: "wire \<Rightarrow> (nat \<times> json_message option) res \<times> wire" where
  "wire_recv w = (case recv_message (\<lambda>_ _. Inr ()) tcp_recv (w_in w) of (r, s) \<Rightarrow> (r, w\<lparr>w_in := s\<rparr>))"

text \<open>\<open>self.conns[-1].send(...)\<close>; the connection has been opened before, so \<open>connect\<close> is not called.\<close>

definition wire_send ::
  "(bytes \<Rightarrow> socket) \<Rightarrow> (string \<Rightarrow> json_message \<Rightarrow> json_message option res) \<Rightarrow> bool \<Rightarrow>
     wire tcp_client \<Rightarrow> json_message \<Rightarrow> json_message option res \<times> wire tcp_client" where
  "wire_send segs down reset = tcp_send (\<lambda>i. Inl ConnectionError) (wire_sendall segs down reset) wire_recv"

definition client_get ::
  "(bytes \<Rightarrow> socket) \<Rightarrow> (string \<Rightarrow> json_message \<Rightarrow> json_message option res) \<Rightarrow> bool \<Rightarrow>
     wire tcp_client \<Rightarrow> string \<Rightarrow> (bool \<times> json) res \<times> wire tcp_client" where
  "client_get segs down reset c key =
     (case wire_send segs down reset c (request_of (OpGet key)) of
        (r, c') \<Rightarrow> (rbind r client_get_result, c'))"

definition client_set ::
  "(bytes \<Rightarrow> socket) \<Rightarrow> (string \<Rightarrow> json_message \<Rightarrow> json_message option res) \<Rightarrow> bool \<Rightarrow>
     wire tcp_client \<Rightarrow> string \<Rightarrow> string \<Rightarrow> bool res \<times> wire tcp_client" where
  "client_set segs down reset c key val =
     (case wire_send segs down reset c (request_of (OpSet key val)) of
        (r, c') \<Rightarrow> (rbind r client_set_result, c'))"

section \<open>One exchange\<close>

text \<open>A client with its single socket free, nothing left to read on it.\<close>

definition ready :: "wire tcp_client \<Rightarrow> wire \<Rightarrow> bool" where
  "ready c w \<longleftrightarrow> tc_blocking c \<and> tc_sockets c = Some [w] \<and> concat (w_in w) = []"

lemma end_recv_message:
  assumes "wf_json m" "serialize m = Inr bs" "concat (segs bs) = bs"
  shows "\<exists>s. end_recv (segs bs, out) = (Inr (MESSAGE_VALID, Some m), (s, out)) \<and> concat s = []"
proof -
  from tcp.recv_message_result [OF assms(1,2), of "segs bs" "[]"] assms(3)
  obtain s where "recv_message (\<lambda>_ _. Inr ()) tcp_recv (segs bs) = (Inr (MESSAGE_VALID, Some m), s)" "concat s = []"
    by auto
  then show ?thesis by (simp add: end_recv_def)
qed

lemma wire_recv_message:
  assumes "wf_json m" "serialize m = Inr bs" "concat (w_in w) = bs"
  shows "\<exists>s. wire_recv w = (Inr (MESSAGE_VALID, Some m), w\<lparr>w_in := s\<rparr>) \<and> concat s = []"
proof -
  from tcp.recv_message_result [OF assms(1,2), of "w_in w" "[]"] assms(3)
  obtain s where "recv_message (\<lambda>_ _. Inr ()) tcp_recv (w_in w) = (Inr (MESSAGE_VALID, Some m), s)" "concat s = []"
    by auto
  then show ?thesis by (intro exI [of _ s]) (simp add: wire_recv_def)
qed

lemma wire_recv_eof:
  assumes "concat (w_in w) = []"
  shows "\<exists>s. wire_recv w = (Inr (MESSAGE_HEADER_INVALID, None), w\<lparr>w_in := s\<rparr>) \<and> concat s = []"
proof -
  from assms obtain s where "recvall tcp_recv 8 (w_in w) = (None, s)" "concat s = []"
    using tcp.recvall_eof [of "w_in w" 8] by (auto simp del: concat_eq_Nil_conv)
  then show ?thesis by (intro exI [of _ s]) (simp add: wire_recv_def recv_message_def)
qed

lemma wire_send_exchange:
  assumes "ready c w" "exchange (wire_sendall segs down reset) wire_recv True w m = (resp, w')" "concat (w_in w') = []"
  shows "wire_send segs down reset c m = (Inr resp, c\<lparr>tc_sockets := Some [w']\<rparr>)"
    and "ready (c\<lparr>tc_sockets := Some [w']\<rparr>) w'"
  using assms by (simp_all add: ready_def wire_send_def tcp_send_open [of c "[w]"])

text \<open>What the handler makes of a request, seen from the client.\<close>

lemma wire_exchange_reply:
  assumes w: "ready c w" "w_open w" and m: "wf_json m" "serialize m = Inr bs"
    and p: "process_req (w_server w) m = (Inr (Reply r), s')" and r: "wf_json r" "serialize r = Inr rs"
    and segs: "\<And>xs. concat (segs xs) = xs"
  shows "\<exists>w'. wire_send segs down reset c m = (Inr (Some r), c\<lparr>tc_sockets := Some [w']\<rparr>) \<and>
    ready (c\<lparr>tc_sockets := Some [w']\<rparr>) w' \<and> w_open w' \<and> w_server w' = s'"
proof -
  obtain s where s: "end_recv (segs bs, []) = (Inr (MESSAGE_VALID, Some m), (s, []))"
    using end_recv_message [OF m, of segs "[]"] segs by auto
  define w1 where "w1 = \<lparr>w_server = s', w_open = True, w_in = w_in w @ segs rs\<rparr>"
  have "wire_sendall segs down reset w m = (Inr (), w1)"
    using w(2) m(2) r(2) p
    by (simp add: wire_sendall_def handle_client_turn_def s tail_proc_def end_sendall_def w1_def)
  moreover obtain t where t: "wire_recv w1 = (Inr (MESSAGE_VALID, Some r), w1\<lparr>w_in := t\<rparr>)" "concat t = []"
    using wire_recv_message [OF r, of w1] w(1) segs by (auto simp: w1_def ready_def)
  ultimately have "exchange (wire_sendall segs down reset) wire_recv True w m = (Some r, w1\<lparr>w_in := t\<rparr>)"
    by (simp add: exchange_def)
  from wire_send_exchange [OF w(1) this] t(2) show ?thesis
    by (intro exI [of _ "w1\<lparr>w_in := t\<rparr>"]) (simp add: w1_def)
qed

lemma status_text:
  "dict_index STATUS_CODE MESSAGE_HEADER_INVALID =
     Inr ''Invalid Message Format from the client: next {msglen} bytes must be message''"
  by (simp add: STATUS_CODE_def dict_union_def dict_index_def MESSAGE_VALID_def MESSAGE_HEADER_INVALID_def
      MESSAGE_BODY_INVALID_def)

lemma wire_exchange_raise:
  assumes w: "ready c w" "w_open w" and m: "wf_json m" "serialize m = Inr bs"
    and p: "process_req (w_server w) m = (Inl e, s')" and segs: "\<And>xs. concat (segs xs) = xs"
  shows "\<exists>w'. wire_send segs down reset c m = (Inr (Some failure), c\<lparr>tc_sockets := Some [w']\<rparr>) \<and>
    ready (c\<lparr>tc_sockets := Some [w']\<rparr>) w' \<and> \<not> w_open w' \<and> w_server w' = s'"
proof -
  obtain s where s: "end_recv (segs bs, []) = (Inr (MESSAGE_VALID, Some m), (s, []))"
    using end_recv_message [OF m, of segs "[]"] segs by auto
  define w1 where "w1 = \<lparr>w_server = s', w_open = False, w_in = w_in w\<rparr>"
  have "wire_sendall segs down reset w m = (Inr (), w1)"
    using w(2) m(2) p
    by (simp add: wire_sendall_def handle_client_turn_def s tail_proc_def w1_def)
  moreover obtain t where t: "wire_recv w1 = (Inr (MESSAGE_HEADER_INVALID, None), w1\<lparr>w_in := t\<rparr>)" "concat t = []"
    using wire_recv_eof [of w1] w(1) by (auto simp: w1_def ready_def)
  ultimately have "exchange (wire_sendall segs down reset) wire_recv True w m = (Some failure, w1\<lparr>w_in := t\<rparr>)"
    by (simp add: exchange_def status_text failure_def)
  from wire_send_exchange [OF w(1) this] t(2) show ?thesis
    by (intro exI [of _ "w1\<lparr>w_in := t\<rparr>"]) (simp add: w1_def)
qed

lemma wire_exchange_closed:
  assumes w: "ready c w" "\<not> w_open w" and m: "serialize m = Inr bs"
  shows "\<exists>w'. wire_send segs down reset c m = (Inr (if reset then None else Some failure), c\<lparr>tc_sockets := Some [w']\<rparr>) \<and>
    ready (c\<lparr>tc_sockets := Some [w']\<rparr>) w' \<and> \<not> w_open w' \<and> w_server w' = w_server w"
proof -
  obtain t where t: "wire_recv w = (Inr (MESSAGE_HEADER_INVALID, None), w\<lparr>w_in := t\<rparr>)" "concat t = []"
    using wire_recv_eof [of w] w(1) by (auto simp: ready_def)
  have "wire_sendall segs down reset w m = (if reset then Inl ConnectionError else Inr (), w)"
    using w(2) m by (simp add: wire_sendall_def)
  then have "exchange (wire_sendall segs down reset) wire_recv True w m =
      (if reset then None else Some failure, if reset then w else w\<lparr>w_in := t\<rparr>)"
    using t(1) by (simp add: exchange_def status_text failure_def)
  from wire_send_exchange [OF w(1) this] w t(2) show ?thesis
    by (intro exI [of _ "if reset then w else w\<lparr>w_in := t\<rparr>"]) (simp add: ready_def)
qed


section \<open>The client's calls\<close>

lemma request_wf [simp]: "wf_json (request_of x)"
  by (cases x) simp_all

text \<open>A message that fits the eight-byte length.\<close>

definition fits :: "json_message \<Rightarrow> bool" where
  "fits m \<longleftrightarrow> length (dumps m) < 2 ^ 64"

lemma fits_short: "length (dumps m) < 256 \<Longrightarrow> fits m"
  by (simp add: fits_def)

lemma serialize_fits: "fits m \<Longrightarrow> \<exists>bs. serialize m = Inr bs"
  by (simp add: serialize_def msg_len_dumps fits_def)

lemma get_result_value: "client_get_result (Some (value_reply v)) = Inr (True, v)"
  by (simp add: client_get_result_def value_reply_def dict_index_def)

lemma get_result_failure:
  "client_get_result (Some failure) =
     Inr (False, JStr ''Invalid Message Format from the client: next {msglen} bytes must be message'')"
  by (simp add: client_get_result_def failure_def dict_index_def)

lemma tail_get:
  assumes "ready c w" "w_open w" "cr_next (w_server w) = None" "\<And>xs. concat (segs xs) = xs"
    and "fits (request_of (OpGet k))" "cr_d (w_server w) (JStr k) = Some v" "wf_json v" "fits (value_reply v)"
  shows "\<exists>c1 w1. client_get segs down reset c k = (Inr (True, v), c1) \<and>
    ready c1 w1 \<and> w_open w1 \<and> w_server w1 = w_server w"
proof -
  have p: "process_req (w_server w) (request_of (OpGet k)) = (Inr (Reply (value_reply v)), w_server w)"
    using assms(3,6) by (simp add: process_get del: request_of.simps)
  obtain bs rs where s: "serialize (request_of (OpGet k)) = Inr bs" "serialize (value_reply v) = Inr rs"
    using assms(5,8) serialize_fits by blast
  have "wf_json (value_reply v)" using assms(7) by (simp add: value_reply_def)
  from wire_exchange_reply [OF assms(1,2) request_wf s(1) p this s(2) assms(4), of down reset]
  obtain w' where "wire_send segs down reset c (request_of (OpGet k)) =
      (Inr (Some (value_reply v)), c\<lparr>tc_sockets := Some [w']\<rparr>)"
    "ready (c\<lparr>tc_sockets := Some [w']\<rparr>) w'" "w_open w'" "w_server w' = w_server w" by blast
  then show ?thesis
    by (intro exI [of _ "c\<lparr>tc_sockets := Some [w']\<rparr>"] exI [of _ w'])
      (simp add: client_get_def get_result_value del: request_of.simps)
qed

lemma tail_set:
  assumes "ready c w" "w_open w" "cr_next (w_server w) = None" "\<And>xs. concat (segs xs) = xs"
    and "fits (request_of (OpSet k v))"
  shows "\<exists>c1 w1. client_set segs down reset c k v = (Inr True, c1) \<and>
    ready c1 w1 \<and> w_open w1 \<and> w_server w1 = (w_server w)\<lparr>cr_d := (cr_d (w_server w))(JStr k \<mapsto> JStr v)\<rparr>"
proof -
  let ?s = "(w_server w)\<lparr>cr_d := (cr_d (w_server w))(JStr k \<mapsto> JStr v)\<rparr>"
  have p: "process_req (w_server w) (request_of (OpSet k v)) = (Inr (Reply status_ok), ?s)"
    using assms(3) by (simp add: process_set del: request_of.simps)
  have "fits status_ok" by (rule fits_short) code_simp
  then obtain bs rs where s: "serialize (request_of (OpSet k v)) = Inr bs" "serialize status_ok = Inr rs"
    using assms(5) serialize_fits by blast
  have "wf_json status_ok" by (simp add: status_ok_def)
  from wire_exchange_reply [OF assms(1,2) request_wf s(1) p this s(2) assms(4), of down reset]
  obtain w' where "wire_send segs down reset c (request_of (OpSet k v)) =
      (Inr (Some status_ok), c\<lparr>tc_sockets := Some [w']\<rparr>)"
    "ready (c\<lparr>tc_sockets := Some [w']\<rparr>) w'" "w_open w'" "w_server w' = ?s" by blast
  moreover have "client_set_result (Some status_ok) = Inr True"
    by (simp add: client_set_result_def status_ok_def dict_index_def)
  ultimately show ?thesis
    by (intro exI [of _ "c\<lparr>tc_sockets := Some [w']\<rparr>"] exI [of _ w'])
      (simp add: client_set_def del: request_of.simps)
qed

text \<open>A key that is not stored, and any key on a connection that the server has closed.\<close>

lemma tail_get_missing:
  assumes "ready c w" "w_open w" "cr_next (w_server w) = None" "\<And>xs. concat (segs xs) = xs"
    and "fits (request_of (OpGet k))" "cr_d (w_server w) (JStr k) = None"
  shows "\<exists>c1 w1. client_get segs down reset c k = (client_get_result (Some failure), c1) \<and>
    ready c1 w1 \<and> \<not> w_open w1 \<and> w_server w1 = w_server w"
proof -
  have p: "process_req (w_server w) (request_of (OpGet k)) = (Inl KeyError, w_server w)"
    using assms(3,6) by (simp add: process_get del: request_of.simps)
  obtain bs where s: "serialize (request_of (OpGet k)) = Inr bs" using assms(5) serialize_fits by blast
  from wire_exchange_raise [OF assms(1,2) request_wf s p assms(4), of down reset]
  obtain w' where "wire_send segs down reset c (request_of (OpGet k)) = (Inr (Some failure), c\<lparr>tc_sockets := Some [w']\<rparr>)"
    "ready (c\<lparr>tc_sockets := Some [w']\<rparr>) w'" "\<not> w_open w'" "w_server w' = w_server w" by blast
  then show ?thesis
    by (intro exI [of _ "c\<lparr>tc_sockets := Some [w']\<rparr>"] exI [of _ w'])
      (simp add: client_get_def del: request_of.simps)
qed

lemma closed_get:
  assumes "ready c w" "\<not> w_open w" "fits (request_of (OpGet k))"
  shows "\<exists>c1 w1. client_get segs down reset c k =
      (if reset then Inl (AssertionError '''') else client_get_result (Some failure), c1) \<and>
    ready c1 w1 \<and> \<not> w_open w1"
proof -
  obtain bs where s: "serialize (request_of (OpGet k)) = Inr bs" using assms(3) serialize_fits by blast
  from wire_exchange_closed [OF assms(1,2) s, of segs down reset]
  obtain w' where "wire_send segs down reset c (request_of (OpGet k)) =
      (Inr (if reset then None else Some failure), c\<lparr>tc_sockets := Some [w']\<rparr>)"
    "ready (c\<lparr>tc_sockets := Some [w']\<rparr>) w'" "\<not> w_open w'" by blast
  moreover have "client_get_result None = Inl (AssertionError '''')" by (simp add: client_get_result_def)
  ultimately show ?thesis
    by (intro exI [of _ "c\<lparr>tc_sockets := Some [w']\<rparr>"] exI [of _ w'])
      (simp add: client_get_def del: request_of.simps)
qed

text \<open>A sequence of gets, each with its own outcome of a use of a closed connection.\<close>

fun client_gets ::
  "(bytes \<Rightarrow> socket) \<Rightarrow> (string \<Rightarrow> json_message \<Rightarrow> json_message option res) \<Rightarrow>
     wire tcp_client \<Rightarrow> (string \<times> bool) list \<Rightarrow> (bool \<times> json) res list" where
  "client_gets segs down c [] = []"
| "client_gets segs down c ((k, reset) # ks) =
     (case client_get segs down reset c k of (r, c') \<Rightarrow> r # client_gets segs down c' ks)"

lemma closed_gets:
  "ready c w \<Longrightarrow> \<not> w_open w \<Longrightarrow> \<forall>(k, reset) \<in> set ks. fits (request_of (OpGet k)) \<Longrightarrow>
     client_gets segs down c ks =
       map (\<lambda>(k, reset). if reset then Inl (AssertionError '''') else client_get_result (Some failure)) ks"
proof (induction ks arbitrary: c w)
  case (Cons p ks)
  obtain k reset where p: "p = (k, reset)" by (cases p)
  then have "fits (request_of (OpGet k))" using Cons.prems(3) by simp
  from closed_get [OF Cons.prems(1,2) this, of segs down reset]
  obtain c1 w1 where "client_get segs down reset c k =
      (if reset then Inl (AssertionError '''') else client_get_result (Some failure), c1)" "ready c1 w1" "\<not> w_open w1"
    by blast
  then show ?case using Cons.IH [of c1 w1] Cons.prems(3) p by (simp del: request_of.simps)
qed simp

section \<open>Properties\<close>

definition example_client :: "cr_server \<Rightarrow> wire tcp_client" where
  "example_client s = \<lparr>tc_info = cr_dd, tc_blocking = True,
     tc_sockets = Some [\<lparr>w_server = s, w_open = True, w_in = []\<rparr>], tc_pool_sz = 1\<rparr>"

lemma example_ready: "ready (example_client s) \<lparr>w_server = s, w_open = True, w_in = []\<rparr>"
  by (simp add: ready_def example_client_def)



text \<open>
  C36. Asking for a key that is not stored ends the client's session: the first answer is a failure,
  and every later GET on that client fails too, for every key, also for keys that are stored,
  because the handler has closed the connection and the pool keeps its only socket. Each answer is
  the text of an invalid message, or an assertion error once the reset is noticed.
\<close>

theorem missing_get_ends_session:
  assumes "ready c w" and "w_open w" and "cr_next (w_server w) = None" and "\<And>xs. concat (segs xs) = xs"
    and "fits (request_of (OpGet k))" and "cr_d (w_server w) (JStr k) = None"
    and "\<forall>(k, reset) \<in> set ks. fits (request_of (OpGet k))"
  shows "client_gets segs down c ((k, reset) # ks) =
     Inr (False, JStr ''Invalid Message Format from the client: next {msglen} bytes must be message'') #
     map (\<lambda>(k, reset). if reset then Inl (AssertionError '''')
            else Inr (False, JStr ''Invalid Message Format from the client: next {msglen} bytes must be message'')) ks"
proof -
  obtain c1 w1 where "client_get segs down reset c k = (client_get_result (Some failure), c1)" "ready c1 w1" "\<not> w_open w1"
    using tail_get_missing [OF assms(1-6), of down reset] by blast
  then show ?thesis
    using closed_gets [OF _ _ assms(7), of c1 w1 segs down, unfolded get_result_failure]
    by (simp add: get_result_failure del: request_of.simps)
qed

theorem missing_get_ends_session_witness:
  "let s = (cr_server_init cr_dd None (Some cr_c) cr_dd)\<lparr>cr_d := [JStr ''x'' \<mapsto> JStr ''1'']\<rparr> in
   client_gets (map (\<lambda>b. [b])) (\<lambda>n m. Inl KeyError) (example_client s) [(''y'', False), (''x'', False), (''x'', True)] =
     [Inr (False, JStr ''Invalid Message Format from the client: next {msglen} bytes must be message''),
      Inr (False, JStr ''Invalid Message Format from the client: next {msglen} bytes must be message''),
      Inl (AssertionError '''')]"
proof -
  let ?s = "(cr_server_init cr_dd None (Some cr_c) cr_dd)\<lparr>cr_d := [JStr ''x'' \<mapsto> JStr ''1'']\<rparr>"
  have "fits (request_of (OpGet ''x''))" "fits (request_of (OpGet ''y''))"
    by (rule fits_short, code_simp)+
  with missing_get_ends_session [OF example_ready [of ?s], where segs = "map (\<lambda>b. [b])" and
      down = "\<lambda>n m. Inl KeyError" and k = "''y''" and reset = False and ks = "[(''x'', False), (''x'', True)]"]
  show ?thesis by (simp add: cr_server_init_def Let_def del: request_of.simps)
qed

end
