(* ===== verification/WordMessage.thy ===== *)
theory WordMessage
  imports Framing
begin

text \<open>
  The messages of lab 2 (\<open>labs/lab2/message.py\<close>) and the receiving loop of
  \<open>labs/lab2/reducer.py\<close>. A message is a JSON text behind a 4-byte length, padded with zeros to
  1024 bytes; over TCP the reducer reads blocks of exactly 1024 bytes. The locale
  \<open>fixed_blocks\<close> is what reading by blocks needs of a message format, and \<open>block\<close>/\<open>open_block\<close>
  provide it for the messages that fit. The receiving loop is that of lab 3 with an exception
  where lab 3 returns nothing.
\<close>

section \<open>Message types\<close>

datatype mt = HEARTBEAT | CHECKPOINT | FWD_CHECKPOINT | WORD_COUNT | CHECKPOINT_ACK | EXIT
  | DONE | LAST_CHECKPOINT_ACK | RECOVER | RECOVERY_ACK

definition all_mt :: "mt list" where
  "all_mt = [HEARTBEAT, CHECKPOINT, FWD_CHECKPOINT, WORD_COUNT, CHECKPOINT_ACK, EXIT,
     DONE, LAST_CHECKPOINT_ACK, RECOVER, RECOVERY_ACK]"

fun mt_value :: "mt \<Rightarrow> int" where
  "mt_value HEARTBEAT = 0"
| "mt_value CHECKPOINT = 1"
| "mt_value FWD_CHECKPOINT = 2"
| "mt_value WORD_COUNT = 3"
| "mt_value CHECKPOINT_ACK = 4"
| "mt_value EXIT = 5"
| "mt_value DONE = 6"
| "mt_value LAST_CHECKPOINT_ACK = 7"
| "mt_value RECOVER = 8"
| "mt_value RECOVERY_ACK = 9"

text \<open>\<open>MT(v)\<close>: the member with that value; a boolean is the number 0 or 1.\<close>

definition mt_of_int :: "int \<Rightarrow> mt res" where
  "mt_of_int v = (case filter (\<lambda>t. mt_value t = v) all_mt of [] \<Rightarrow> Inl ValueError | t # ts \<Rightarrow> Inr t)"

fun mt_of :: "json \<Rightarrow> mt res" where
  "mt_of (JInt v) = mt_of_int v"
| "mt_of (JBool b) = mt_of_int (if b then 1 else 0)"
| "mt_of v = Inl ValueError"

lemma mt_of_value [simp]: "mt_of_int (mt_value t) = Inr t"
  by (cases t) (simp_all add: mt_of_int_def all_mt_def)

section \<open>Messages\<close>

record message =
  m_type :: mt
  m_source :: json
  m_kwargs :: "(string, json) dict"

text \<open>
  \<open>Message(msg_type, source, **kwargs)\<close>: a keyword that is also a parameter raises. The check of
  the type against \<open>num_messages\<close> never fails on a member of the enumeration.
\<close>

definition message_init :: "mt \<Rightarrow> json \<Rightarrow> (string, json) dict \<Rightarrow> message res" where
  "message_init t src kwargs =
     (if (\<exists>k \<in> set (dict_keys kwargs). k \<in> {''self'', ''msg_type'', ''source''}) then Inl TypeError
      else if mt_value t \<ge> int (length all_mt) then Inl ValueError
      else Inr \<lparr>m_type = t, m_source = src, m_kwargs = kwargs\<rparr>)"

definition message_dict :: "message \<Rightarrow> (string, json) dict" where
  "message_dict m = dict_union [(''type'', JInt (mt_value (m_type m))), (''source'', m_source m)] (m_kwargs m)"

definition BUFFER_SIZE :: nat where "BUFFER_SIZE = 1024"

definition ljust :: "nat \<Rightarrow> 'a \<Rightarrow> 'a list \<Rightarrow> 'a list" where
  "ljust n x xs = xs @ replicate (n - length xs) x"

text \<open>\<open>struct.pack('!I', n)\<close> raises from \<open>2^32\<close> on. \<open>ljust\<close> pads, but never cuts.\<close>

definition message_serialize :: "message \<Rightarrow> bytes res" where
  "message_serialize m =
     (let message_bytes = utf8_encode (dumps (JObj (message_dict m)));
          message_length = length message_bytes in
      if message_length < 2 ^ 32
      then Inr (ljust BUFFER_SIZE 0 (be_bytes 4 message_length @ message_bytes))
      else Inl StructError)"

definition message_deserialize :: "bytes \<Rightarrow> message res" where
  "message_deserialize message_bytes =
     (if length (take 4 message_bytes) < 4 then Inl StructError
      else let message_length = be_value (take 4 message_bytes) in
        rbind (utf8_decode (take message_length (drop 4 message_bytes))) (\<lambda>text.
        rbind (loads text) (\<lambda>message_dict.
        rbind (msg_getitem message_dict ''type'') (\<lambda>t.
        rbind (mt_of t) (\<lambda>msg_type.
        rbind (msg_getitem message_dict ''source'') (\<lambda>source.
          case message_dict of
            JObj d \<Rightarrow> message_init msg_type source (filter (\<lambda>(k, v). k \<notin> {''type'', ''source''}) d)
          | _ \<Rightarrow> Inl AttributeError))))))"

text \<open>Messages whose fields survive the dictionary that \<open>serialize\<close> builds.\<close>

definition wf_message :: "message \<Rightarrow> bool" where
  "wf_message m \<longleftrightarrow> distinct (dict_keys (m_kwargs m)) \<and>
     set (dict_keys (m_kwargs m)) \<inter> {''self'', ''msg_type'', ''source'', ''type''} = {} \<and>
     list_all (\<lambda>(k, v). wf_json v) (m_kwargs m) \<and> wf_json (m_source m)"

definition fits :: "message \<Rightarrow> bool" where
  "fits m \<longleftrightarrow> wf_message m \<and> length (dumps (JObj (message_dict m))) \<le> BUFFER_SIZE - 4"

definition block :: "message \<Rightarrow> bytes" where
  "block m = (case message_serialize m of Inr bs \<Rightarrow> bs | Inl e \<Rightarrow> [])"

lemma message_dict_wf:
  "wf_message m \<Longrightarrow>
     message_dict m = (''type'', JInt (mt_value (m_type m))) # (''source'', m_source m) # m_kwargs m"
  unfolding message_dict_def wf_message_def
  by (subst dict_union_distinct) auto

lemma filter_kwargs: "wf_message m \<Longrightarrow>
    filter (\<lambda>(k, v). k \<noteq> ''type'' \<and> k \<noteq> ''source'') (m_kwargs m) = m_kwargs m"
  by (rule filter_True) (force simp: wf_message_def)

lemma message_init_wf:
  "wf_message m \<Longrightarrow> message_init (m_type m) (m_source m) (m_kwargs m) = Inr m"
proof -
  assume "wf_message m"
  then have "\<not> (\<exists>k \<in> set (dict_keys (m_kwargs m)). k \<in> {''self'', ''msg_type'', ''source''})"
    unfolding wf_message_def by blast
  moreover have "mt_value (m_type m) < int (length all_mt)" by (cases "m_type m") (simp_all add: all_mt_def)
  ultimately show ?thesis by (simp add: message_init_def del: set_map)
qed

lemma deserialize_padded:
  assumes "wf_message m" "message_serialize m = Inr bs"
  shows "message_deserialize (bs @ rest) = Inr m"
proof -
  let ?d = "JObj (message_dict m)"
  let ?n = "length (dumps ?d)"
  have ascii: "length (utf8_encode (dumps ?d)) = ?n" by (simp add: length_utf8_ascii is_ascii_dumps del: dumps.simps)
  have wf: "wf_json ?d" using assms(1) by (auto simp: message_dict_wf wf_message_def)
  have bs: "bs = be_bytes 4 ?n @ utf8_encode (dumps ?d) @ replicate (BUFFER_SIZE - (4 + ?n)) 0"
    and n: "?n < 256 ^ 4"
    using assms(2) ascii by (auto simp: message_serialize_def Let_def ljust_def split: if_splits)
  have head: "length (take 4 (bs @ rest)) = 4" "be_value (take 4 (bs @ rest)) = ?n"
    "take ?n (drop 4 (bs @ rest)) = utf8_encode (dumps ?d)"
    using be_value_be_bytes [OF n] ascii by (simp_all add: bs del: be_bytes.simps dumps.simps)
  have "utf8_decode (utf8_encode (dumps ?d)) = Inr (dumps ?d)" by (simp add: utf8_decode_ascii is_ascii_dumps del: dumps.simps)
  moreover have "msg_getitem ?d ''type'' = Inr (JInt (mt_value (m_type m)))"
    "msg_getitem ?d ''source'' = Inr (m_source m)"
    "filter (\<lambda>(k, v). k \<notin> {''type'', ''source''}) (message_dict m) = m_kwargs m"
    using filter_kwargs [OF assms(1)] by (simp_all add: message_dict_wf [OF assms(1)] dict_index_def)
  ultimately show ?thesis
    using loads_dumps [OF wf] message_init_wf [OF assms(1)]
    unfolding message_deserialize_def Let_def head by simp
qed

section \<open>Reading by blocks\<close>

definition recvall_exn :: "(nat \<Rightarrow> 's \<Rightarrow> bytes \<times> 's) \<Rightarrow> nat \<Rightarrow> 's \<Rightarrow> bytes res \<times> 's" where
  "recvall_exn rcv n sock =
     (case recv_loop rcv n [] sock of
        (None, sock') \<Rightarrow> (Inl (GenericException ''Connection closed before receiving the full message''), sock')
      | (Some data, sock') \<Rightarrow> (Inr data, sock'))"

lemma recvall_exn_enough:
  "n \<le> length (concat sock) \<Longrightarrow>
     \<exists>sock'. recvall_exn tcp_recv n sock = (Inr (take n (concat sock)), sock') \<and>
       concat sock' = drop n (concat sock)"
  using tcp.recv_loop_result [of "[]" n sock] by (auto simp: recvall_exn_def)

lemma recvall_exn_eof:
  "length (concat sock) < n \<Longrightarrow>
     \<exists>e sock'. recvall_exn tcp_recv n sock = (Inl e, sock') \<and> concat sock' = []"
  using tcp.recv_loop_result [of "[]" n sock] by (auto simp: recvall_exn_def)

lemma recvall_exn_shrinks:
  assumes "recvall_exn tcp_recv n sock = (Inr data, sock')" "0 < n"
  shows "length (concat sock') < length (concat sock)"
proof (cases "n \<le> length (concat sock)")
  case True
  then show ?thesis using assms recvall_exn_enough [OF True] by auto
next
  case False
  then show ?thesis using assms recvall_exn_eof [of sock n] by auto
qed

locale fixed_blocks =
  fixes enc :: "'m \<Rightarrow> bytes" and dec :: "bytes \<Rightarrow> 'm res" and ok :: "'m \<Rightarrow> bool" and B :: nat
  assumes B_pos: "0 < B"
    and enc_length: "ok m \<Longrightarrow> length (enc m) = B"
    and dec_enc: "ok m \<Longrightarrow> dec (enc m) = Inr m"
begin

text \<open>A stream of valid blocks is read message by message, whatever its segments.\<close>

lemma read_block:
  assumes "ok m" "concat sock = enc m @ rest"
  obtains data sock' where "recvall_exn tcp_recv B sock = (Inr data, sock')" "dec data = Inr m"
    "concat sock' = rest"
  using recvall_exn_enough [of B sock] assms enc_length dec_enc by auto

lemma read_end:
  assumes "concat sock = []"
  obtains e sock' where "recvall_exn tcp_recv B sock = (Inl e, sock')"
  using recvall_exn_eof [of sock B] assms B_pos by auto

end

lemma block_fits: "fits m \<Longrightarrow> message_serialize m = Inr (block m) \<and> length (block m) = BUFFER_SIZE"
  by (auto simp: fits_def block_def message_serialize_def Let_def ljust_def BUFFER_SIZE_def
      length_utf8_ascii is_ascii_dumps simp del: dumps.simps)

interpretation blk: fixed_blocks block message_deserialize fits BUFFER_SIZE
proof
  fix m assume m: "fits m"
  then show "length (block m) = BUFFER_SIZE" using block_fits by blast
  show "message_deserialize (block m) = Inr m"
    using deserialize_padded [of m "block m" "[]"] block_fits [OF m] m by (auto simp: fits_def)
qed (simp add: BUFFER_SIZE_def)

section \<open>Properties\<close>

text \<open>
  C29. A lab 2 message survives the wire: whatever was sent as one datagram or block, padding
  included, is decoded to the message that was encoded, provided its keywords do not collide with
  the field names.
\<close>

theorem message_roundtrip:
  assumes "wf_message m" and "message_serialize m = Inr bs"
  shows "message_deserialize bs = Inr m"
  using deserialize_padded [OF assms, of "[]"] by simp

theorem message_roundtrip_witness:
  "message_deserialize (block \<lparr>m_type = DONE, m_source = JStr ''Mapper_0'', m_kwargs = [(''n'', JInt 1)]\<rparr>) =
     Inr \<lparr>m_type = DONE, m_source = JStr ''Mapper_0'', m_kwargs = [(''n'', JInt 1)]\<rparr>"
proof (rule message_roundtrip)
  let ?m = "\<lparr>m_type = DONE, m_source = JStr ''Mapper_0'', m_kwargs = [(''n'', JInt 1)]\<rparr>"
  show "wf_message ?m" by (simp add: wf_message_def)
  have "length (dumps (JObj (message_dict ?m))) = 41" by code_simp
  then show "message_serialize ?m = Inr (block ?m)"
    using block_fits [of ?m] by (simp add: fits_def wf_message_def BUFFER_SIZE_def)
qed

end
