(* ===== verification/WordCount.thy ===== *)
theory WordCount
  imports WordMessage
begin

text \<open>
  The word count of lab 2: the mapper (\<open>mapper.py\<close>), the reducer (\<open>reducer.py\<close>), the
  distribution of the files over the streams (\<open>main.py\<close>), the sequential count
  (\<open>seq.py\<close>) and the comparison of the two (\<open>checker.py\<close>). Not under src/ and
  therefore parameters: \<open>xread\<close>, Redis' answer to XREAD with count 1, and
  \<open>read_csv\<close>, the text column of a file. The handlers of the checkpoint and recovery commands
  are empty in the source and do nothing here. File names and texts are strings.
\<close>

section \<open>The mapper\<close>

text \<open>
  \<open>sent\<close> holds, per reducer socket, the bytes written to it; \<open>to_coordinator\<close> the messages sent.
  A stream id is of any type \<open>'id\<close>.
\<close>

record 'id mapper_state =
  ms_id :: string
  ms_last_stream_id :: 'id
  ms_last_recovery_id :: int
  ms_last_cp_id :: int
  ms_is_wc_done :: bool
  ms_sent :: "bytes list"
  ms_to_coordinator :: "message list"
  ms_alive :: bool

definition mapper_init :: "nat \<Rightarrow> 'id \<Rightarrow> nat \<Rightarrow> 'id mapper_state" where
  "mapper_init idx zero reducers =
     \<lparr>ms_id = ''Mapper_'' @ digits idx, ms_last_stream_id = zero, ms_last_recovery_id = 0, ms_last_cp_id = 0,
      ms_is_wc_done = False, ms_sent = replicate reducers [], ms_to_coordinator = [], ms_alive = True\<rparr>"

definition word_2_socket :: "nat \<Rightarrow> string \<Rightarrow> nat res" where
  "word_2_socket sockets word =
     (case word of
        [] \<Rightarrow> Inl IndexError
      | c # cs \<Rightarrow>
          let r = (if (of_char c :: nat) < of_char (CHR ''m'') then 0 else 1) in
          if r < sockets then Inr r else Inl IndexError)"

definition wc_message :: "string \<Rightarrow> int \<Rightarrow> string \<Rightarrow> int \<Rightarrow> message" where
  "wc_message src recovery_id word n =
     \<lparr>m_type = WORD_COUNT, m_source = JStr src,
      m_kwargs = [(''key'', JStr word), (''value'', JInt n), (''last_recovery_id'', JInt recovery_id)]\<rparr>"

text \<open>
  The loop over \<open>word_counts.items()\<close>. \<open>broken i\<close> says that the socket to reducer \<open>i\<close> fails.
  An exception leaves the loop, what was sent before it stays sent.
\<close>

fun send_counts ::
  "(nat \<Rightarrow> bool) \<Rightarrow> string \<Rightarrow> int \<Rightarrow> (string \<times> int) list \<Rightarrow> bytes list \<Rightarrow> unit res \<times> bytes list" where
  "send_counts broken src rid [] sent = (Inr (), sent)"
| "send_counts broken src rid ((word, n) # items) sent =
     (case rbind (word_2_socket (length sent) word) (\<lambda>r.
           rbind (message_serialize (wc_message src rid word n)) (\<lambda>bs. Inr (r, bs))) of
        Inl e \<Rightarrow> (Inl e, sent)
      | Inr (r, bs) \<Rightarrow>
          if broken r then (Inl (GenericException ''send''), sent)
          else send_counts broken src rid items (sent[r := sent ! r @ bs]))"

text \<open>\<open>' '.join(df['text'])\<close> raises when a cell is not a string (an empty cell is NaN).\<close>

definition all_text :: "string option list \<Rightarrow> string res" where
  "all_text cells =
     rbind (rmap (\<lambda>c. case c of None \<Rightarrow> Inl TypeError | Some s \<Rightarrow> Inr s) cells)
       (\<lambda>texts. Inr (join '' '' texts))"

definition word_count ::
  "('id \<Rightarrow> ('id \<times> string) option) \<Rightarrow> (string \<Rightarrow> string option list res) \<Rightarrow> (nat \<Rightarrow> bool) \<Rightarrow>
     'id mapper_state \<Rightarrow> 'id mapper_state" where
  "word_count xread read_csv broken st =
     (case xread (ms_last_stream_id st) of
        None \<Rightarrow> st\<lparr>ms_is_wc_done := True,
                  ms_to_coordinator := ms_to_coordinator st @ [\<lparr>m_type = DONE, m_source = JStr (ms_id st), m_kwargs = []\<rparr>]\<rparr>
      | Some (message_id, filepath) \<Rightarrow>
          (case rbind (read_csv filepath) all_text of
             Inl e \<Rightarrow> st
           | Inr text \<Rightarrow>
               (case send_counts broken (ms_id st) (ms_last_recovery_id st) (counter (split_space text)) (ms_sent st) of
                  (Inl e, sent) \<Rightarrow> st\<lparr>ms_sent := sent\<rparr>
                | (Inr _, sent) \<Rightarrow> st\<lparr>ms_sent := sent, ms_last_stream_id := message_id\<rparr>)))"

datatype mapper_cmd = Checkpoint json json | Recover json json | Exit

text \<open>\<open>MapperState.checkpoint\<close>: the file written and the new state.\<close>

definition mapper_checkpoint ::
  "('id \<Rightarrow> string) \<Rightarrow> int \<Rightarrow> 'id mapper_state \<Rightarrow> (string \<times> string) \<times> 'id mapper_state" where
  "mapper_checkpoint show_id checkpoint_id st =
     ((''checkpoints/'' @ ms_id st @ ''_'' @ dumps_int checkpoint_id @ ''.txt'',
       show_id (ms_last_stream_id st) @ [CHR 0x0A]),
      st\<lparr>ms_last_cp_id := checkpoint_id\<rparr>)"

definition mapper_recover :: "int \<Rightarrow> 'id mapper_state \<Rightarrow> 'id mapper_state" where
  "mapper_recover recovery_id st = st\<lparr>ms_last_recovery_id := recovery_id\<rparr>"

fun mapper_handle :: "mapper_cmd \<Rightarrow> 'id mapper_state \<Rightarrow> 'id mapper_state" where
  "mapper_handle (Checkpoint checkpoint_id recovery_id) st = st"
| "mapper_handle (Recover checkpoint_id recovery_id) st = st"
| "mapper_handle Exit st = st\<lparr>ms_sent := [], ms_alive := False\<rparr>"

text \<open>One iteration of \<open>CmdHandler.run\<close>; \<open>None\<close> when it blocks on the empty queue.\<close>

definition mapper_iteration ::
  "('id \<Rightarrow> ('id \<times> string) option) \<Rightarrow> (string \<Rightarrow> string option list res) \<Rightarrow> (nat \<Rightarrow> bool) \<Rightarrow>
     mapper_cmd list \<Rightarrow> 'id mapper_state \<Rightarrow> (mapper_cmd list \<times> 'id mapper_state) option" where
  "mapper_iteration xread read_csv broken q st =
     (case q of
        cmd # q' \<Rightarrow> Some (q', mapper_handle cmd st)
      | [] \<Rightarrow> if ms_is_wc_done st then None else Some ([], word_count xread read_csv broken st))"

text \<open>\<open>handle_coordinator\<close>: what a datagram puts into the queue; exceptions are logged.\<close>

definition mapper_handle_datagram :: "bytes \<Rightarrow> mapper_cmd list" where
  "mapper_handle_datagram response =
     (case message_deserialize (take 1024 response) of
        Inl e \<Rightarrow> []
      | Inr m \<Rightarrow>
          if m_type m = CHECKPOINT \<or> m_type m = RECOVER then
            (case rbind (dict_index (m_kwargs m) ''recovery_id'') (\<lambda>r.
                  rbind (dict_index (m_kwargs m) ''checkpoint_id'') (\<lambda>c. Inr (r, c))) of
               Inl e \<Rightarrow> []
             | Inr (r, c) \<Rightarrow> [(if m_type m = CHECKPOINT then Checkpoint else Recover) c r])
          else if m_type m = EXIT then [Exit] else [])"

section \<open>The reducer\<close>

text \<open>Keys of \<open>wc\<close> are whatever JSON value the message had under \<open>key\<close>.\<close>

record reducer_state =
  rs_id :: string
  rs_wc :: "(json, int) dict"
  rs_last_recovery_id :: int
  rs_last_cp_id :: int

definition reducer_init :: "nat \<Rightarrow> reducer_state" where
  "reducer_init idx = \<lparr>rs_id = ''Reducer_'' @ digits idx, rs_wc = [], rs_last_recovery_id = 0, rs_last_cp_id = 0\<rparr>"

text \<open>\<open>ReducerState.recover\<close>.\<close>

definition reducer_recover :: "int \<Rightarrow> reducer_state \<Rightarrow> reducer_state" where
  "reducer_recover recovery_id st = st\<lparr>rs_last_recovery_id := recovery_id\<rparr>"

datatype reducer_cmd = WC json json json | CPMarker json json | RRecover json json | RExit

text \<open>\<open>cmd.handle(state)\<close>; an exception makes the handler thread kill the process.\<close>

fun reducer_handle :: "reducer_cmd \<Rightarrow> reducer_state \<Rightarrow> reducer_state res" where
  "reducer_handle (WC word n recovery_id) st =
     (if py_int recovery_id = Some (rs_last_recovery_id st) then
        rbind (hash_key word) (\<lambda>k.
          case py_int n of
            None \<Rightarrow> Inl TypeError
          | Some i \<Rightarrow> Inr (st\<lparr>rs_wc := bump (rs_wc st) k i\<rparr>))
      else Inr st)"
| "reducer_handle (CPMarker checkpoint_id recovery_id) st = Inr st"
| "reducer_handle (RRecover recovery_id checkpoint_id) st = Inr st"
| "reducer_handle RExit st = Inl ProcessKilled"

fun reducer_run :: "reducer_cmd list \<Rightarrow> reducer_state \<Rightarrow> reducer_state res" where
  "reducer_run [] st = Inr st"
| "reducer_run (cmd # cmds) st = rbind (reducer_handle cmd st) (reducer_run cmds)"

text \<open>\<open>handle_coordinator\<close>: what a datagram puts into the queue; exceptions are logged.\<close>

definition reducer_handle_datagram :: "bytes \<Rightarrow> reducer_cmd list" where
  "reducer_handle_datagram response =
     (case message_deserialize (take 1024 response) of
        Inl e \<Rightarrow> []
      | Inr m \<Rightarrow>
          if m_type m = EXIT then [RExit]
          else if m_type m = RECOVER then
            (case rbind (dict_index (m_kwargs m) ''checkpoint_id'') (\<lambda>c.
                  rbind (dict_index (m_kwargs m) ''recovery_id'') (\<lambda>r. Inr (c, r))) of
               Inl e \<Rightarrow> []
             | Inr (c, r) \<Rightarrow> [RRecover r c])
          else [])"

text \<open>
  \<open>handle_mappers\<close>: the commands that the thread serving one mapper's connection puts into
  the queue until the connection ends or an exception leaves the loop.
\<close>

definition kwargs_get :: "message \<Rightarrow> string \<Rightarrow> json" where
  "kwargs_get m k = (case dict_get (m_kwargs m) k of None \<Rightarrow> JNull | Some v \<Rightarrow> v)"

definition mapper_block_cmds :: "message \<Rightarrow> reducer_cmd list res" where
  "mapper_block_cmds m =
     (if m_type m = FWD_CHECKPOINT then Inr []
      else rbind (py_assert (m_type m = WORD_COUNT) '''') (\<lambda>_.
        Inr [WC (kwargs_get m ''key'') (kwargs_get m ''value'') (kwargs_get m ''last_recovery_id'')]))"

function handle_mappers :: "socket \<Rightarrow> reducer_cmd list" where
  "handle_mappers sock =
     (case recvall_exn tcp_recv 1024 sock of
        (Inl e, sock') \<Rightarrow> []
      | (Inr data, sock') \<Rightarrow>
          (case rbind (message_deserialize data) mapper_block_cmds of
             Inl e \<Rightarrow> []
           | Inr cmds \<Rightarrow> cmds @ handle_mappers sock'))"
  by pat_completeness auto
termination
  by (relation "measure (\<lambda>sock. length (concat sock))") (auto dest: recvall_exn_shrinks [OF sym])

declare handle_mappers.simps [simp del]

text \<open>\<open>ReducerState.checkpoint\<close>; \<open>json.dump\<close> turns keys that are not strings into strings.\<close>

fun key_text :: "json \<Rightarrow> string" where
  "key_text (JStr s) = s"
| "key_text j = dumps j"

definition checkpoint_text :: "reducer_state \<Rightarrow> string" where
  "checkpoint_text st = dumps (JObj (map (\<lambda>(k, n). (key_text k, JInt n)) (rs_wc st)))"

definition reducer_checkpoint :: "int \<Rightarrow> reducer_state \<Rightarrow> (string \<times> string) \<times> reducer_state" where
  "reducer_checkpoint checkpoint_id st =
     ((''checkpoints/'' @ rs_id st @ ''_'' @ dumps_int checkpoint_id @ ''.txt'', checkpoint_text st),
      st\<lparr>rs_last_cp_id := checkpoint_id\<rparr>)"

section \<open>The reference count and the checker\<close>

text \<open>\<open>rows\<close> are the text cells of all files, in the order they are read.\<close>

definition seq_counts :: "string list \<Rightarrow> (string, int) dict" where
  "seq_counts rows = fold (\<lambda>text c. counter_update c (split_ws text)) rows []"

definition seq_text :: "string list \<Rightarrow> string" where
  "seq_text rows = dumps (JObj (map (\<lambda>(w, n). (w, JInt n)) (seq_counts rows)))"

text \<open>Python's \<open>==\<close> on JSON values.\<close>

lemma size_member:
  "(k, v) \<in> set d \<Longrightarrow> size v < size (JObj d)"
  "x \<in> set xs \<Longrightarrow> size x < size (JArr xs)"
  by (induction d, auto, induction xs, auto)

function py_eq :: "json \<Rightarrow> json \<Rightarrow> bool" where
  "py_eq (JObj d) (JObj d') =
     (length d = length d' \<and>
      list_all (\<lambda>(k, v). list_ex (\<lambda>(k', v'). k' = k \<and> py_eq v v') d') d)"
| "py_eq (JArr xs) (JArr ys) = (length xs = length ys \<and> list_all (\<lambda>(x, y). py_eq x y) (zip xs ys))"
| "py_eq (JStr s) j = (j = JStr s)"
| "py_eq JNull j = (j = JNull)"
| "py_eq (JInt i) j = (py_int j = Some i)"
| "py_eq (JBool b) j = (py_int j = Some (if b then 1 else 0))"
| "py_eq (JObj d) (JArr ys) = False"
| "py_eq (JObj d) (JStr s) = False"
| "py_eq (JObj d) (JInt i) = False"
| "py_eq (JObj d) (JBool b) = False"
| "py_eq (JObj d) JNull = False"
| "py_eq (JArr xs) (JObj d) = False"
| "py_eq (JArr xs) (JStr s) = False"
| "py_eq (JArr xs) (JInt i) = False"
| "py_eq (JArr xs) (JBool b) = False"
| "py_eq (JArr xs) JNull = False"
  by pat_completeness auto
termination
  by (relation "measure (\<lambda>(j, j'). size j)")
    (auto dest: set_zip_leftD simp: size_member simp del: json.size)

text \<open>\<open>r1 | r2\<close>: dictionaries are merged, numbers combined bitwise, other values raise.\<close>

fun py_or :: "json \<Rightarrow> json \<Rightarrow> json res" where
  "py_or (JObj d1) (JObj d2) = Inr (JObj (dict_union d1 d2))"
| "py_or (JBool a) (JBool b) = Inr (JBool (a \<or> b))"
| "py_or (JInt a) (JInt b) = Inr (JInt (or a b))"
| "py_or (JInt a) (JBool b) = Inr (JInt (or a (of_bool b)))"
| "py_or (JBool a) (JInt b) = Inr (JInt (or (of_bool a) b))"
| "py_or _ _ = Inl TypeError"

definition checker :: "string option \<Rightarrow> string option \<Rightarrow> string option \<Rightarrow> string res" where
  "checker f1 f2 seq_file =
     (case (f1, f2) of
        (Some r1, Some r2) \<Rightarrow>
          rbind (loads r1) (\<lambda>r1. rbind (loads r2) (\<lambda>r2. rbind (py_or r1 r2) (\<lambda>r.
            case seq_file of
              None \<Rightarrow> Inr ''NOSEQ''
            | Some text \<Rightarrow> rbind (loads text) (\<lambda>correct.
                Inr (if py_eq r correct then ''CORRECT'' else ''INCORRECT'')))))
      | _ \<Rightarrow> Inr ''INCORRECT'')"

text \<open>The checker handed out with the lab: a missing file raises.\<close>

definition open_read :: "string option \<Rightarrow> string res" where
  "open_read f = (case f of None \<Rightarrow> Inl FileNotFoundError | Some text \<Rightarrow> Inr text)"

definition lab_checker :: "string option \<Rightarrow> string option \<Rightarrow> string option \<Rightarrow> string res" where
  "lab_checker f1 f2 seq_file =
     rbind (open_read f1) (\<lambda>r1. rbind (open_read f2) (\<lambda>r2.
     rbind (loads r1) (\<lambda>r1. rbind (loads r2) (\<lambda>r2. rbind (py_or r1 r2) (\<lambda>r.
     rbind (open_read seq_file) (\<lambda>text. rbind (loads text) (\<lambda>correct.
       Inr (if py_eq r correct then ''CORRECT'' else ''INCORRECT''))))))))"

lemma lab_checker_eq: "lab_checker (Some r1) (Some r2) (Some text) = checker (Some r1) (Some r2) (Some text)"
  by (simp add: lab_checker_def checker_def open_read_def)

section \<open>Distribution of the files\<close>

text \<open>The loop of \<open>main.py\<close>: file number \<open>j\<close> goes to stream \<open>j mod mappers\<close> under the id \<open>j\<close>.\<close>

fun distribute :: "nat \<Rightarrow> nat \<Rightarrow> string list \<Rightarrow> (nat \<times> string) list list \<Rightarrow> (nat \<times> string) list list" where
  "distribute mappers j [] streams = streams"
| "distribute mappers j (file # files) streams =
     distribute mappers (j + 1) files
       (streams[j mod mappers := streams ! (j mod mappers) @ [(j, file)]])"

definition NUM_MAPPERS :: nat where "NUM_MAPPERS = 2"
definition NUM_REDUCERS :: nat where "NUM_REDUCERS = 2"

definition streams_of :: "string list \<Rightarrow> (nat \<times> string) list list" where
  "streams_of files = distribute NUM_MAPPERS 1 files (replicate NUM_MAPPERS [])"

end
