(* ===== verification/Tally.thy ===== *)
theory Tally
  imports Prelude
begin

text \<open>
  Lemmas shared by the word counts of the repository: what a list of increments adds to
  each key of a dictionary, and Python's sort by descending key.
\<close>

section \<open>Tallies\<close>

text \<open>What a list of increments adds to a key; the order of the list does not matter.\<close>

definition tally :: "('k \<times> int) list \<Rightarrow> 'k \<Rightarrow> int" where
  "tally items k = sum_list (map snd (filter (\<lambda>(k', n). k' = k) items))"

definition bump_all :: "('k, int) dict \<Rightarrow> ('k \<times> int) list \<Rightarrow> ('k, int) dict" where
  "bump_all d items = fold (\<lambda>(k, n) d. bump d k n) items d"

lemma tally_simps [simp]:
  "tally [] k = 0"
  "tally ((k', n) # items) k = (if k' = k then n else 0) + tally items k"
  "tally (items @ items') k = tally items k + tally items' k"
  by (simp_all add: tally_def)

lemma tally_perm: "mset items = mset items' \<Longrightarrow> tally items k = tally items' k"
proof -
  have "tally items k = sum_mset (image_mset snd (filter_mset (\<lambda>(k', n). k' = k) (mset items)))" for items
    by (induction items) auto
  then show "mset items = mset items' \<Longrightarrow> tally items k = tally items' k" by simp
qed

lemma tally_absent: "k \<notin> fst ` set items \<Longrightarrow> tally items k = 0"
  by (induction items) auto

lemma tally_filter: "tally (filter (\<lambda>(w, n). P w) items) k = (if P k then tally items k else 0)"
  by (induction items) auto

lemma bump_all_simps [simp]:
  "bump_all d [] = d"
  "bump_all d ((k, n) # items) = bump_all (bump d k n) items"
  by (simp_all add: bump_all_def)

lemma map_of_bump_all:
  "map_of (bump_all d items) k =
     (if k \<in> fst ` set items then Some ((case map_of d k of None \<Rightarrow> 0 | Some c \<Rightarrow> c) + tally items k)
      else map_of d k)"
proof (induction items arbitrary: d)
  case (Cons p items)
  obtain k' n where p: "p = (k', n)" by fastforce
  show ?case
  proof (cases "k \<in> fst ` set items")
    case True
    then show ?thesis by (simp add: Cons map_of_bump p)
  next
    case False
    then show ?thesis by (auto simp: Cons map_of_bump p tally_absent)
  qed
qed simp

lemma distinct_bump_all: "distinct (dict_keys d) \<Longrightarrow> distinct (dict_keys (bump_all d items))"
  by (induction items arbitrary: d) auto

lemma keys_bump_all: "fst ` set (bump_all d items) = fst ` set d \<union> fst ` set items"
proof (induction items arbitrary: d)
  case (Cons p items)
  then show ?case by (cases p) simp
qed simp

lemma tally_distinct: "distinct (dict_keys d) \<Longrightarrow> tally d k = (case map_of d k of None \<Rightarrow> 0 | Some n \<Rightarrow> n)"
proof (induction d)
  case (Cons p d)
  obtain k' n where "p = (k', n)" by fastforce
  then show ?case using Cons by (auto simp: tally_absent)
qed simp

lemma tally_counter: "tally (counter xs) k = int (count_list xs k)"
  by (simp add: tally_distinct map_of_counter split: option.split)

lemma map_of_bump_all_Nil:
  "map_of (bump_all [] items) k = (if k \<in> fst ` set items then Some (tally items k) else None)"
  by (simp add: map_of_bump_all)

lemma tally_ones: "tally (map (\<lambda>x. (x, 1)) xs) k = int (count_list xs k)"
  by (induction xs) auto

section \<open>Sorting in descending order\<close>

text \<open>\<open>sorted(xs, key=key, reverse=True)\<close>: the order of equal elements is kept.\<close>

definition sorted_desc :: "('a \<Rightarrow> int) \<Rightarrow> 'a list \<Rightarrow> 'a list" where
  "sorted_desc key xs = sort_key (\<lambda>x. - key x) xs"

lemma sorted_desc_perm [simp]: "mset (sorted_desc key xs) = mset xs"
  by (simp add: sorted_desc_def)

lemma set_sorted_desc [simp]: "set (sorted_desc key xs) = set xs"
  by (simp add: sorted_desc_def)

lemma distinct_sorted_desc [simp]: "distinct (sorted_desc key xs) = distinct xs"
  by (simp add: sorted_desc_def)

lemma length_sorted_desc [simp]: "length (sorted_desc key xs) = length xs"
  by (simp add: sorted_desc_def)

lemma sorted_desc_sorted: "sorted_wrt (\<lambda>x y. key y \<le> key x) (sorted_desc key xs)"
proof -
  have "sorted (map (\<lambda>x. - key x) (sorted_desc key xs))" by (simp add: sorted_desc_def)
  then show ?thesis by (simp add: sorted_map)
qed

end
