(* ===== verification/WordCountRun.thy ===== *)
theory WordCountRun
  imports WordCount Tally
begin

text \<open>
  The lab 2 job as a whole: from the files through the mappers, the blocks on the
  connections and the reducers' command queues to the verdict of the checker, which is
  CORRECT for every interleaving of the mappers' commands and every segmentation of the
  connections; and two inputs on which the job fails.
\<close>

section \<open>Tokens\<close>

lemma split_by_append:
  "p c \<Longrightarrow> split_by p (s @ c # t) = split_by p s @ split_by p t"
  by (induction s) simp_all

lemma split_space_join:
  "texts \<noteq> [] \<Longrightarrow> split_space (join '' '' texts) = concat (map split_space texts)"
  by (induction texts rule: induct_list012) (simp_all add: split_space_def split_by_append)

lemma split_ws_nonempty: "[] \<notin> set (split_ws s)"
  by (simp add: split_ws_def)

lemma count_concat: "count_list (concat xss) x = sum_list (map (\<lambda>xs. count_list xs x) xss)"
  by (induction xss) simp_all

lemma seq_counts_counter: "seq_counts rows = counter (concat (map split_ws rows))"
proof -
  have "fold (\<lambda>text c. counter_update c (split_ws text)) rows d = counter_update d (concat (map split_ws rows))" for d
    by (induction rows arbitrary: d) (simp_all add: counter_update_append)
  then show ?thesis by (simp add: seq_counts_def counter_def)
qed

section \<open>Sending\<close>

text \<open>What an iteration writes does not depend on what was written before.\<close>

lemma send_counts_delta:
  "\<exists>res pre. length pre = k \<and>
     (\<forall>sent. length sent = k \<longrightarrow> send_counts broken src rid items sent = (res, map2 (@) sent pre))"
proof (induction items)
  case Nil
  have "length sent = k \<longrightarrow> map2 (@) sent (replicate k []) = sent" for sent :: "bytes list"
    by (auto intro!: nth_equalityI)
  then show ?case by (intro exI [of _ "Inr ()"] exI [of _ "replicate k []"]) simp
next
  case (Cons p items)
  obtain word n where p: "p = (word, n)" by fastforce
  have stop: ?case if "\<And>sent. length sent = k \<Longrightarrow> send_counts broken src rid (p # items) sent = (Inl e, sent)" for e
  proof -
    have "length sent = k \<longrightarrow> map2 (@) sent (replicate k []) = sent" for sent :: "bytes list"
      by (auto intro!: nth_equalityI)
    with that show ?thesis by (intro exI [of _ "Inl e"] exI [of _ "replicate k []"]) simp
  qed
  obtain res pre where IH: "length pre = k"
    "\<And>sent. length sent = k \<Longrightarrow> send_counts broken src rid items sent = (res, map2 (@) sent pre)"
    using Cons.IH by blast
  show ?case
  proof (cases "rbind (word_2_socket k word) (\<lambda>r.
      rbind (message_serialize (wc_message src rid word n)) (\<lambda>bs. Inr (r, bs)))")
    case (Inl e)
    then show ?thesis by (intro stop [of e]) (simp add: p)
  next
    case (Inr rb)
    obtain r bs where rb: "rb = (r, bs)" by fastforce
    show ?thesis
    proof (cases "broken r")
      case True
      with Inr rb show ?thesis by (intro stop [of "GenericException ''send''"]) (simp add: p)
    next
      case False
      have "map2 (@) (sent[r := sent ! r @ bs]) pre = map2 (@) sent (pre[r := bs @ pre ! r])"
        if "length sent = k" for sent
      proof (rule nth_equalityI)
        fix i assume "i < length (map2 (@) (sent[r := sent ! r @ bs]) pre)"
        then show "map2 (@) (sent[r := sent ! r @ bs]) pre ! i = map2 (@) sent (pre[r := bs @ pre ! r]) ! i"
          using that IH(1) by (cases "i = r") auto
      qed (use that IH(1) in simp)
      with False Inr rb IH show ?thesis
        by (intro exI [of _ res] exI [of _ "pre[r := bs @ pre ! r]"]) (simp add: p)
    qed
  qed
qed

definition route :: "string \<Rightarrow> nat" where
  "route w = (if (of_char (hd w) :: nat) < of_char (CHR ''m'') then 0 else 1)"

lemma route_bound: "route w < 2"
  by (simp add: route_def)

lemma word_2_socket_route: "w \<noteq> [] \<Longrightarrow> word_2_socket 2 w = Inr (route w)"
  by (cases w) (simp_all add: word_2_socket_def route_def)

definition blocks :: "string \<Rightarrow> int \<Rightarrow> nat \<Rightarrow> (string \<times> int) list \<Rightarrow> bytes" where
  "blocks src rid r items =
     concat (map (\<lambda>(w, n). block (wc_message src rid w n)) (filter (\<lambda>(w, n). route w = r) items))"

lemma blocks_append [simp]: "blocks src rid r (xs @ ys) = blocks src rid r xs @ blocks src rid r ys"
  by (simp add: blocks_def)

text \<open>On sockets that work, all items are sent, each to the reducer of its word.\<close>

lemma send_counts_all:
  assumes "\<And>w n. (w, n) \<in> set items \<Longrightarrow> w \<noteq> [] \<and> fits (wc_message src rid w n) \<and> \<not> broken (route w)" "length sent = 2"
  shows "send_counts broken src rid items sent =
    (Inr (), map (\<lambda>r. sent ! r @ blocks src rid r items) [0, 1])"
  using assms
proof (induction items arbitrary: sent)
  case Nil
  then show ?case by (auto simp: blocks_def numeral_2_eq_2 length_Suc_conv)
next
  case (Cons p items)
  obtain w n where p: "p = (w, n)" by fastforce
  have ok: "w \<noteq> []" "message_serialize (wc_message src rid w n) = Inr (block (wc_message src rid w n))" "\<not> broken (route w)"
    using Cons.prems(1) [of w n] block_fits by (auto simp: p)
  have "send_counts broken src rid (p # items) sent =
    send_counts broken src rid items (sent[route w := sent ! route w @ block (wc_message src rid w n)])"
    using ok Cons.prems(2) by (simp add: p word_2_socket_route)
  also have "\<dots> = (Inr (), map (\<lambda>r. sent[route w := sent ! route w @ block (wc_message src rid w n)] ! r @
      blocks src rid r items) [0, 1])"
    using Cons.prems by (intro Cons.IH) auto
  also have "\<dots> = (Inr (), map (\<lambda>r. sent ! r @ blocks src rid r (p # items)) [0, 1])"
    using route_bound [of w] Cons.prems(2) by (auto simp: blocks_def p nth_list_update less_2_cases_iff)
  finally show ?case .
qed

text \<open>A word without a first letter stops the loop.\<close>

lemma send_counts_poison:
  "[] \<in> fst ` set items \<Longrightarrow> \<exists>e. fst (send_counts broken src rid items sent) = Inl e"
proof (induction items arbitrary: sent)
  case (Cons p items)
  show ?case
  proof (cases "fst p = []")
    case True
    then show ?thesis by (cases p) (simp add: word_2_socket_def)
  next
    case False
    then show ?thesis using Cons by (cases p) (auto split: sum.split)
  qed
qed simp

lemma send_counts_append:
  "send_counts broken src rid (xs @ ys) sent =
     (case send_counts broken src rid xs sent of
        (Inl e, sent') \<Rightarrow> (Inl e, sent') | (Inr _, sent') \<Rightarrow> send_counts broken src rid ys sent')"
  by (induction xs arbitrary: sent) (auto split: sum.split)

text \<open>A socket that fails stops it too; what was sent before stays sent.\<close>

lemma send_counts_broken:
  assumes "\<And>w' n'. (w', n') \<in> set pre \<Longrightarrow> w' \<noteq> [] \<and> fits (wc_message src rid w' n') \<and> \<not> broken (route w')" "length sent = 2"
    and "w \<noteq> []" "fits (wc_message src rid w n)" "broken (route w)"
  shows "send_counts broken src rid (pre @ (w, n) # post) sent =
    (Inl (GenericException ''send''), map (\<lambda>r. sent ! r @ blocks src rid r pre) [0, 1])"
  using assms(3-5) block_fits [OF assms(4)]
  by (simp add: send_counts_append send_counts_all [OF assms(1,2)] word_2_socket_route [unfolded numeral_2_eq_2])

section \<open>A mapper's run\<close>

text \<open>Redis as the mapper sees it: each entry of the stream is the answer to the id before it.\<close>

fun stream_reads :: "('id \<Rightarrow> ('id \<times> string) option) \<Rightarrow> 'id \<Rightarrow> ('id \<times> string) list \<Rightarrow> bool" where
  "stream_reads xread frm [] = (xread frm = None)"
| "stream_reads xread frm ((i, f) # es) = (xread frm = Some (i, f) \<and> stream_reads xread i es)"

definition file_items :: "string list \<Rightarrow> (string \<times> int) list" where
  "file_items texts = counter (split_space (join '' '' texts))"

definition items_of :: "(string \<Rightarrow> string list) \<Rightarrow> ('i \<times> string) list \<Rightarrow> (string \<times> int) list" where
  "items_of texts es = concat (map (\<lambda>(i, f). file_items (texts f)) es)"

text \<open>
  A file whose words the mapper can send: its cells are strings, splitting them at single spaces
  and at white space is the same, and every message fits into a block.
\<close>

definition sendable :: "(string \<Rightarrow> string option list res) \<Rightarrow> (string \<Rightarrow> string list) \<Rightarrow> string \<Rightarrow> string \<Rightarrow> bool" where
  "sendable read_csv texts src f \<longleftrightarrow>
     read_csv f = Inr (map Some (texts f)) \<and> texts f \<noteq> [] \<and>
     list_all (\<lambda>t. split_ws t = split_space t) (texts f) \<and>
     list_all (\<lambda>(w, n). fits (wc_message src 0 w n)) (file_items (texts f))"

lemma all_text_strings: "all_text (map Some texts) = Inr (join '' '' texts)"
proof -
  have "rmap (\<lambda>c. case c of None \<Rightarrow> Inl TypeError | Some s \<Rightarrow> Inr s) (map Some texts) = Inr texts"
    by (induction texts) simp_all
  then show ?thesis by (simp add: all_text_def)
qed

lemma sendable_tokens:
  assumes "sendable read_csv texts src f"
  shows "split_space (join '' '' (texts f)) = concat (map split_ws (texts f))"
proof -
  have eq: "map split_space (texts f) = map split_ws (texts f)" and "texts f \<noteq> []"
    using assms by (simp_all add: sendable_def list_all_iff)
  then show ?thesis by (simp add: split_space_join eq)
qed

lemma sendable_item:
  assumes "sendable read_csv texts src f" "(w, n) \<in> set (file_items (texts f))"
  shows "w \<noteq> [] \<and> fits (wc_message src 0 w n)"
proof
  have "w \<in> fst ` set (file_items (texts f))" using assms(2) by force
  then have "w \<in> set (concat (map split_ws (texts f)))"
    unfolding file_items_def sendable_tokens [OF assms(1)] by (simp only: keys_counter)
  then show "w \<noteq> []" using split_ws_nonempty by auto
  show "fits (wc_message src 0 w n)" using assms by (auto simp: sendable_def list_all_iff)
qed

lemma word_count_sendable:
  assumes "xread (ms_last_stream_id st) = Some (i, f)" "sendable read_csv texts (ms_id st) f"
    "length (ms_sent st) = 2" "ms_last_recovery_id st = 0"
  shows "word_count xread read_csv (\<lambda>_. False) st =
    st\<lparr>ms_sent := map (\<lambda>r. ms_sent st ! r @ blocks (ms_id st) 0 r (file_items (texts f))) [0, 1],
       ms_last_stream_id := i\<rparr>"
proof -
  have "w \<noteq> [] \<and> fits (wc_message (ms_id st) 0 w n) \<and> \<not> False" if "(w, n) \<in> set (file_items (texts f))" for w n
    using sendable_item [OF assms(2) that] by simp
  from send_counts_all [OF this assms(3)] show ?thesis
    using assms by (simp add: word_count_def sendable_def all_text_strings file_items_def)
qed

definition done_message :: "string \<Rightarrow> message" where
  "done_message src = \<lparr>m_type = DONE, m_source = JStr src, m_kwargs = []\<rparr>"

text \<open>One call for every entry of the stream and one that finds its end.\<close>

definition reads_all ::
  "('id \<Rightarrow> ('id \<times> string) option) \<Rightarrow> (string \<Rightarrow> string option list res) \<Rightarrow> ('id \<times> string) list \<Rightarrow>
     'id mapper_state \<Rightarrow> 'id mapper_state" where
  "reads_all xread read_csv es st = (word_count xread read_csv (\<lambda>_. False) ^^ Suc (length es)) st"

lemma mapper_consumes:
  assumes "stream_reads xread (ms_last_stream_id st) es"
    "\<And>i f. (i, f) \<in> set es \<Longrightarrow> sendable read_csv texts (ms_id st) f"
    "length (ms_sent st) = 2" "ms_last_recovery_id st = 0"
  shows "ms_is_wc_done (reads_all xread read_csv es st) \<and>
    ms_to_coordinator (reads_all xread read_csv es st) = ms_to_coordinator st @ [done_message (ms_id st)] \<and>
    ms_sent (reads_all xread read_csv es st) = map (\<lambda>r. ms_sent st ! r @ blocks (ms_id st) 0 r (items_of texts es)) [0, 1]"
  using assms
proof (induction es arbitrary: st)
  case Nil
  then show ?case
    by (auto simp: reads_all_def word_count_def blocks_def items_of_def done_message_def numeral_2_eq_2 length_Suc_conv)
next
  case (Cons e es)
  obtain i f where e: "e = (i, f)" by fastforce
  let ?st = "st\<lparr>ms_sent := map (\<lambda>r. ms_sent st ! r @ blocks (ms_id st) 0 r (file_items (texts f))) [0, 1],
       ms_last_stream_id := i\<rparr>"
  have step: "word_count xread read_csv (\<lambda>_. False) st = ?st"
    using Cons.prems by (intro word_count_sendable) (auto simp: e)
  have "reads_all xread read_csv (e # es) st = reads_all xread read_csv es ?st"
    by (simp add: reads_all_def funpow_Suc_right step del: funpow.simps)
  moreover have "ms_is_wc_done (reads_all xread read_csv es ?st) \<and>
    ms_to_coordinator (reads_all xread read_csv es ?st) = ms_to_coordinator ?st @ [done_message (ms_id ?st)] \<and>
    ms_sent (reads_all xread read_csv es ?st) = map (\<lambda>r. ms_sent ?st ! r @ blocks (ms_id ?st) 0 r (items_of texts es)) [0, 1]"
    using Cons.prems by (intro Cons.IH) (auto simp: e)
  ultimately show ?case by (simp add: items_of_def e)
qed

section \<open>The reducer's side\<close>

lemma handle_mappers_blocks:
  assumes "concat sock = concat (map block ms)" "\<And>m. m \<in> set ms \<Longrightarrow> fits m \<and> m_type m = WORD_COUNT"
  shows "handle_mappers sock =
    map (\<lambda>m. WC (kwargs_get m ''key'') (kwargs_get m ''value'') (kwargs_get m ''last_recovery_id'')) ms"
  using assms
proof (induction ms arbitrary: sock)
  case Nil
  then obtain e sock' where "recvall_exn tcp_recv BUFFER_SIZE sock = (Inl e, sock')"
    using blk.read_end [of sock] by auto
  then show ?case by (subst handle_mappers.simps) (simp add: BUFFER_SIZE_def)
next
  case (Cons m ms)
  then have "fits m" "concat sock = block m @ concat (map block ms)" by simp_all
  then obtain data sock' where r: "recvall_exn tcp_recv BUFFER_SIZE sock = (Inr data, sock')"
    "message_deserialize data = Inr m" "concat sock' = concat (map block ms)"
    by (rule blk.read_block)
  have "handle_mappers sock' =
      map (\<lambda>m. WC (kwargs_get m ''key'') (kwargs_get m ''value'') (kwargs_get m ''last_recovery_id'')) ms"
    using Cons.prems r(3) by (intro Cons.IH) simp_all
  with r Cons.prems(2) show ?case
    by (subst handle_mappers.simps) (simp add: BUFFER_SIZE_def mapper_block_cmds_def)
qed

definition wc_cmd :: "string \<times> int \<Rightarrow> reducer_cmd" where
  "wc_cmd p = WC (JStr (fst p)) (JInt (snd p)) (JInt 0)"

lemma handle_mappers_items:
  assumes "concat sock = blocks src 0 r items" "\<And>w n. (w, n) \<in> set items \<Longrightarrow> fits (wc_message src 0 w n)"
  shows "handle_mappers sock = map wc_cmd (filter (\<lambda>(w, n). route w = r) items)"
proof -
  let ?ms = "map (\<lambda>(w, n). wc_message src 0 w n) (filter (\<lambda>(w, n). route w = r) items)"
  have "concat sock = concat (map block ?ms)"
    using assms(1) by (simp add: blocks_def case_prod_unfold comp_def)
  then have "handle_mappers sock =
      map (\<lambda>m. WC (kwargs_get m ''key'') (kwargs_get m ''value'') (kwargs_get m ''last_recovery_id'')) ?ms"
    using assms(2) by (intro handle_mappers_blocks) (auto simp: wc_message_def)
  then show ?thesis
    by (simp add: wc_cmd_def [abs_def] case_prod_unfold comp_def kwargs_get_def wc_message_def)
qed

lemma reducer_run_items:
  "rs_last_recovery_id st = 0 \<Longrightarrow>
     reducer_run (map wc_cmd items) st =
       Inr (st\<lparr>rs_wc := bump_all (rs_wc st) (map (\<lambda>(w, n). (JStr w, n)) items)\<rparr>)"
proof (induction items arbitrary: st)
  case (Cons p items)
  then show ?case by (cases p) (simp add: wc_cmd_def)
qed simp

lemma bump_all_str:
  "bump_all (map (\<lambda>(w, n). (JStr w, n)) d) (map (\<lambda>(w, n). (JStr w, n)) items) =
     map (\<lambda>(w, n). (JStr w, n)) (bump_all d items)"
proof (induction items arbitrary: d)
  case (Cons p items)
  have "map_of (map (\<lambda>(w, n). (JStr w, n)) d) (JStr w) = map_of d w" for w
    by (induction d) auto
  moreover have "AList.update (JStr w) v (map (\<lambda>(w, n). (JStr w, n)) d) =
      map (\<lambda>(w, n). (JStr w, n)) (AList.update w v d)" for w and v :: int
    by (induction d) auto
  ultimately have "bump (map (\<lambda>(w, n). (JStr w, n)) d) (JStr w) n = map (\<lambda>(w, n). (JStr w, n)) (bump d w n)"
    for w n by (simp add: bump_def)
  then show ?case by (cases p) (simp add: Cons)
qed simp

definition int_obj :: "(string, int) dict \<Rightarrow> json" where
  "int_obj d = JObj (map (\<lambda>(w, n). (w, JInt n)) d)"

lemma keys_int_obj: "map fst (map (\<lambda>(w, n). (w, JInt n)) d) = map fst d"
  by (induction d) auto

lemma loads_int_obj: "distinct (dict_keys d) \<Longrightarrow> loads (dumps (int_obj d)) = Inr (int_obj d)"
proof -
  assume "distinct (dict_keys d)"
  moreover have "list_all (\<lambda>(k, v). wf_json v) (map (\<lambda>(w, n). (w, JInt n)) d)" by (induction d) auto
  ultimately show ?thesis unfolding int_obj_def by (intro loads_dumps) (simp add: keys_int_obj del: map_map)
qed

lemma checkpoint_text_str:
  "rs_wc st = map (\<lambda>(w, n). (JStr w, n)) d \<Longrightarrow> checkpoint_text st = dumps (int_obj d)"
proof -
  have "map (\<lambda>(k, n). (key_text k, JInt n)) (map (\<lambda>(w, n). (JStr w, n)) d) = map (\<lambda>(w, n). (w, JInt n)) d"
    by (induction d) auto
  then show "rs_wc st = map (\<lambda>(w, n). (JStr w, n)) d \<Longrightarrow> checkpoint_text st = dumps (int_obj d)"
    by (simp only: checkpoint_text_def int_obj_def)
qed

lemma reducer_checkpoint_items:
  assumes "rs_last_recovery_id st = 0" "rs_wc st = []"
  obtains st' where "reducer_run (map wc_cmd items) st = Inr st'"
    "checkpoint_text st' = dumps (int_obj (bump_all [] items))"
proof -
  have "bump_all (rs_wc st) (map (\<lambda>(w, n). (JStr w, n)) items) = map (\<lambda>(w, n). (JStr w, n)) (bump_all [] items)"
    using bump_all_str [of "[]" items] assms(2) by simp
  with reducer_run_items [OF assms(1), of items] show ?thesis
    by (intro that) (simp, rule checkpoint_text_str, simp)
qed

lemma py_or_int_obj:
  "distinct (dict_keys (d1 @ d2)) \<Longrightarrow> py_or (int_obj d1) (int_obj d2) = Inr (int_obj (d1 @ d2))"
  by (simp add: int_obj_def dict_union_distinct keys_int_obj del: map_map)

lemma py_eq_int_obj:
  assumes "distinct (dict_keys d)" "distinct (dict_keys d')" "map_of d = map_of d'"
  shows "py_eq (int_obj d) (int_obj d')"
proof -
  have "set d = set d'" using assms by (simp add: map_of_inject_set)
  moreover have "length d = length d'"
    using assms \<open>set d = set d'\<close> by (metis distinct_card distinct_map)
  moreover have "list_ex (\<lambda>(k', v'). k' = k \<and> py_eq (JInt n) v') (map (\<lambda>(w, n). (w, JInt n)) d')"
    if "(k, n) \<in> set d" for k n
    using that \<open>set d = set d'\<close> by (force simp: list_ex_iff)
  ultimately show ?thesis unfolding int_obj_def py_eq.simps by (auto simp: list_all_iff)
qed

section \<open>From files to the verdict\<close>

lemma mset_distribute:
  "0 < m \<Longrightarrow> length streams = m \<Longrightarrow>
     mset (map snd (concat (distribute m j files streams))) = mset (map snd (concat streams)) + mset files"
proof (induction files arbitrary: j streams)
  case (Cons f files)
  have "mset (concat (streams[k := streams ! k @ [p]])) = mset (concat streams) + {#p#}"
    if "k < length streams" for k p
    using that
  proof (induction streams arbitrary: k)
    case (Cons s streams)
    then show ?case by (cases k) simp_all
  qed simp
  from this [of "j mod m" "(j, f)"] show ?case using Cons by simp
qed simp

lemma length_distribute [simp]: "length (distribute m j files streams) = length streams"
  by (induction files arbitrary: j streams) simp_all

definition tokens :: "(string \<Rightarrow> string list) \<Rightarrow> string list \<Rightarrow> string list" where
  "tokens texts files = concat (map (\<lambda>f. concat (map split_ws (texts f))) files)"

lemma items_of_tokens:
  assumes "\<And>i f. (i, f) \<in> set es \<Longrightarrow> \<exists>src. sendable read_csv texts src f"
  shows "tally (items_of texts es) w = int (count_list (tokens texts (map snd es)) w) \<and>
    fst ` set (items_of texts es) = set (tokens texts (map snd es))"
  using assms
proof (induction es)
  case (Cons e es)
  obtain i f where e: "e = (i, f)" by fastforce
  obtain src where "sendable read_csv texts src f" using Cons.prems [of i f] by (auto simp: e)
  then have f: "file_items (texts f) = counter (concat (map split_ws (texts f)))"
    by (simp only: file_items_def sendable_tokens)
  have "(tally (items_of texts es) w = int (count_list (tokens texts (map snd es)) w)) \<and>
      fst ` set (items_of texts es) = set (tokens texts (map snd es))"
    using Cons.prems by (intro Cons.IH) auto
  then show ?case by (simp add: items_of_def tokens_def e f tally_counter image_Un)
qed (simp_all add: items_of_def tokens_def)

lemma tokens_perm: "mset files = mset files' \<Longrightarrow> mset (tokens texts files) = mset (tokens texts files')"
proof -
  have "mset (tokens texts files) = sum_mset (image_mset (\<lambda>f. mset (concat (map split_ws (texts f)))) (mset files))"
    for files by (induction files) (simp_all add: tokens_def)
  then show "mset files = mset files' \<Longrightarrow> mset (tokens texts files) = mset (tokens texts files')" by simp
qed

lemma count_list_mset: "mset xs = mset ys \<Longrightarrow> count_list xs x = count_list ys x"
  by (metis count_mset)

lemma wc_cmd_perm:
  assumes "mset q = mset (map wc_cmd items)"
  obtains items' where "q = map wc_cmd items'" "mset items' = mset items"
proof -
  have inj: "inj wc_cmd" by (rule injI) (simp add: wc_cmd_def prod_eq_iff)
  have "set q \<subseteq> range wc_cmd" using assms by (metis mset_eq_setD image_mono list.set_map top_greatest)
  then have "q = map wc_cmd (map (inv wc_cmd) q)"
    by (induction q) (auto simp: f_inv_into_f)
  moreover have "mset (map (inv wc_cmd) q) = mset items"
    by (simp add: assms multiset.map_comp inv_o_cancel [OF inj])
  ultimately show ?thesis using that by blast
qed

lemma merged_counts:
  fixes all :: "(string \<times> int) list"
  assumes "mset i0 = mset (filter (\<lambda>(w, n). route w = 0) all)"
    and "mset i1 = mset (filter (\<lambda>(w, n). route w = 1) all)"
  shows "distinct (dict_keys (bump_all [] i0 @ bump_all [] i1))"
    and "map_of (bump_all [] i0 @ bump_all [] i1) w =
      (if w \<in> fst ` set all then Some (tally all w) else None)"
proof -
  have "set i0 = {(w, n) \<in> set all. route w = 0}" "set i1 = {(w, n) \<in> set all. route w = 1}"
    using mset_eq_setD [OF assms(1)] mset_eq_setD [OF assms(2)] by auto
  then have keys: "fst ` set i0 = {w \<in> fst ` set all. route w = 0}" "fst ` set i1 = {w \<in> fst ` set all. route w = 1}"
    by force+
  have tally: "tally i0 w = (if route w = 0 then tally all w else 0)"
    "tally i1 w = (if route w = 1 then tally all w else 0)" for w
    using tally_perm [OF assms(1)] tally_perm [OF assms(2)] by (simp_all add: tally_filter)
  show "distinct (dict_keys (bump_all [] i0 @ bump_all [] i1))"
    using keys by (auto simp: distinct_bump_all keys_bump_all)
  show "map_of (bump_all [] i0 @ bump_all [] i1) w = (if w \<in> fst ` set all then Some (tally all w) else None)"
    using route_bound [of w] keys tally
    by (auto simp: map_add_def map_of_bump_all less_2_cases_iff split: option.split)
qed

text \<open>
  The mapper of stream \<open>i\<close> after it has read its stream.
\<close>

definition mapper_after ::
  "(nat \<Rightarrow> nat \<Rightarrow> (nat \<times> string) option) \<Rightarrow> (string \<Rightarrow> string option list res) \<Rightarrow> string list \<Rightarrow> nat \<Rightarrow>
     nat mapper_state" where
  "mapper_after xread read_csv files i =
     reads_all (xread i) read_csv (streams_of files ! i) (mapper_init i 0 NUM_REDUCERS)"

definition mapper_name :: "nat \<Rightarrow> string" where
  "mapper_name i = ''Mapper_'' @ digits i"

definition deployable ::
  "(nat \<Rightarrow> nat \<Rightarrow> (nat \<times> string) option) \<Rightarrow> (string \<Rightarrow> string option list res) \<Rightarrow> (string \<Rightarrow> string list) \<Rightarrow>
     string list \<Rightarrow> bool" where
  "deployable xread read_csv texts files \<longleftrightarrow>
     (\<forall>i < NUM_MAPPERS. stream_reads (xread i) 0 (streams_of files ! i) \<and>
        list_all (sendable read_csv texts (mapper_name i)) files)"

lemma stream_files:
  "mset (map snd (streams_of files ! 0 @ streams_of files ! 1)) = mset files"
proof -
  have "mset (map snd (concat (streams_of files))) = mset files"
    using mset_distribute [of 2 "replicate 2 []" 1 files] by (simp add: streams_of_def NUM_MAPPERS_def)
  moreover have "length (streams_of files) = 2" by (simp add: streams_of_def NUM_MAPPERS_def)
  then have "concat (streams_of files) = streams_of files ! 0 @ streams_of files ! 1"
    by (auto simp: numeral_2_eq_2 length_Suc_conv)
  ultimately show ?thesis by simp
qed

lemma stream_subset: "i < NUM_MAPPERS \<Longrightarrow> (j, f) \<in> set (streams_of files ! i) \<Longrightarrow> f \<in> set files"
  using mset_eq_setD [OF stream_files [of files]] by (force simp: NUM_MAPPERS_def less_2_cases_iff)

lemma mapper_after_result:
  assumes "deployable xread read_csv texts files" "i < NUM_MAPPERS"
  shows "ms_is_wc_done (mapper_after xread read_csv files i)"
    and "ms_to_coordinator (mapper_after xread read_csv files i) = [done_message (mapper_name i)]"
    and "r < NUM_REDUCERS \<Longrightarrow> ms_sent (mapper_after xread read_csv files i) ! r =
      blocks (mapper_name i) 0 r (items_of texts (streams_of files ! i))"
proof -
  have st: "ms_last_stream_id (mapper_init i 0 NUM_REDUCERS) = 0" "length (ms_sent (mapper_init i 0 NUM_REDUCERS)) = 2"
    "ms_last_recovery_id (mapper_init i 0 NUM_REDUCERS) = 0" "ms_id (mapper_init i 0 NUM_REDUCERS) = mapper_name i"
    by (simp_all add: mapper_init_def mapper_name_def NUM_REDUCERS_def)
  have "stream_reads (xread i) 0 (streams_of files ! i)"
    "\<And>j f. (j, f) \<in> set (streams_of files ! i) \<Longrightarrow> sendable read_csv texts (mapper_name i) f"
    using assms stream_subset [OF assms(2)] by (auto simp: deployable_def list_all_iff)
  note result = mapper_consumes [where st = "mapper_init i 0 NUM_REDUCERS" and es = "streams_of files ! i"
      and texts = texts, unfolded st, OF this refl refl]
  show "ms_is_wc_done (mapper_after xread read_csv files i)"
    "ms_to_coordinator (mapper_after xread read_csv files i) = [done_message (mapper_name i)]"
    "r < NUM_REDUCERS \<Longrightarrow> ms_sent (mapper_after xread read_csv files i) ! r =
      blocks (mapper_name i) 0 r (items_of texts (streams_of files ! i))"
    using result unfolding mapper_after_def
    by (auto simp: mapper_init_def NUM_REDUCERS_def less_2_cases_iff)
qed

lemma deployable_fits:
  assumes "deployable xread read_csv texts files" "i < NUM_MAPPERS"
    "(w, n) \<in> set (items_of texts (streams_of files ! i))"
  shows "fits (wc_message (mapper_name i) 0 w n)"
  using assms stream_subset [OF assms(2)]
  by (fastforce simp: items_of_def deployable_def sendable_def list_all_iff)

text \<open>What the two reducers have counted when all connections are drained.\<close>

lemma reducers_count:
  assumes dep: "deployable xread read_csv texts files" and r: "r < NUM_REDUCERS"
    and sock: "\<And>i. i < NUM_MAPPERS \<Longrightarrow> concat (sock i) = ms_sent (mapper_after xread read_csv files i) ! r"
    and q: "mset q = mset (handle_mappers (sock 0)) + mset (handle_mappers (sock 1))"
  obtains st items where "reducer_run q (reducer_init r) = Inr st"
    "checkpoint_text st = dumps (int_obj (bump_all [] items))"
    "mset items = mset (filter (\<lambda>(w, n). route w = r)
       (items_of texts (streams_of files ! 0 @ streams_of files ! 1)))"
proof -
  have hm: "handle_mappers (sock i) = map wc_cmd (filter (\<lambda>(w, n). route w = r) (items_of texts (streams_of files ! i)))"
    if "i < NUM_MAPPERS" for i
    using sock [OF that] mapper_after_result(3) [OF dep that r] deployable_fits [OF dep that]
    by (intro handle_mappers_items) auto
  have "mset q = mset (map wc_cmd (filter (\<lambda>(w, n). route w = r)
      (items_of texts (streams_of files ! 0 @ streams_of files ! 1))))"
    using q hm [of 0] hm [of 1] by (simp add: NUM_MAPPERS_def items_of_def)
  then obtain items where items: "q = map wc_cmd items" "mset items = mset (filter (\<lambda>(w, n). route w = r)
      (items_of texts (streams_of files ! 0 @ streams_of files ! 1)))"
    by (rule wc_cmd_perm)
  obtain st where "reducer_run (map wc_cmd items) (reducer_init r) = Inr st"
    "checkpoint_text st = dumps (int_obj (bump_all [] items))"
    by (rule reducer_checkpoint_items [of "reducer_init r" items]) (simp_all add: reducer_init_def)
  with items show ?thesis using that by blast
qed

lemma seq_counts_map:
  "map_of (seq_counts rows) w =
     (if w \<in> set (concat (map split_ws rows)) then Some (int (count_list (concat (map split_ws rows)) w)) else None)"
  by (simp only: seq_counts_counter map_of_counter)

lemma verdict:
  assumes "distinct (dict_keys (d0 @ d1))" "map_of (d0 @ d1) = map_of (seq_counts rows)"
  shows "checker (Some (dumps (int_obj d0))) (Some (dumps (int_obj d1))) (Some (seq_text rows)) = Inr ''CORRECT''"
proof -
  have seq: "distinct (dict_keys (seq_counts rows))" by (simp add: seq_counts_counter)
  have "seq_text rows = dumps (int_obj (seq_counts rows))" by (simp add: seq_text_def int_obj_def)
  moreover have "loads (dumps (int_obj d0)) = Inr (int_obj d0)" "loads (dumps (int_obj d1)) = Inr (int_obj d1)"
    using assms(1) by (simp_all add: loads_int_obj)
  ultimately show ?thesis
    using loads_int_obj [OF seq] py_or_int_obj [OF assms(1)] py_eq_int_obj [OF assms(1) seq assms(2)]
    by (simp add: checker_def)
qed

text \<open>Two reducers that have counted all items between them make the checker print CORRECT.\<close>

lemma counted_correct:
  assumes dep: "deployable xread read_csv texts files" and perm: "mset files' = mset files"
    and i0: "mset i0 = mset (filter (\<lambda>(w, n). route w = 0) (items_of texts (streams_of files ! 0 @ streams_of files ! 1)))"
    and i1: "mset i1 = mset (filter (\<lambda>(w, n). route w = 1) (items_of texts (streams_of files ! 0 @ streams_of files ! 1)))"
  shows "checker (Some (dumps (int_obj (bump_all [] i0)))) (Some (dumps (int_obj (bump_all [] i1))))
    (Some (seq_text (concat (map texts files')))) = Inr ''CORRECT''"
proof -
  let ?es = "streams_of files ! 0 @ streams_of files ! 1"
  let ?all = "items_of texts ?es"
  have "\<exists>src. sendable read_csv texts src f" if "(i, f) \<in> set ?es" for i f
  proof -
    have "f \<in> set files" using that stream_subset [of 0] stream_subset [of 1] by (auto simp: NUM_MAPPERS_def)
    then have "sendable read_csv texts (mapper_name 0) f"
      using dep by (auto simp: deployable_def NUM_MAPPERS_def list_all_iff)
    then show ?thesis ..
  qed
  note all = items_of_tokens [where es = ?es, OF this]
  have tok: "mset (tokens texts (map snd ?es)) = mset (tokens texts files')"
    using tokens_perm stream_files perm by metis
  have "map_of (bump_all [] i0 @ bump_all [] i1) w = map_of (seq_counts (concat (map texts files'))) w" for w
  proof -
    have "concat (map split_ws (concat (map texts fs))) = tokens texts fs" for fs
      by (induction fs) (simp_all add: tokens_def)
    then have "map_of (seq_counts (concat (map texts files'))) w =
        (if w \<in> set (tokens texts files') then Some (int (count_list (tokens texts files') w)) else None)"
      by (simp only: seq_counts_map)
    also have "\<dots> = (if w \<in> fst ` set ?all then Some (tally ?all w) else None)"
      using all [where w = w] count_list_mset [OF tok, of w] mset_eq_setD [OF tok] by simp
    also have "\<dots> = map_of (bump_all [] i0 @ bump_all [] i1) w"
      by (rule merged_counts(2) [OF i0 i1, symmetric])
    finally show ?thesis ..
  qed
  then have "map_of (bump_all [] i0 @ bump_all [] i1) = map_of (seq_counts (concat (map texts files')))" ..
  from verdict [OF merged_counts(1) [OF i0 i1] this] show ?thesis .
qed

section \<open>Properties\<close>


text \<open>The message of a word is as long as its parts.\<close>

lemma fits_wc_message:
  "length (dumps_str src) + length (dumps_str w) + length (dumps_int n) + length (dumps_int rid) \<le> 955 \<Longrightarrow>
     fits (wc_message src rid w n)"
proof -
  have keys: "length (dumps_str ''type'') = 6" "length (dumps_str ''source'') = 8" "length (dumps_str ''key'') = 5"
    "length (dumps_str ''value'') = 7" "length (dumps_str ''last_recovery_id'') = 18" "length (dumps_int 3) = 1"
    by code_simp+
  let ?m = "wc_message src rid w n"
  have wf: "wf_message ?m" by (simp add: wf_message_def wc_message_def)
  have "length (dumps (JObj (message_dict ?m))) =
      65 + (length (dumps_str src) + length (dumps_str w) + length (dumps_int n) + length (dumps_int rid))"
    unfolding message_dict_wf [OF wf] by (simp add: wc_message_def keys)
  then show "length (dumps_str src) + length (dumps_str w) + length (dumps_int n) + length (dumps_int rid) \<le> 955 \<Longrightarrow>
     fits ?m"
    using wf by (simp add: fits_def BUFFER_SIZE_def del: dumps.simps)
qed

text \<open>A job of two files, Redis answering with the first entry after the given id.\<close>

definition demo_files :: "string list" where
  "demo_files = [''a.csv'', ''b.csv'']"

definition demo_texts :: "string \<Rightarrow> string list" where
  "demo_texts f = (if f = ''a.csv'' then [''my cat'', ''cat''] else [''dog''])"

definition demo_xread :: "nat \<Rightarrow> nat \<Rightarrow> (nat \<times> string) option" where
  "demo_xread i frm =
     (case filter (\<lambda>(j, f). frm < j) (streams_of demo_files ! i) of [] \<Rightarrow> None | e # es \<Rightarrow> Some e)"

definition demo_csv :: "string \<Rightarrow> string option list res" where
  "demo_csv f = Inr (map Some (demo_texts f))"

definition demo_sock :: "nat \<Rightarrow> nat \<Rightarrow> socket" where
  "demo_sock r i = [ms_sent (mapper_after demo_xread demo_csv demo_files i) ! r]"

lemma demo_deployable: "deployable demo_xread demo_csv demo_texts demo_files"
proof -
  have streams: "streams_of demo_files = [[(2, ''b.csv'')], [(1, ''a.csv'')]]" by code_simp
  have items: "file_items [''my cat'', ''cat''] = [(''my'', 1), (''cat'', 2)]" "file_items [''dog''] = [(''dog'', 1)]"
    by code_simp+
  have ws: "list_all (\<lambda>t. split_ws t = split_space t) [''my cat'', ''cat'', ''dog'']" by code_simp
  have small: "length (dumps_str ''Mapper_0'') = 10" "length (dumps_str ''Mapper_1'') = 10" "length (dumps_str ''my'') = 4"
    "length (dumps_str ''cat'') = 5" "length (dumps_str ''dog'') = 5" "length (dumps_int 0) = 1"
    "length (dumps_int 1) = 1" "length (dumps_int 2) = 1" "mapper_name 0 = ''Mapper_0''" "mapper_name 1 = ''Mapper_1''"
    by code_simp+
  have "list_all (sendable demo_csv demo_texts (mapper_name i)) demo_files" if "i < 2" for i
    using that ws small by (auto simp: less_2_cases_iff sendable_def demo_files_def demo_texts_def demo_csv_def items
        intro!: fits_wc_message)
  moreover have "stream_reads (demo_xread i) 0 (streams_of demo_files ! i)" if "i < 2" for i
    using that by (auto simp: less_2_cases_iff demo_xread_def streams)
  ultimately show ?thesis by (simp add: deployable_def NUM_MAPPERS_def)
qed


text \<open>A file that makes an iteration fail is read again, and what was sent of it is sent again, for ever.\<close>

lemma failing_iterations:
  assumes "xread (ms_last_stream_id st) = Some (message_id, f)" "rbind (read_csv f) all_text = Inr content"
    and "length pre = length (ms_sent st)"
    and "\<And>sent. length sent = length (ms_sent st) \<Longrightarrow>
      send_counts broken (ms_id st) (ms_last_recovery_id st) (counter (split_space content)) sent = (Inl e, map2 (@) sent pre)"
  shows "(word_count xread read_csv broken ^^ k) st =
    st\<lparr>ms_sent := map2 (\<lambda>s p. s @ concat (replicate k p)) (ms_sent st) pre\<rparr>"
proof (induction k)
  case 0
  have "map2 (\<lambda>s p. s @ concat (replicate 0 p)) (ms_sent st) pre = ms_sent st"
    using assms(3) by (auto intro!: nth_equalityI)
  then show ?case by simp
next
  case (Suc k)
  have step: "word_count xread read_csv broken st' = st'\<lparr>ms_sent := map2 (@) (ms_sent st') pre\<rparr>"
    if "ms_last_stream_id st' = ms_last_stream_id st" "length (ms_sent st') = length (ms_sent st)"
      "ms_id st' = ms_id st" "ms_last_recovery_id st' = ms_last_recovery_id st" for st'
    using that assms by (simp add: word_count_def)
  have "map2 (@) (map2 (\<lambda>s p. s @ concat (replicate k p)) xs pre) pre =
      map2 (\<lambda>s p. s @ concat (replicate (Suc k) p)) xs pre" if "length pre = length xs" for xs
  proof (rule nth_equalityI)
    have "concat (replicate k p) @ p = concat (replicate (Suc k) p)" for p :: bytes
      by (induction k) simp_all
    then show "map2 (@) (map2 (\<lambda>s p. s @ concat (replicate k p)) xs pre) pre ! i =
        map2 (\<lambda>s p. s @ concat (replicate (Suc k) p)) xs pre ! i"
      if "i < length (map2 (@) (map2 (\<lambda>s p. s @ concat (replicate k p)) xs pre) pre)" for i
      using that \<open>length pre = length xs\<close> by simp
  qed (use that in simp)
  with Suc step show ?case using assms(3) by simp
qed

text \<open>
  C40. One empty token stops a mapper for ever. A file whose joined text has two spaces in a row, a
  space at an end, or no text at all gives the empty word, for which \<open>word_2_socket\<close> raises
  after earlier words were sent. The stream id is not advanced, so every later call reads the same
  file and sends the same counts again: the mapper never reports that it is done, and the counts of
  those words grow without bound.
\<close>

theorem empty_word_livelock:
  assumes "xread (ms_last_stream_id st) = Some (message_id, f)" and "read_csv f = Inr (map Some texts)"
    and "[] \<in> set (split_space (join '' '' texts))" and "\<not> ms_is_wc_done st"
  shows "\<exists>pre. length pre = length (ms_sent st) \<and> (\<forall>k.
    \<not> ms_is_wc_done ((word_count xread read_csv broken ^^ k) st) \<and>
    ms_to_coordinator ((word_count xread read_csv broken ^^ k) st) = ms_to_coordinator st \<and>
    ms_last_stream_id ((word_count xread read_csv broken ^^ k) st) = ms_last_stream_id st \<and>
    ms_sent ((word_count xread read_csv broken ^^ k) st) =
      map2 (\<lambda>s p. s @ concat (replicate k p)) (ms_sent st) pre)"
proof -
  define items where "items = counter (split_space (join '' '' texts))"
  obtain res pre where d: "length pre = length (ms_sent st)"
    "\<And>sent. length sent = length (ms_sent st) \<Longrightarrow>
       send_counts broken (ms_id st) (ms_last_recovery_id st) items sent = (res, map2 (@) sent pre)"
    using send_counts_delta by meson
  have "[] \<in> fst ` set items" using assms(3) by (simp add: items_def)
  from send_counts_poison [OF this, of broken "ms_id st" "ms_last_recovery_id st" "ms_sent st"]
  obtain e where e: "res = Inl e" using d(2) [of "ms_sent st"] by auto
  have "(word_count xread read_csv broken ^^ k) st =
      st\<lparr>ms_sent := map2 (\<lambda>s p. s @ concat (replicate k p)) (ms_sent st) pre\<rparr>" for k
    by (rule failing_iterations [where content = "join '' '' texts" and e = e and xread = xread and f = f and st = st, OF assms(1) _ d(1)])
      (use d(2) e assms(2) in \<open>simp_all add: all_text_strings items_def\<close>)
  then show ?thesis using d(1) assms(4) by (intro exI [of _ pre]) simp
qed

definition poisoned_mapper :: "nat \<Rightarrow> nat mapper_state" where
  "poisoned_mapper k =
     (word_count (\<lambda>i. Some (1, ''f'')) (\<lambda>f. Inr [Some ''a  b'']) (\<lambda>_. False) ^^ k) (mapper_init 0 0 2)"

theorem empty_word_livelock_witness:
  "\<exists>pre. length pre = 2 \<and> (\<forall>k.
    \<not> ms_is_wc_done (poisoned_mapper k) \<and> ms_to_coordinator (poisoned_mapper k) = [] \<and>
    ms_last_stream_id (poisoned_mapper k) = 0 \<and>
    ms_sent (poisoned_mapper k) = map2 (\<lambda>s p. s @ concat (replicate k p)) [[], []] pre)"
proof -
  have fields: "ms_last_stream_id (mapper_init 0 0 2) = (0 :: nat)" "ms_to_coordinator (mapper_init 0 0 2 :: nat mapper_state) = []"
    "ms_sent (mapper_init 0 0 2 :: nat mapper_state) = [[], []]" "\<not> ms_is_wc_done (mapper_init 0 0 2 :: nat mapper_state)"
    by (simp_all add: mapper_init_def numeral_2_eq_2)
  have "[] \<in> set (split_space (join '' '' [''a  b'']))" by code_simp
  from empty_word_livelock [where xread = "\<lambda>i :: nat. Some (1, ''f'')" and read_csv = "\<lambda>f. Inr [Some ''a  b'']"
        and st = "mapper_init 0 0 2" and texts = "[''a  b'']" and broken = "\<lambda>_. False", OF refl _ this fields(4)]
  show ?thesis unfolding fields poisoned_mapper_def by (simp add: numeral_2_eq_2)
qed

end
