(* ===== verification/Coordinator.thy ===== *)
theory Coordinator
  imports WordMessage WordCount
begin

text \<open>
  The coordinator of lab 2 (\<open>coordinator.py\<close>, \<open>_coordinator.py\<close>): what it knows of the
  workers, the messages it receives and sends, the health check, and its two threads as a state
  machine that interleaves their iterations with the timer. Handlers that the source leaves as TODO
  change nothing. A worker process is the number of times it was started and
  whether it runs. Times are whole
  seconds, as in the source.
\<close>

section \<open>State\<close>

record worker_state =
  ws_idx :: nat
  ws_is_mapper :: bool
  ws_port :: nat
  ws_last_hb_recvd :: int
  ws_last_cp_id :: int
  ws_recovery_id :: int
  ws_is_done :: bool
  ws_last_checkpoint_done :: bool
  ws_starts :: nat
  ws_running :: bool

definition ws_id :: "worker_state \<Rightarrow> string" where
  "ws_id ws = (if ws_is_mapper ws then ''Mapper'' else ''Reducer'') @ ''_'' @ digits (ws_idx ws)"

definition worker_init :: "nat \<Rightarrow> bool \<Rightarrow> nat \<Rightarrow> worker_state" where
  "worker_init idx is_mapper port =
     \<lparr>ws_idx = idx, ws_is_mapper = is_mapper, ws_port = port, ws_last_hb_recvd = 0, ws_last_cp_id = 0,
      ws_recovery_id = 0, ws_is_done = False, ws_last_checkpoint_done = False, ws_starts = 0,
      ws_running = False\<rparr>"

definition worker_reset :: "worker_state \<Rightarrow> worker_state" where
  "worker_reset ws = ws\<lparr>ws_is_done := False, ws_last_checkpoint_done := False\<rparr>"

text \<open>A restart kills the old process; \<open>self.process\<close> does not exist before the first start.\<close>

definition start_worker :: "bool \<Rightarrow> worker_state \<Rightarrow> worker_state res" where
  "start_worker restart ws =
     (if restart \<and> ws_starts ws = 0 then Inl AttributeError else Inr (ws\<lparr>ws_starts := ws_starts ws + 1, ws_running := True\<rparr>))"

datatype phase = CP | RECOVER_REDUCER | RECOVER_MAPPER | LAST_CP | EXITING

record coordinator_state =
  co_phase :: phase
  co_next_recovery_id :: int
  co_next_cp_id :: int
  co_workers :: "(string, worker_state) dict"

definition coordinator_init :: coordinator_state where
  "coordinator_init = \<lparr>co_phase = CP, co_next_recovery_id = 0, co_next_cp_id = 1, co_workers = []\<rparr>"

definition last_completed_checkpoint_id :: "coordinator_state \<Rightarrow> int" where
  "last_completed_checkpoint_id st =
     (let checkpoint_id = fold (\<lambda>(_, ws) c. if c > ws_last_cp_id ws then ws_last_cp_id ws else c)
            (co_workers st) 1000000 in
      if checkpoint_id = 0 then - 1 else checkpoint_id)"

section \<open>Messages received\<close>

fun int_of_json :: "json \<Rightarrow> int res" where
  "int_of_json (JInt i) = Inr i"
| "int_of_json (JBool b) = Inr (if b then 1 else 0)"
| "int_of_json (JStr s) = int_of_string s"
| "int_of_json _ = Inl TypeError"

datatype rcv_msg = HBRecv | CkptAckRecv int | DoneRecv | LastCkptAckRecv | RecoveryAckRecv json

definition msg_factory :: "message \<Rightarrow> rcv_msg res" where
  "msg_factory m =
     (if m_type m = HEARTBEAT then Inr HBRecv
      else if m_type m = CHECKPOINT_ACK then
        rbind (dict_index (m_kwargs m) ''checkpoint_id'') (\<lambda>c.
        rbind (int_of_json c) (\<lambda>i. Inr (CkptAckRecv i)))
      else if m_type m = DONE then Inr DoneRecv
      else if m_type m = LAST_CHECKPOINT_ACK then
        rbind (dict_index (m_kwargs m) ''checkpoint_id'') (\<lambda>c.
        rbind (int_of_json c) (\<lambda>i.
        rbind (py_assert (i = 0) '''') (\<lambda>_. Inr LastCkptAckRecv)))
      else if m_type m = RECOVERY_ACK then
        rbind (dict_index (m_kwargs m) ''recovery_id'') (\<lambda>r. Inr (RecoveryAckRecv r))
      else Inl (GenericException ''Unknown message type! Bad situtation.''))"

text \<open>\<open>state.workers[source]\<close>.\<close>

fun worker_of :: "coordinator_state \<Rightarrow> json \<Rightarrow> (string \<times> worker_state) res" where
  "worker_of st (JStr s) = rbind (dict_index (co_workers st) s) (\<lambda>ws. Inr (s, ws))"
| "worker_of st (JArr xs) = Inl TypeError"
| "worker_of st (JObj d) = Inl TypeError"
| "worker_of st _ = Inl KeyError"

definition set_worker :: "coordinator_state \<Rightarrow> string \<Rightarrow> worker_state \<Rightarrow> coordinator_state" where
  "set_worker st k ws = st\<lparr>co_workers := dict_set (co_workers st) k ws\<rparr>"

lemma set_worker_phase [simp]: "co_phase (set_worker st k w) = co_phase st"
  by (simp add: set_worker_def)

definition all_mappers_done :: "coordinator_state \<Rightarrow> bool" where
  "all_mappers_done st = list_all (\<lambda>(_, ws). ws_is_mapper ws \<longrightarrow> ws_is_done ws) (co_workers st)"

fun update :: "int \<Rightarrow> rcv_msg \<Rightarrow> coordinator_state \<Rightarrow> json \<Rightarrow> phase option res \<times> coordinator_state" where
  "update now HBRecv st source =
     (case worker_of st source of
        Inl e \<Rightarrow> (Inl e, st)
      | Inr (k, ws) \<Rightarrow> (Inr None, set_worker st k (ws\<lparr>ws_last_hb_recvd := now\<rparr>)))"
| "update now (CkptAckRecv i) st source = (Inr None, st)"
| "update now LastCkptAckRecv st source = (Inr None, st)"
| "update now (RecoveryAckRecv r) st source = (Inr None, st)"
| "update now DoneRecv st source =
     (case rbind (worker_of st source) (\<lambda>(k, ws).
           rbind (py_assert (ws_is_mapper ws) ''Only mappers should send DONE message'') (\<lambda>_. Inr (k, ws))) of
        Inl e \<Rightarrow> (Inl e, st)
      | Inr (k, ws) \<Rightarrow>
          let st' = set_worker st k (ws\<lparr>ws_is_done := True\<rparr>) in
          (Inr (if all_mappers_done st' then Some EXITING else None), st'))"

section \<open>Health check\<close>

definition HEARTBEAT_TIMEOUT :: int where "HEARTBEAT_TIMEOUT = 1"

definition check_worker :: "int \<Rightarrow> worker_state \<Rightarrow> worker_state res" where
  "check_worker now ws =
     (if now - ws_last_hb_recvd ws > HEARTBEAT_TIMEOUT then start_worker True ws else Inr ws)"

text \<open>The loop over the workers; a failing assertion leaves it with the earlier workers checked.\<close>

fun monitor_loop :: "int \<Rightarrow> (string, worker_state) dict \<Rightarrow> unit res \<times> (string, worker_state) dict" where
  "monitor_loop now [] = (Inr (), [])"
| "monitor_loop now ((k, ws) # rest) =
     (case check_worker now ws of
        Inl e \<Rightarrow> (Inl e, (k, ws) # rest)
      | Inr ws' \<Rightarrow> (case monitor_loop now rest of (r, rest') \<Rightarrow> (r, (k, ws') # rest')))"

definition monitor_health :: "int \<Rightarrow> coordinator_state \<Rightarrow> unit res \<times> coordinator_state" where
  "monitor_health now st =
     (case monitor_loop now (co_workers st) of (r, ws) \<Rightarrow> (r, st\<lparr>co_workers := ws\<rparr>))"

section \<open>Killing workers\<close>

text \<open>The loop of \<open>Coordinator.kill_worker\<close>.\<close>

fun kill_worker :: "string \<Rightarrow> (string, worker_state) dict \<Rightarrow> (string, worker_state) dict res" where
  "kill_worker wid [] = Inr []"
| "kill_worker wid ((k, w) # rest) =
     (if ws_id w = wid then
        (if ws_starts w = 0 then Inl AttributeError else Inr ((k, w\<lparr>ws_running := False\<rparr>) # rest))
      else rbind (kill_worker wid rest) (\<lambda>rest'. Inr ((k, w) # rest')))"

datatype test_mode = TEST_NONE | TEST_MAPPER | TEST_REDUCER | TEST_BOTH | TEST_ALL

text \<open>The workers that one round of a test mode kills; \<open>r\<close> and \<open>m\<close> are the two random draws.\<close>

fun test_kills :: "test_mode \<Rightarrow> nat \<Rightarrow> nat \<Rightarrow> string list" where
  "test_kills TEST_NONE r m = []"
| "test_kills TEST_REDUCER r m = [''Reducer_'' @ digits r]"
| "test_kills TEST_MAPPER r m = [''Mapper_'' @ digits m]"
| "test_kills TEST_BOTH r m = [''Reducer_'' @ digits r, ''Mapper_'' @ digits m]"
| "test_kills TEST_ALL r m = [''Mapper_0'', ''Reducer_0'', ''Mapper_1'', ''Reducer_1'']"

section \<open>Messages sent\<close>

definition cp_msg :: "int \<Rightarrow> int \<Rightarrow> message" where
  "cp_msg checkpoint_id recovery_id =
     \<lparr>m_type = CHECKPOINT, m_source = JStr ''Coordinator'',
      m_kwargs = [(''checkpoint_id'', JInt checkpoint_id), (''recovery_id'', JInt recovery_id)]\<rparr>"

definition recovery_msg :: "int \<Rightarrow> int \<Rightarrow> message" where
  "recovery_msg checkpoint_id recovery_id =
     \<lparr>m_type = RECOVER, m_source = JStr ''Coordinator'',
      m_kwargs = [(''recovery_id'', JInt recovery_id), (''checkpoint_id'', JInt checkpoint_id)]\<rparr>"

definition exit_msg :: message where
  "exit_msg = \<lparr>m_type = EXIT, m_source = JStr ''Coordinator'', m_kwargs = []\<rparr>"

section \<open>The process\<close>

text \<open>
  \<open>sy_received\<close> is the trace of datagrams the receive thread has taken; an exception ends that
  thread, an assertion of a phase ends the send thread.
\<close>

record coordinator_sys =
  sy_state :: coordinator_state
  sy_queue :: "phase list"
  sy_sent :: "(nat \<times> message) list"
  sy_received :: "bytes list"
  sy_recv_alive :: bool
  sy_send_alive :: bool
  sy_exited :: bool

definition receive_step :: "int \<Rightarrow> bytes \<Rightarrow> coordinator_state \<Rightarrow> phase option res \<times> coordinator_state" where
  "receive_step now response st =
     (case rbind (message_deserialize (take 1024 response)) (\<lambda>m. rbind (msg_factory m) (\<lambda>msg. Inr (m, msg))) of
        Inl e \<Rightarrow> (Inl e, st)
      | Inr (m, msg) \<Rightarrow>
          (case update now msg st (m_source m) of
             (Inr (Some p), st') \<Rightarrow> (Inr (Some p), st'\<lparr>co_phase := p\<rparr>)
           | (r, st') \<Rightarrow> (r, st')))"

text \<open>The \<open>*_phase\<close> methods: what is sent, and whether the process kills itself.\<close>

definition exit_phase :: "coordinator_state \<Rightarrow> ((nat \<times> message) list \<times> bool) res" where
  "exit_phase st =
     rbind (py_assert (co_phase st = EXITING) '''') (\<lambda>_.
       Inr (map (\<lambda>(_, ws). (ws_port ws, exit_msg)) (co_workers st), True))"

definition recover_phase :: "bool \<Rightarrow> coordinator_state \<Rightarrow> ((nat \<times> message) list \<times> bool) res" where
  "recover_phase is_mapper st =
     rbind (py_assert (co_phase st = (if is_mapper then RECOVER_MAPPER else RECOVER_REDUCER)) '''') (\<lambda>_. Inr ([], False))"

definition last_cp_phase :: "coordinator_state \<Rightarrow> ((nat \<times> message) list \<times> bool) res" where
  "last_cp_phase st = rbind (py_assert (co_phase st = LAST_CP) '''') (\<lambda>_. Inr ([], False))"

definition cp_phase :: "coordinator_state \<Rightarrow> ((nat \<times> message) list \<times> bool) res" where
  "cp_phase st = Inr ([], False)"

fun phase_action :: "phase \<Rightarrow> coordinator_state \<Rightarrow> ((nat \<times> message) list \<times> bool) res" where
  "phase_action CP st = cp_phase st"
| "phase_action RECOVER_REDUCER st = recover_phase False st"
| "phase_action RECOVER_MAPPER st = recover_phase True st"
| "phase_action LAST_CP st = last_cp_phase st"
| "phase_action EXITING st = exit_phase st"

datatype coordinator_label = Receive int bytes | Send | Alarm int | Kill string

definition coordinator_step :: "coordinator_sys \<Rightarrow> coordinator_label \<Rightarrow> coordinator_sys option" where
  "coordinator_step c l =
     (if sy_exited c then None else
      case l of
        Receive now response \<Rightarrow>
          if sy_recv_alive c then
            (case receive_step now response (sy_state c) of
               (Inl e, st') \<Rightarrow> Some (c\<lparr>sy_state := st', sy_recv_alive := False\<rparr>)
             | (Inr None, st') \<Rightarrow> Some (c\<lparr>sy_state := st', sy_received := sy_received c @ [response]\<rparr>)
             | (Inr (Some p), st') \<Rightarrow>
                 Some (c\<lparr>sy_state := st', sy_queue := sy_queue c @ [p], sy_received := sy_received c @ [response]\<rparr>))
          else None
      | Send \<Rightarrow>
          if sy_send_alive c then
            (case sy_queue c of
               [] \<Rightarrow> None
             | p # q \<Rightarrow>
                 (case phase_action p (sy_state c) of
                    Inl e \<Rightarrow> Some (c\<lparr>sy_queue := q, sy_send_alive := False\<rparr>)
                  | Inr (ms, killed) \<Rightarrow>
                      Some (c\<lparr>sy_queue := q, sy_sent := sy_sent c @ ms, sy_exited := killed\<rparr>)))
          else None
      | Alarm now \<Rightarrow>
          (case monitor_health now (sy_state c) of (r, st') \<Rightarrow> Some (c\<lparr>sy_state := st'\<rparr>))
      | Kill wid \<Rightarrow>
          (case kill_worker wid (co_workers (sy_state c)) of
             Inl e \<Rightarrow> Some c
           | Inr ws \<Rightarrow> Some (c\<lparr>sy_state := (sy_state c)\<lparr>co_workers := ws\<rparr>\<rparr>)))"

section \<open>Start-up\<close>

definition COORDINATOR_PORT :: nat where "COORDINATOR_PORT = 12900"

definition MAPPER_PORTS :: "nat list" where
  "MAPPER_PORTS = map (\<lambda>i. COORDINATOR_PORT + i + 1) [0..<NUM_MAPPERS]"

definition REDUCER_PORTS :: "nat list" where
  "REDUCER_PORTS = map (\<lambda>i. last MAPPER_PORTS + i + 1) [0..<NUM_REDUCERS]"

definition add_workers :: "bool \<Rightarrow> nat list \<Rightarrow> coordinator_state \<Rightarrow> coordinator_state" where
  "add_workers is_mapper ports st =
     fold (\<lambda>(i, port) st. let w = worker_init i is_mapper port in set_worker st (ws_id w) w)
       (zip [0..<length ports] ports) st"

definition start_workers :: "bool \<Rightarrow> coordinator_state \<Rightarrow> coordinator_state res" where
  "start_workers mappers st =
     rbind (rmap (\<lambda>(k, ws). if ws_is_mapper ws = mappers then rbind (start_worker False ws) (\<lambda>ws. Inr (k, ws)) else Inr (k, ws))
        (co_workers st)) (\<lambda>ws. Inr (st\<lparr>co_workers := ws\<rparr>))"

definition initialize_workers :: "coordinator_state \<Rightarrow> coordinator_state res" where
  "initialize_workers st = rbind (start_workers False st) (start_workers True)"

text \<open>The process after \<open>Coordinator.__init__\<close> and the first part of \<open>run\<close>.\<close>

definition coordinator_start :: "coordinator_sys res" where
  "coordinator_start =
     rbind (initialize_workers (add_workers False REDUCER_PORTS (add_workers True MAPPER_PORTS coordinator_init)))
       (\<lambda>st. Inr \<lparr>sy_state = st, sy_queue = [CP], sy_sent = [], sy_received = [],
                  sy_recv_alive = True, sy_send_alive = True, sy_exited = False\<rparr>)"

inductive coordinator_reachable :: "coordinator_sys \<Rightarrow> bool" where
  start: "coordinator_start = Inr c \<Longrightarrow> coordinator_reachable c"
| step: "coordinator_reachable c \<Longrightarrow> coordinator_step c l = Some c' \<Longrightarrow> coordinator_reachable c'"

inductive_cases coordinator_reachable_cases: "coordinator_reachable c"

definition started_worker :: "nat \<Rightarrow> bool \<Rightarrow> nat \<Rightarrow> worker_state" where
  "started_worker idx is_mapper port = (worker_init idx is_mapper port)\<lparr>ws_starts := 1, ws_running := True\<rparr>"

lemma worker_digits: "digits 0 = ''0''" "digits (Suc 0) = ''1''"
  by code_simp+

lemma coordinator_start_eq:
  "coordinator_start = Inr \<lparr>sy_state = \<lparr>co_phase = CP, co_next_recovery_id = 0, co_next_cp_id = 1,
     co_workers = [(''Mapper_0'', started_worker 0 True 12901), (''Mapper_1'', started_worker 1 True 12902),
       (''Reducer_0'', started_worker 0 False 12903), (''Reducer_1'', started_worker 1 False 12904)]\<rparr>,
     sy_queue = [CP], sy_sent = [], sy_received = [], sy_recv_alive = True, sy_send_alive = True, sy_exited = False\<rparr>"
  by (simp add: worker_digits coordinator_start_def initialize_workers_def start_workers_def add_workers_def set_worker_def
        MAPPER_PORTS_def REDUCER_PORTS_def COORDINATOR_PORT_def NUM_MAPPERS_def NUM_REDUCERS_def
        coordinator_init_def start_worker_def started_worker_def worker_init_def ws_id_def upt_rec numeral_2_eq_2 Let_def)

section \<open>Invariants\<close>

text \<open>What never changes of a worker.\<close>

definition statics :: "(string, worker_state) dict \<Rightarrow> (string \<times> bool \<times> nat) list" where
  "statics ws = map (\<lambda>(k, w). (k, ws_is_mapper w, ws_port w)) ws"

lemma statics_set:
  "map_of ws k = Some w \<Longrightarrow> ws_is_mapper w' = ws_is_mapper w \<Longrightarrow> ws_port w' = ws_port w \<Longrightarrow>
     statics (dict_set ws k w') = statics ws"
  by (induction ws) (auto simp: statics_def split: if_splits)

definition restart_late :: "int \<Rightarrow> worker_state \<Rightarrow> worker_state" where
  "restart_late now w = (if now - ws_last_hb_recvd w > HEARTBEAT_TIMEOUT then w\<lparr>ws_starts := ws_starts w + 1, ws_running := True\<rparr> else w)"

lemma restart_late_simps [simp]:
  "ws_is_mapper (restart_late now w) = ws_is_mapper w" "ws_port (restart_late now w) = ws_port w"
  "ws_is_done (restart_late now w) = ws_is_done w" "ws_last_hb_recvd (restart_late now w) = ws_last_hb_recvd w"
  "ws_id (restart_late now w) = ws_id w" "0 < ws_starts w \<Longrightarrow> 0 < ws_starts (restart_late now w)"
  by (simp_all add: restart_late_def ws_id_def)

lemma monitor_loop_started:
  "\<forall>(k, w) \<in> set ws. 0 < ws_starts w \<Longrightarrow>
     monitor_loop now ws = (Inr (), map (\<lambda>(k, w). (k, restart_late now w)) ws)"
  by (induction ws) (auto simp: check_worker_def start_worker_def restart_late_def)

text \<open>A DONE message of worker \<open>k\<close> is among the datagrams.\<close>

definition reported_done :: "bytes list \<Rightarrow> string \<Rightarrow> bool" where
  "reported_done received k \<longleftrightarrow>
     (\<exists>bs \<in> set received. \<exists>m. message_deserialize (take 1024 bs) = Inr m \<and> m_type m = DONE \<and> m_source m = JStr k)"

lemma reported_done_append: "reported_done rs k \<Longrightarrow> reported_done (rs @ rs') k"
  by (auto simp: reported_done_def)

definition worker_table :: "(string \<times> bool \<times> nat) list" where
  "worker_table = [(''Mapper_0'', True, 12901), (''Mapper_1'', True, 12902),
     (''Reducer_0'', False, 12903), (''Reducer_1'', False, 12904)]"

definition coordinator_inv :: "coordinator_sys \<Rightarrow> bool" where
  "coordinator_inv c \<longleftrightarrow>
     statics (co_workers (sy_state c)) = worker_table \<and>
     (\<forall>(k, w) \<in> set (co_workers (sy_state c)). 0 < ws_starts w \<and> ws_id w = k \<and>
        (ws_is_done w \<longrightarrow> reported_done (sy_received c) k)) \<and>
     set (sy_queue c) \<subseteq> {CP, EXITING} \<and> sy_send_alive c \<and>
     (EXITING \<in> set (sy_queue c) \<or> sy_exited c \<longrightarrow> co_phase (sy_state c) = EXITING) \<and>
     (co_phase (sy_state c) = EXITING \<longrightarrow> all_mappers_done (sy_state c)) \<and>
     (sy_exited c \<longrightarrow> (\<forall>(k, m, port) \<in> set worker_table. (port, exit_msg) \<in> set (sy_sent c)))"

lemma coordinator_inv_start: "coordinator_start = Inr c \<Longrightarrow> coordinator_inv c"
  by (auto simp: coordinator_start_eq coordinator_inv_def statics_def worker_table_def started_worker_def worker_init_def
      all_mappers_done_def ws_id_def worker_digits)

lemma worker_of_Inr:
  "worker_of st src = Inr (k, w) \<longleftrightarrow> src = JStr k \<and> map_of (co_workers st) k = Some w"
  by (cases src) (auto simp: rbind_eq_Inr dict_index_Inr)

text \<open>What a datagram can do: nothing, a heartbeat, or a mapper that is done.\<close>

lemma receive_step_cases:
  assumes "receive_step now response st = (r, st')"
  obtains
    (error) e where "r = Inl e" "st' = st"
  | (ignored) "r = Inr None" "st' = st"
  | (heartbeat) k w where "r = Inr None" "map_of (co_workers st) k = Some w"
      "st' = set_worker st k (w\<lparr>ws_last_hb_recvd := now\<rparr>)"
  | (finished) m k w where "message_deserialize (take 1024 response) = Inr m" "m_type m = DONE" "m_source m = JStr k"
      "map_of (co_workers st) k = Some w" "ws_is_mapper w"
      "r = Inr (if all_mappers_done (set_worker st k (w\<lparr>ws_is_done := True\<rparr>)) then Some EXITING else None)"
      "st' = (let d = set_worker st k (w\<lparr>ws_is_done := True\<rparr>) in if all_mappers_done d then d\<lparr>co_phase := EXITING\<rparr> else d)"
proof (cases "rbind (message_deserialize (take 1024 response)) (\<lambda>m. rbind (msg_factory m) (\<lambda>msg. Inr (m, msg)))")
  case (Inl e)
  then show ?thesis using assms error by (auto simp: receive_step_def)
next
  case (Inr p)
  then obtain m msg where m: "message_deserialize (take 1024 response) = Inr m" "msg_factory m = Inr msg" "p = (m, msg)"
    by (auto simp: rbind_eq_Inr)
  have type: "m_type m = DONE" if "msg = DoneRecv"
    using m(2) that by (auto simp: msg_factory_def rbind_eq_Inr split: if_splits)
  have rs: "(r, st') = (case update now msg st (m_source m) of
      (Inr (Some p), st') \<Rightarrow> (Inr (Some p), st'\<lparr>co_phase := p\<rparr>) | (r, st') \<Rightarrow> (r, st'))"
    using assms Inr m(3) by (simp add: receive_step_def)
  show ?thesis
  proof (cases msg)
    case HBRecv
    then show ?thesis
    proof (cases "worker_of st (m_source m)")
      case (Inl e)
      then show ?thesis using rs HBRecv error by simp
    next
      case (Inr q)
      then obtain k w where "q = (k, w)" "map_of (co_workers st) k = Some w"
        by (metis worker_of_Inr surj_pair)
      then show ?thesis using rs HBRecv Inr heartbeat [of k w] by simp
    qed
  next
    case DoneRecv
    show ?thesis
    proof (cases "rbind (worker_of st (m_source m)) (\<lambda>(k, ws).
           rbind (py_assert (ws_is_mapper ws) ''Only mappers should send DONE message'') (\<lambda>_. Inr (k, ws)))")
      case (Inl e)
      then show ?thesis using rs DoneRecv error by simp
    next
      case (Inr q)
      then obtain k w where kw: "worker_of st (m_source m) = Inr (k, w)" "ws_is_mapper w" "q = (k, w)"
        by (auto simp: rbind_eq_Inr py_assert_Inr)
      then have "m_source m = JStr k" "map_of (co_workers st) k = Some w" by (simp_all add: worker_of_Inr)
      then show ?thesis
        using rs kw DoneRecv Inr by (intro finished [OF m(1) type [OF DoneRecv], of k w]) (simp_all add: Let_def split: if_splits)
    qed
  qed (use rs ignored in simp_all)
qed

lemma all_mappers_done_set:
  "all_mappers_done st \<Longrightarrow> map_of (co_workers st) k = Some w \<Longrightarrow> (ws_is_done w \<longrightarrow> ws_is_done w') \<Longrightarrow>
     ws_is_mapper w' = ws_is_mapper w \<Longrightarrow> all_mappers_done (set_worker st k w')"
proof -
  have "list_all (\<lambda>(_, ws). ws_is_mapper ws \<longrightarrow> ws_is_done ws) (dict_set ws k w')"
    if "list_all (\<lambda>(_, ws). ws_is_mapper ws \<longrightarrow> ws_is_done ws) ws" "map_of ws k = Some w"
      "ws_is_done w \<longrightarrow> ws_is_done w'" "ws_is_mapper w' = ws_is_mapper w" for ws
    using that by (induction ws) (auto split: if_splits)
  then show "all_mappers_done st \<Longrightarrow> map_of (co_workers st) k = Some w \<Longrightarrow> (ws_is_done w \<longrightarrow> ws_is_done w') \<Longrightarrow>
     ws_is_mapper w' = ws_is_mapper w \<Longrightarrow> all_mappers_done (set_worker st k w')"
    by (simp add: all_mappers_done_def set_worker_def)
qed

text \<open>Replacing the record of one worker by one with the same role keeps the table.\<close>

lemma coordinator_inv_set_worker:
  assumes inv: "coordinator_inv c" and w: "map_of (co_workers (sy_state c)) k = Some w"
    and same: "ws_is_mapper w' = ws_is_mapper w" "ws_port w' = ws_port w" "ws_starts w' = ws_starts w" "ws_idx w' = ws_idx w"
    and grows: "ws_is_done w \<longrightarrow> ws_is_done w'"
    and rep: "ws_is_done w' \<longrightarrow> ws_is_done w \<or> reported_done (sy_received c @ bs) k"
    and c': "c' = c\<lparr>sy_state := set_worker (sy_state c) k w', sy_received := sy_received c @ bs\<rparr>"
  shows "coordinator_inv c'"
proof -
  have old: "0 < ws_starts w" "ws_id w = k" "ws_is_done w \<longrightarrow> reported_done (sy_received c) k"
    using inv map_of_SomeD [OF w] by (auto simp: coordinator_inv_def)
  then have "ws_id w' = k" using same by (simp add: ws_id_def)
  note old = old this
  have "\<forall>(j, v) \<in> set (dict_set (co_workers (sy_state c)) k w').
      0 < ws_starts v \<and> ws_id v = j \<and> (ws_is_done v \<longrightarrow> reported_done (sy_received c @ bs) j)"
  proof -
    have "0 < ws_starts v \<and> ws_id v = j \<and> (ws_is_done v \<longrightarrow> reported_done (sy_received c @ bs) j)"
      if "(j, v) \<in> insert (k, w') (set (co_workers (sy_state c)))" for j v
      using that inv old same(3,4) rep reported_done_append by (auto simp: coordinator_inv_def)
    then show ?thesis using set_dict_set [of k w' "co_workers (sy_state c)"] by blast
  qed
  moreover have "statics (dict_set (co_workers (sy_state c)) k w') = worker_table"
    using inv statics_set [OF w same(1,2)] by (simp add: coordinator_inv_def)
  moreover have "all_mappers_done (sy_state c) \<Longrightarrow> all_mappers_done (set_worker (sy_state c) k w')"
    using all_mappers_done_set [OF _ w grows same(1)] by blast
  ultimately show ?thesis using inv unfolding c' coordinator_inv_def by (auto simp: set_worker_def)
qed

lemma coordinator_inv_receive:
  assumes inv: "coordinator_inv c" and "coordinator_step c (Receive now bs) = Some c'"
  shows "coordinator_inv c'"
proof -
  have alive: "\<not> sy_exited c" "sy_recv_alive c" using assms(2) by (auto simp: coordinator_step_def split: if_splits)
  obtain r st' where r: "receive_step now bs (sy_state c) = (r, st')" by fastforce
  let ?c = "c\<lparr>sy_received := sy_received c @ [bs]\<rparr>"
  have keep: "coordinator_inv ?c"
    using inv reported_done_append by (fastforce simp: coordinator_inv_def)
  from r show ?thesis
  proof (cases rule: receive_step_cases)
    case (error e)
    then show ?thesis using assms r alive by (auto simp: coordinator_step_def coordinator_inv_def)
  next
    case ignored
    then show ?thesis using assms(2) r alive keep by (simp add: coordinator_step_def)
  next
    case (heartbeat k w)
    then have "c' = c\<lparr>sy_state := set_worker (sy_state c) k (w\<lparr>ws_last_hb_recvd := now\<rparr>), sy_received := sy_received c @ [bs]\<rparr>"
      using assms(2) r alive by (simp add: coordinator_step_def)
    from coordinator_inv_set_worker [OF inv heartbeat(2) _ _ _ _ _ _ this] show ?thesis by simp
  next
    case (finished m k w)
    let ?d = "set_worker (sy_state c) k (w\<lparr>ws_is_done := True\<rparr>)"
    let ?e = "c\<lparr>sy_state := ?d, sy_received := sy_received c @ [bs]\<rparr>"
    have "reported_done (sy_received c @ [bs]) k" using finished(1-3) by (auto simp: reported_done_def)
    then have e: "coordinator_inv ?e"
      using coordinator_inv_set_worker [OF inv finished(4) _ _ _ _ _ _ refl] by simp
    show ?thesis
    proof (cases "all_mappers_done ?d")
      case True
      then have "c' = c\<lparr>sy_state := ?d\<lparr>co_phase := EXITING\<rparr>, sy_queue := sy_queue c @ [EXITING],
          sy_received := sy_received c @ [bs]\<rparr>"
        using assms(2) r alive finished by (simp add: coordinator_step_def Let_def)
      then show ?thesis using e True by (auto simp: coordinator_inv_def all_mappers_done_def)
    next
      case False
      then have "c' = ?e" using assms(2) r alive finished by (simp add: coordinator_step_def Let_def)
      then show ?thesis using e by simp
    qed
  qed
qed

lemma coordinator_inv_send:
  assumes inv: "coordinator_inv c" and "coordinator_step c Send = Some c'"
  shows "coordinator_inv c'"
proof -
  have alive: "\<not> sy_exited c" "sy_send_alive c" using assms(2) by (auto simp: coordinator_step_def split: if_splits)
  then obtain p q where q: "sy_queue c = p # q" using assms(2) by (auto simp: coordinator_step_def split: list.splits)
  then have "p = CP \<or> p = EXITING" using inv by (auto simp: coordinator_inv_def)
  then show ?thesis
  proof
    assume "p = CP"
    then have "c' = c\<lparr>sy_queue := q, sy_exited := False\<rparr>" using assms(2) alive q by (simp add: coordinator_step_def cp_phase_def)
    then show ?thesis using inv q by (auto simp: coordinator_inv_def)
  next
    assume p: "p = EXITING"
    then have ph: "co_phase (sy_state c) = EXITING" using inv q by (auto simp: coordinator_inv_def)
    have "statics (co_workers (sy_state c)) = worker_table" using inv by (simp add: coordinator_inv_def)
    then have "(port, exit_msg) \<in> set (map (\<lambda>(_, ws). (ws_port ws, exit_msg)) (co_workers (sy_state c)))"
      if "(k, m, port) \<in> set worker_table" for k m port
    proof -
      have "(k, m, port) \<in> set (statics (co_workers (sy_state c)))"
        using that \<open>statics (co_workers (sy_state c)) = worker_table\<close> by simp
      then show ?thesis by (force simp: statics_def)
    qed
    moreover have "c' = c\<lparr>sy_queue := q,
        sy_sent := sy_sent c @ map (\<lambda>(_, ws). (ws_port ws, exit_msg)) (co_workers (sy_state c)), sy_exited := True\<rparr>"
      using assms(2) alive q p ph by (simp add: coordinator_step_def exit_phase_def)
    ultimately show ?thesis using inv q ph by (auto simp: coordinator_inv_def)
  qed
qed

lemma monitor_health_inv:
  "coordinator_inv c \<Longrightarrow> monitor_health now (sy_state c) =
     (Inr (), (sy_state c)\<lparr>co_workers := map (\<lambda>(k, w). (k, restart_late now w)) (co_workers (sy_state c))\<rparr>)"
proof -
  assume "coordinator_inv c"
  then have "\<forall>(k, w) \<in> set (co_workers (sy_state c)). 0 < ws_starts w" by (auto simp: coordinator_inv_def)
  from monitor_loop_started [OF this] show ?thesis by (simp add: monitor_health_def)
qed

lemma all_mappers_done_restart:
  "all_mappers_done (st\<lparr>co_workers := map (\<lambda>(k, w). (k, restart_late now w)) (co_workers st)\<rparr>) = all_mappers_done st"
  by (simp add: all_mappers_done_def list.pred_map comp_def case_prod_unfold)

lemma coordinator_inv_alarm:
  assumes inv: "coordinator_inv c" and "coordinator_step c (Alarm now) = Some c'"
  shows "coordinator_inv c'"
proof -
  have "c' = c\<lparr>sy_state := (sy_state c)\<lparr>co_workers := map (\<lambda>(k, w). (k, restart_late now w)) (co_workers (sy_state c))\<rparr>\<rparr>"
    using assms(2) monitor_health_inv [OF inv] by (simp add: coordinator_step_def split: if_splits)
  moreover have "statics (map (\<lambda>(k, w). (k, restart_late now w)) ws) = statics ws" for ws
    by (induction ws) (auto simp: statics_def)
  ultimately show ?thesis
    using inv by (auto simp: coordinator_inv_def all_mappers_done_def list_all_iff split: prod.splits)
qed

text \<open>\<open>kill_worker\<close> finds the worker under its id.\<close>

lemma kill_worker_eq:
  "\<forall>(k, w) \<in> set ws. 0 < ws_starts w \<and> ws_id w = k \<Longrightarrow>
     kill_worker wid ws =
       Inr (case map_of ws wid of None \<Rightarrow> ws | Some w \<Rightarrow> dict_set ws wid (w\<lparr>ws_running := False\<rparr>))"
  by (induction ws) (auto split: option.splits)

lemma kill_step:
  assumes inv: "coordinator_inv c" and "\<not> sy_exited c"
  shows "coordinator_step c (Kill wid) = Some (case map_of (co_workers (sy_state c)) wid of None \<Rightarrow> c
    | Some w \<Rightarrow> c\<lparr>sy_state := set_worker (sy_state c) wid (w\<lparr>ws_running := False\<rparr>)\<rparr>)"
proof -
  have "\<forall>(k, w) \<in> set (co_workers (sy_state c)). 0 < ws_starts w \<and> ws_id w = k"
    using inv by (auto simp: coordinator_inv_def)
  from kill_worker_eq [OF this] assms(2) show ?thesis
    by (simp add: coordinator_step_def set_worker_def split: option.splits)
qed

lemma kill_cases:
  assumes "coordinator_inv c" and "coordinator_step c (Kill wid) = Some c'"
  obtains "c' = c"
  | w where "map_of (co_workers (sy_state c)) wid = Some w"
      "c' = c\<lparr>sy_state := set_worker (sy_state c) wid (w\<lparr>ws_running := False\<rparr>)\<rparr>"
proof -
  have "\<not> sy_exited c" using assms(2) by (auto simp: coordinator_step_def)
  then have c': "c' = (case map_of (co_workers (sy_state c)) wid of None \<Rightarrow> c
      | Some w \<Rightarrow> c\<lparr>sy_state := set_worker (sy_state c) wid (w\<lparr>ws_running := False\<rparr>)\<rparr>)"
    using kill_step [OF assms(1), of wid] assms(2) by simp
  show ?thesis
  proof (cases "map_of (co_workers (sy_state c)) wid")
    case None
    then show ?thesis using c' that(1) by simp
  next
    case (Some w)
    then show ?thesis using c' that(2) by simp
  qed
qed

lemma coordinator_inv_kill:
  assumes inv: "coordinator_inv c" and "coordinator_step c (Kill wid) = Some c'"
  shows "coordinator_inv c'"
  using assms
proof (cases rule: kill_cases)
  case (2 w)
  then show ?thesis
    using coordinator_inv_set_worker [OF inv 2(1), of "w\<lparr>ws_running := False\<rparr>" "[]"] by simp
qed (use inv in simp)

lemma coordinator_inv_reachable: "coordinator_reachable c \<Longrightarrow> coordinator_inv c"
proof (induction rule: coordinator_reachable.induct)
  case (step c l c')
  then show ?case
    by (cases l) (auto intro: coordinator_inv_receive coordinator_inv_send coordinator_inv_alarm coordinator_inv_kill)
qed (rule coordinator_inv_start)

text \<open>All mappers being done and the exit phase are the same, and the exit phase is queued until the end.\<close>

definition exit_pending :: "coordinator_sys \<Rightarrow> bool" where
  "exit_pending c \<longleftrightarrow>
     (all_mappers_done (sy_state c) \<longleftrightarrow> co_phase (sy_state c) = EXITING) \<and>
     (co_phase (sy_state c) = EXITING \<longrightarrow> sy_exited c \<or> EXITING \<in> set (sy_queue c))"

lemma all_mappers_done_same:
  "map_of (co_workers st) k = Some w \<Longrightarrow> ws_is_done w' = ws_is_done w \<Longrightarrow> ws_is_mapper w' = ws_is_mapper w \<Longrightarrow>
     all_mappers_done (set_worker st k w') = all_mappers_done st"
proof -
  have "list_all (\<lambda>(_, ws). ws_is_mapper ws \<longrightarrow> ws_is_done ws) (dict_set ws k w') =
      list_all (\<lambda>(_, ws). ws_is_mapper ws \<longrightarrow> ws_is_done ws) ws"
    if "map_of ws k = Some w" "ws_is_done w' = ws_is_done w" "ws_is_mapper w' = ws_is_mapper w" for ws
    using that by (induction ws) (auto split: if_splits)
  then show "map_of (co_workers st) k = Some w \<Longrightarrow> ws_is_done w' = ws_is_done w \<Longrightarrow> ws_is_mapper w' = ws_is_mapper w \<Longrightarrow>
     all_mappers_done (set_worker st k w') = all_mappers_done st"
    by (simp add: all_mappers_done_def set_worker_def)
qed

lemma exit_pending_receive:
  assumes ep: "exit_pending c" and "coordinator_step c (Receive now bs) = Some c'"
  shows "exit_pending c'"
proof -
  have alive: "\<not> sy_exited c" "sy_recv_alive c" using assms(2) by (auto simp: coordinator_step_def split: if_splits)
  obtain r st' where r: "receive_step now bs (sy_state c) = (r, st')" by fastforce
  from r show ?thesis
  proof (cases rule: receive_step_cases)
    case (heartbeat k w)
    then have "all_mappers_done st' = all_mappers_done (sy_state c)" by (simp add: all_mappers_done_same)
    then show ?thesis
      using assms alive r heartbeat by (auto simp: coordinator_step_def exit_pending_def set_worker_def)
  next
    case (finished m k w)
    let ?d = "set_worker (sy_state c) k (w\<lparr>ws_is_done := True\<rparr>)"
    have "co_phase ?d = co_phase (sy_state c)" by (simp add: set_worker_def)
    moreover have "all_mappers_done (sy_state c) \<Longrightarrow> all_mappers_done ?d"
      using all_mappers_done_set [OF _ finished(4)] by simp
    moreover have "all_mappers_done (?d\<lparr>co_phase := EXITING\<rparr>) = all_mappers_done ?d" by (simp add: all_mappers_done_def)
    ultimately show ?thesis
      using assms alive r finished by (auto simp: coordinator_step_def exit_pending_def Let_def split: if_splits)
  qed (use assms alive r in \<open>auto simp: coordinator_step_def exit_pending_def\<close>)
qed

lemma exit_pending_step:
  assumes ep: "exit_pending c" and inv: "coordinator_inv c" and st: "coordinator_step c l = Some c'"
  shows "exit_pending c'"
proof (cases l)
  case (Receive now bs)
  then show ?thesis using ep st exit_pending_receive by blast
next
  case Send
  then have alive: "\<not> sy_exited c" "sy_send_alive c" using st by (auto simp: coordinator_step_def split: if_splits)
  then obtain p q where q: "sy_queue c = p # q" using st Send by (auto simp: coordinator_step_def split: list.splits)
  then have "p = CP \<or> p = EXITING" using inv by (auto simp: coordinator_inv_def)
  then show ?thesis
    using ep inv st Send alive q
    by (auto simp: coordinator_step_def cp_phase_def exit_phase_def exit_pending_def coordinator_inv_def)
next
  case (Alarm now)
  then show ?thesis
    using ep st monitor_health_inv [OF inv, of now]
    by (auto simp: coordinator_step_def exit_pending_def all_mappers_done_restart split: if_splits)
next
  case (Kill wid)
  with inv st have "coordinator_step c (Kill wid) = Some c'" by simp
  with inv show ?thesis
    by (cases rule: kill_cases) (use ep in \<open>auto simp: exit_pending_def all_mappers_done_same\<close>)
qed

lemma exit_pending_reachable: "coordinator_reachable c \<Longrightarrow> exit_pending c"
proof (induction rule: coordinator_reachable.induct)
  case (start c)
  then show ?case
    by (auto simp: coordinator_start_eq exit_pending_def all_mappers_done_def started_worker_def worker_init_def)
next
  case (step c l c')
  then show ?case using exit_pending_step coordinator_inv_reachable by blast
qed

section \<open>Runs\<close>

fun coordinator_run :: "coordinator_sys \<Rightarrow> coordinator_label list \<Rightarrow> coordinator_sys option" where
  "coordinator_run c [] = Some c"
| "coordinator_run c (l # ls) = (case coordinator_step c l of None \<Rightarrow> None | Some c' \<Rightarrow> coordinator_run c' ls)"

lemma coordinator_run_reachable:
  "coordinator_reachable c \<Longrightarrow> coordinator_run c ls = Some c' \<Longrightarrow> coordinator_reachable c'"
  by (induction ls arbitrary: c) (auto split: option.splits intro: coordinator_reachable.step)

lemma send_until_exit:
  assumes "coordinator_reachable c" "\<not> sy_exited c" "EXITING \<in> set (sy_queue c)"
  shows "\<exists>n \<le> length (sy_queue c). \<exists>c'. coordinator_run c (replicate n Send) = Some c' \<and> sy_exited c'"
  using assms
proof (induction "length (sy_queue c)" arbitrary: c)
  case (Suc len)
  have inv: "coordinator_inv c" by (rule coordinator_inv_reachable [OF Suc.prems(1)])
  obtain p q where q: "sy_queue c = p # q" using Suc.hyps(2) by (cases "sy_queue c") auto
  have alive: "sy_send_alive c" and "p = CP \<or> p = EXITING" using inv q by (auto simp: coordinator_inv_def)
  from this(2) show ?case
  proof
    assume "p = EXITING"
    moreover have "co_phase (sy_state c) = EXITING" using inv Suc.prems(3) by (auto simp: coordinator_inv_def)
    ultimately have "\<exists>c'. coordinator_step c Send = Some c' \<and> sy_exited c'"
      using q alive Suc.prems(2) by (simp add: coordinator_step_def exit_phase_def)
    then obtain c' where "coordinator_step c Send = Some c'" "sy_exited c'" by blast
    then show ?thesis using q by (intro exI [of _ 1]) (simp add: exI [of _ c'])
  next
    assume "p = CP"
    then have st: "coordinator_step c Send = Some (c\<lparr>sy_queue := q, sy_exited := False\<rparr>)"
      using q alive Suc.prems(2) by (simp add: coordinator_step_def cp_phase_def)
    have "\<exists>n \<le> length q. \<exists>c'. coordinator_run (c\<lparr>sy_queue := q, sy_exited := False\<rparr>) (replicate n Send) = Some c' \<and> sy_exited c'"
      using Suc.hyps(1) [of "c\<lparr>sy_queue := q, sy_exited := False\<rparr>"] Suc.hyps(2) Suc.prems q \<open>p = CP\<close>
        coordinator_reachable.step [OF Suc.prems(1) st] by auto
    then obtain n c' where "n \<le> length q" "coordinator_run (c\<lparr>sy_queue := q, sy_exited := False\<rparr>) (replicate n Send) = Some c'"
      "sy_exited c'" by blast
    then show ?thesis using st q by (intro exI [of _ "Suc n"]) auto
  qed
qed simp

text \<open>Once the receive thread is dead, nobody is marked done any more.\<close>

lemma dead_receiver_run:
  assumes "coordinator_reachable c" "\<not> sy_recv_alive c" "\<not> all_mappers_done (sy_state c)"
    "coordinator_run c ls = Some c'"
  shows "\<not> sy_recv_alive c' \<and> \<not> all_mappers_done (sy_state c') \<and> \<not> sy_exited c'"
  using assms
proof (induction ls arbitrary: c)
  case Nil
  then show ?case
    using coordinator_inv_reachable [OF Nil.prems(1)] by (auto simp: coordinator_inv_def)
next
  case (Cons l ls)
  obtain d where d: "coordinator_step c l = Some d" "coordinator_run d ls = Some c'"
    using Cons.prems(4) by (auto split: option.splits)
  have "\<not> sy_recv_alive d \<and> \<not> all_mappers_done (sy_state d)"
  proof (cases l)
    case (Alarm now)
    then show ?thesis
      using d(1) Cons.prems(2,3) monitor_health_inv [OF coordinator_inv_reachable [OF Cons.prems(1)], of now]
      by (auto simp: coordinator_step_def all_mappers_done_restart split: if_splits)
  next
    case (Kill wid)
    with d(1) have "coordinator_step c (Kill wid) = Some d" by simp
    with coordinator_inv_reachable [OF Cons.prems(1)] show ?thesis
      by (cases rule: kill_cases) (use Cons.prems(2,3) in \<open>auto simp: all_mappers_done_same\<close>)
  qed (use d(1) Cons.prems(2,3) in
      \<open>auto simp: coordinator_step_def split: if_splits list.splits sum.splits prod.splits\<close>)
  then show ?case using Cons.IH coordinator_reachable.step [OF Cons.prems(1) d(1)] d(2) by blast
qed

section \<open>Properties\<close>

text \<open>
  C11. The coordinator's data keep their types: in every reachable state the table holds the four workers with
  the roles and ports they were created with, the queue holds only phases that the send thread can execute without
  an assertion failing, so the send thread is alive.
\<close>

theorem coordinator_typed:
  assumes "coordinator_reachable c"
  shows "statics (co_workers (sy_state c)) = worker_table \<and> set (sy_queue c) \<subseteq> {CP, EXITING} \<and>
    (\<forall>p \<in> set (sy_queue c). \<exists>ms killed. phase_action p (sy_state c) = Inr (ms, killed)) \<and> sy_send_alive c"
proof -
  have inv: "coordinator_inv c" by (rule coordinator_inv_reachable [OF assms])
  have "\<exists>ms killed. phase_action p (sy_state c) = Inr (ms, killed)" if "p \<in> set (sy_queue c)" for p
  proof -
    have "p = CP \<or> p = EXITING \<and> co_phase (sy_state c) = EXITING" using inv that by (auto simp: coordinator_inv_def)
    then show ?thesis by (auto simp: cp_phase_def exit_phase_def)
  qed
  with inv show ?thesis by (simp add: coordinator_inv_def)
qed

theorem coordinator_typed_witness:
  "\<exists>c. coordinator_start = Inr c \<and> statics (co_workers (sy_state c)) = worker_table \<and> sy_queue c = [CP] \<and> sy_send_alive c"
proof -
  obtain c where c: "coordinator_start = Inr c" "sy_queue c = [CP]" by (simp add: coordinator_start_eq)
  from coordinator_typed [OF coordinator_reachable.start [OF c(1)]] c show ?thesis by blast
qed

text \<open>
  C8. The job ends only when it is finished: whenever the coordinator process has killed itself,
  it had received a DONE message from each of the two mappers, and an EXIT message was
  sent to each of the four workers before.
\<close>

theorem coordinator_exit_safe:
  assumes "coordinator_reachable c" and "sy_exited c"
  shows "reported_done (sy_received c) ''Mapper_0'' \<and> reported_done (sy_received c) ''Mapper_1'' \<and>
    (\<forall>port \<in> set (MAPPER_PORTS @ REDUCER_PORTS). (port, exit_msg) \<in> set (sy_sent c))"
proof -
  have inv: "coordinator_inv c" by (rule coordinator_inv_reachable [OF assms(1)])
  then have st: "statics (co_workers (sy_state c)) = worker_table" and "all_mappers_done (sy_state c)"
    using assms(2) by (auto simp: coordinator_inv_def)
  have rep: "reported_done (sy_received c) k" if "(k, True, port) \<in> set worker_table" for k port
  proof -
    have "(k, True, port) \<in> set (statics (co_workers (sy_state c)))" using that st by simp
    then obtain w where "(k, w) \<in> set (co_workers (sy_state c))" "ws_is_mapper w" by (auto simp: statics_def)
    then show ?thesis
      using inv \<open>all_mappers_done (sy_state c)\<close> by (auto simp: coordinator_inv_def all_mappers_done_def list_all_iff)
  qed
  have sent: "(port, exit_msg) \<in> set (sy_sent c)" if "(k, m, port) \<in> set worker_table" for k m port
    using that inv assms(2) by (auto simp: coordinator_inv_def)
  have "\<forall>port \<in> {12901, 12902, 12903, 12904}. (port, exit_msg) \<in> set (sy_sent c)"
    using sent [of "''Mapper_0''" True 12901] sent [of "''Mapper_1''" True 12902]
      sent [of "''Reducer_0''" False 12903] sent [of "''Reducer_1''" False 12904] by (simp add: worker_table_def)
  moreover have "set (MAPPER_PORTS @ REDUCER_PORTS) = {12901, 12902, 12903, 12904}"
    by (simp add: MAPPER_PORTS_def REDUCER_PORTS_def COORDINATOR_PORT_def NUM_MAPPERS_def NUM_REDUCERS_def upt_rec
        numeral_2_eq_2)
  ultimately show ?thesis
    using rep [of "''Mapper_0''" 12901] rep [of "''Mapper_1''" 12902] by (simp add: worker_table_def)
qed

text \<open>The datagrams of a run in which both mappers finish.\<close>

definition mapper_done :: "nat \<Rightarrow> message" where
  "mapper_done i = \<lparr>m_type = DONE, m_source = JStr (''Mapper_'' @ digits i), m_kwargs = []\<rparr>"

definition finishing_run :: "coordinator_label list" where
  "finishing_run = [Receive 5 (block (mapper_done 0)), Alarm 6, Receive 6 (block (mapper_done 1))]"

lemma deserialize_mapper_done:
  assumes "i < 2"
  shows "message_deserialize (take 1024 (block (mapper_done i))) = Inr (mapper_done i)"
proof -
  have "length (dumps (JObj (message_dict (mapper_done 0)))) = 33" "length (dumps (JObj (message_dict (mapper_done 1)))) = 33"
    by code_simp+
  then have "length (dumps (JObj (message_dict (mapper_done i)))) \<le> BUFFER_SIZE - 4"
    using assms by (auto simp: less_2_cases_iff BUFFER_SIZE_def simp del: dumps.simps)
  then have "fits (mapper_done i)" by (simp add: fits_def wf_message_def mapper_done_def)
  then show ?thesis using blk.dec_enc block_fits by (simp add: BUFFER_SIZE_def)
qed

lemma finishing_run_result:
  "\<exists>c c'. coordinator_start = Inr c \<and> coordinator_run c finishing_run = Some c' \<and> co_phase (sy_state c') = EXITING \<and>
     sy_queue c' = [CP, EXITING] \<and> \<not> sy_exited c'"
proof -
  have "receive_step now (block (mapper_done i)) st = (case update now DoneRecv st (m_source (mapper_done i)) of
      (Inr (Some p), st') \<Rightarrow> (Inr (Some p), st'\<lparr>co_phase := p\<rparr>) | (r, st') \<Rightarrow> (r, st'))" if "i < 2" for now i st
    using deserialize_mapper_done [OF that] by (simp add: receive_step_def msg_factory_def mapper_done_def)
  from this [of 0] this [of "Suc 0"] worker_digits have rs:
    "receive_step now (block (mapper_done 0)) st = (case update now DoneRecv st (JStr ''Mapper_0'') of
      (Inr (Some p), st') \<Rightarrow> (Inr (Some p), st'\<lparr>co_phase := p\<rparr>) | (r, st') \<Rightarrow> (r, st'))"
    "receive_step now (block (mapper_done (Suc 0))) st = (case update now DoneRecv st (JStr ''Mapper_1'') of
      (Inr (Some p), st') \<Rightarrow> (Inr (Some p), st'\<lparr>co_phase := p\<rparr>) | (r, st') \<Rightarrow> (r, st'))" for now st
    by (simp_all add: mapper_done_def)
  show ?thesis
    by (simp add: coordinator_start_eq finishing_run_def coordinator_step_def rs dict_index_def started_worker_def
        worker_init_def set_worker_def all_mappers_done_def monitor_health_def check_worker_def start_worker_def
        HEARTBEAT_TIMEOUT_def Let_def)
qed

lemma finishing_run_reachable:
  "\<exists>c. coordinator_reachable c \<and> \<not> sy_exited c \<and> sy_queue c = [CP, EXITING] \<and> all_mappers_done (sy_state c)"
proof -
  obtain c c' where c: "coordinator_start = Inr c" "coordinator_run c finishing_run = Some c'"
    "co_phase (sy_state c') = EXITING" "sy_queue c' = [CP, EXITING]" "\<not> sy_exited c'"
    using finishing_run_result by blast
  have "coordinator_reachable c'" using coordinator_run_reachable [OF coordinator_reachable.start [OF c(1)] c(2)] .
  with c(3-5) show ?thesis using exit_pending_reachable by (auto simp: exit_pending_def)
qed

theorem coordinator_exit_safe_witness:
  "\<exists>c. coordinator_reachable c \<and> sy_exited c \<and>
    reported_done (sy_received c) ''Mapper_0'' \<and> reported_done (sy_received c) ''Mapper_1'' \<and>
    (\<forall>port \<in> set (MAPPER_PORTS @ REDUCER_PORTS). (port, exit_msg) \<in> set (sy_sent c))"
proof -
  obtain c where c: "coordinator_reachable c" "\<not> sy_exited c" "sy_queue c = [CP, EXITING]"
    using finishing_run_reachable by blast
  obtain n c' where "coordinator_run c (replicate n Send) = Some c'" "sy_exited c'"
    using send_until_exit [OF c(1,2)] c(3) by auto
  with coordinator_exit_safe [OF coordinator_run_reachable [OF c(1)]] coordinator_run_reachable [OF c(1)]
  show ?thesis by blast
qed

text \<open>
  C19. The job ends once it is finished: when all mappers are marked done, the send thread alone
  brings the process to its end, in as many iterations as there are phases queued; no assertion of a
  phase stops it.
\<close>

theorem coordinator_exits:
  assumes "coordinator_reachable c" and "\<not> sy_exited c" and "all_mappers_done (sy_state c)"
  shows "\<exists>n \<le> length (sy_queue c). \<exists>c'. coordinator_run c (replicate n Send) = Some c' \<and> sy_exited c'"
  using send_until_exit [OF assms(1,2)] exit_pending_reachable [OF assms(1)] assms(2,3)
  by (auto simp: exit_pending_def)

theorem coordinator_exits_witness:
  "\<exists>c. coordinator_reachable c \<and> sy_queue c = [CP, EXITING] \<and>
    (\<exists>n \<le> 2. \<exists>c'. coordinator_run c (replicate n Send) = Some c' \<and> sy_exited c')"
proof -
  obtain c where c: "coordinator_reachable c" "\<not> sy_exited c" "sy_queue c = [CP, EXITING]" "all_mappers_done (sy_state c)"
    using finishing_run_reachable by blast
  from coordinator_exits [OF c(1,2,4)] c(1,3) show ?thesis by (intro exI [of _ c]) (simp add: numeral_2_eq_2)
qed

text \<open>
  One datagram that is not a message ends the job without ending the process: the receive
  thread does not catch the exception, and if a mapper is still missing then no continuation of the
  run exits.
\<close>

theorem bad_datagram_stops_job:
  assumes "coordinator_reachable c" and "\<not> sy_exited c" and "sy_recv_alive c"
    and "message_deserialize (take 1024 bs) = Inl e" and "\<not> all_mappers_done (sy_state c)"
  shows "\<exists>d. coordinator_step c (Receive now bs) = Some d \<and>
    (\<forall>ls c'. coordinator_run d ls = Some c' \<longrightarrow> \<not> sy_exited c')"
proof -
  have d: "coordinator_step c (Receive now bs) = Some (c\<lparr>sy_recv_alive := False\<rparr>)"
    using assms(2-4) by (simp add: coordinator_step_def receive_step_def)
  have "\<not> sy_exited c'" if "coordinator_run (c\<lparr>sy_recv_alive := False\<rparr>) ls = Some c'" for ls c'
    using dead_receiver_run [OF coordinator_reachable.step [OF assms(1) d] _ _ that] assms(5) by simp
  with d show ?thesis by blast
qed

theorem bad_datagram_stops_job_witness:
  "\<exists>c d. coordinator_start = Inr c \<and> coordinator_step c (Receive 0 [1, 2, 3]) = Some d \<and>
    (\<forall>ls c'. coordinator_run d ls = Some c' \<longrightarrow> \<not> sy_exited c')"
proof -
  obtain c where c: "coordinator_start = Inr c" "\<not> sy_exited c" "sy_recv_alive c" "\<not> all_mappers_done (sy_state c)"
    by (simp add: coordinator_start_eq all_mappers_done_def started_worker_def worker_init_def)
  have "message_deserialize (take 1024 [1, 2, 3]) = Inl StructError" by (simp add: message_deserialize_def)
  from bad_datagram_stops_job [OF coordinator_reachable.start [OF c(1)] c(2,3) this c(4)] c(1) show ?thesis by blast
qed

lemma monitor_keeps_started:
  "\<forall>(k, w) \<in> set (co_workers st). 0 < ws_starts w \<Longrightarrow>
     snd (monitor_health now st) = st\<lparr>co_workers := map (\<lambda>(k, w). (k, restart_late now w)) (co_workers st)\<rparr> \<and>
     (\<forall>(k, w) \<in> set (co_workers (snd (monitor_health now st))). 0 < ws_starts w)"
  using monitor_loop_started [of "co_workers st" now] by (auto simp: monitor_health_def)

lemma map_of_restart: "map_of (map (\<lambda>(k, w). (k, f w)) ws) k = map_option f (map_of ws k)"
  by (induction ws) auto

lemma checks_restart:
  assumes "map_of (co_workers st) k = Some w" "\<forall>(k, w) \<in> set (co_workers st). 0 < ws_starts w"
    "\<And>now. now \<in> set ts \<Longrightarrow> now - ws_last_hb_recvd w > HEARTBEAT_TIMEOUT"
  shows "map_of (co_workers (fold (\<lambda>now st. snd (monitor_health now st)) ts st)) k =
    Some (if ts = [] then w else w\<lparr>ws_starts := ws_starts w + length ts, ws_running := True\<rparr>)"
  using assms
proof (induction ts arbitrary: st w)
  case (Cons now ts)
  note st' = monitor_keeps_started [OF Cons.prems(2), of now]
  have "map_of (co_workers (snd (monitor_health now st))) k =
      Some (w\<lparr>ws_starts := ws_starts w + 1, ws_running := True\<rparr>)"
    using st' Cons.prems(1) Cons.prems(3) [of now] by (simp add: map_of_restart restart_late_def)
  from Cons.IH [OF this] st' Cons.prems(3) show ?case by (cases ts) simp_all
qed simp

text \<open>
  The health check restarts a silent worker every time it runs: a restart does not reset the
  time of the last heartbeat, so a worker that needs longer than one interval to send its first
  heartbeat after a restart is killed again, once per check.
\<close>

theorem silent_worker_restarts:
  assumes "coordinator_reachable c" and "map_of (co_workers (sy_state c)) k = Some w"
    and "\<And>now. now \<in> set ts \<Longrightarrow> now - ws_last_hb_recvd w > HEARTBEAT_TIMEOUT"
  shows "map_of (co_workers (fold (\<lambda>now st. snd (monitor_health now st)) ts (sy_state c))) k =
    Some (if ts = [] then w else w\<lparr>ws_starts := ws_starts w + length ts, ws_running := True\<rparr>)"
proof -
  have "\<forall>(k, w) \<in> set (co_workers (sy_state c)). 0 < ws_starts w"
    using coordinator_inv_reachable [OF assms(1)] by (auto simp: coordinator_inv_def)
  from checks_restart [OF assms(2) this assms(3)] show ?thesis .
qed

theorem silent_worker_restarts_witness:
  "\<exists>c. coordinator_start = Inr c \<and>
    map_of (co_workers (fold (\<lambda>now st. snd (monitor_health now st)) [3, 4, 4] (sy_state c))) ''Reducer_0'' =
      Some ((started_worker 0 False 12903)\<lparr>ws_starts := 1 + 3, ws_running := True\<rparr>)"
proof -
  obtain c where c: "coordinator_start = Inr c"
    "map_of (co_workers (sy_state c)) ''Reducer_0'' = Some (started_worker 0 False 12903)"
    by (simp add: coordinator_start_eq)
  have "now - ws_last_hb_recvd (started_worker 0 False 12903) > HEARTBEAT_TIMEOUT" if "now \<in> set [3, 4, 4]" for now
    using that by (auto simp: started_worker_def worker_init_def HEARTBEAT_TIMEOUT_def)
  from silent_worker_restarts [OF coordinator_reachable.start [OF c(1)] c(2), of "[3, 4, 4]", OF this] c(1)
  show ?thesis by (intro exI [of _ c]) (simp add: started_worker_def worker_init_def numeral_3_eq_3)
qed



text \<open>
  The checkpoint to recover from: with all checkpoint ids non-negative it is the smallest id of
  a worker, with -1 for "from the beginning" when a worker has none yet; but from 1,000,001 on the
  answer is the constant 1,000,000, whatever the workers have.
\<close>

theorem last_completed_checkpoint_min:
  assumes "co_workers st \<noteq> []" and "\<And>k w. (k, w) \<in> set (co_workers st) \<Longrightarrow> 0 \<le> ws_last_cp_id w"
  shows "last_completed_checkpoint_id st =
    (let m = Min ((\<lambda>(k, w). ws_last_cp_id w) ` set (co_workers st)) in
     if m = 0 then - 1 else min m 1000000)"
proof -
  let ?f = "\<lambda>(k :: string, w). ws_last_cp_id w"
  have "fold (\<lambda>(_, ws) c. if c > ws_last_cp_id ws then ws_last_cp_id ws else c) ws c = fold min (map ?f ws) c"
    for ws c by (induction ws arbitrary: c) (auto simp: min_def)
  then have fe: "fold (\<lambda>(_, ws) c. if c > ws_last_cp_id ws then ws_last_cp_id ws else c) ws c = Min (insert c (?f ` set ws))"
    for ws c using Min.set_eq_fold [of c "map ?f ws"] by simp
  have me: "Min (insert 1000000 (?f ` set (co_workers st))) = min 1000000 (Min (?f ` set (co_workers st)))"
    using assms(1) by (intro Min_insert) auto
  show ?thesis unfolding last_completed_checkpoint_id_def Let_def fe me by (simp add: min_def)
qed

theorem last_completed_checkpoint_min_witness:
  "last_completed_checkpoint_id (coordinator_init\<lparr>co_workers :=
     [(''Mapper_0'', (worker_init 0 True 1)\<lparr>ws_last_cp_id := 7\<rparr>), (''Reducer_0'', (worker_init 0 False 2)\<lparr>ws_last_cp_id := 5\<rparr>)]\<rparr>) = 5"
  by (subst last_completed_checkpoint_min) (auto simp: worker_init_def)

end
