(* ===== verification/JobRuns.thy ===== *)
theory JobRuns
  imports WordCountRun Coordinator
begin

text \<open>
  The processes of lab 2 in one system: the coordinator, two mappers and two reducers with their
  threads, the datagrams between workers and coordinator, which may be reordered and lost, and the
  connections from mappers to reducers. \<open>Mapper.run\<close>, \<open>Reducer.run\<close>, the connection loop of
  \<open>MapperState.__post_init__\<close> and the heartbeat threads (\<open>mapper.py\<close>, \<open>reducer.py\<close>) appear here as
  labels; what the threads do in one iteration is taken from \<open>WordCount\<close> and \<open>Coordinator\<close>. A
  worker that the coordinator restarts is a new process with a new incarnation number, the number of
  starts.
\<close>

section \<open>Processes\<close>

record mapper_proc =
  mp_inc :: nat
  mp_connected :: nat
  mp_state :: "nat mapper_state"
  mp_queue :: "mapper_cmd list"

text \<open>
  A reducer has a connection for each incarnation of a mapper that connected to it, with the bytes
  that have not been read yet.
\<close>

record reducer_proc =
  rp_alive :: bool
  rp_state :: reducer_state
  rp_queue :: "reducer_cmd list"
  rp_conns :: "(nat \<times> nat, bytes) dict"

definition mapper_start :: "nat \<Rightarrow> nat \<Rightarrow> mapper_proc" where
  "mapper_start i inc = \<lparr>mp_inc = inc, mp_connected = 0, mp_state = mapper_init i 0 NUM_REDUCERS, mp_queue = []\<rparr>"

definition reducer_start :: "nat \<Rightarrow> reducer_proc" where
  "reducer_start r = \<lparr>rp_alive = True, rp_state = reducer_init r, rp_queue = [], rp_conns = []\<rparr>"

text \<open>\<open>j_log\<close> remembers the state a mapper had when it reported that it is done.\<close>

record job =
  j_co :: coordinator_sys
  j_mapper :: "nat \<Rightarrow> mapper_proc"
  j_reducer :: "nat \<Rightarrow> reducer_proc"
  j_net :: "bytes list"
  j_wnet :: "(nat \<times> message) list"
  j_log :: "(nat \<times> nat mapper_state) list"

definition reducer_name :: "nat \<Rightarrow> string" where
  "reducer_name r = ''Reducer_'' @ digits r"

definition heartbeat_message :: "string \<Rightarrow> message" where
  "heartbeat_message src = \<lparr>m_type = HEARTBEAT, m_source = JStr src, m_kwargs = []\<rparr>"

section \<open>Steps\<close>

text \<open>One round of the loop in \<open>__post_init__\<close>: the reducers are connected in order, each when it listens.\<close>

definition connect_step :: "nat \<Rightarrow> job \<Rightarrow> job option" where
  "connect_step i j =
     (let p = j_mapper j i; r = mp_connected p in
      if i < NUM_MAPPERS \<and> ms_alive (mp_state p) \<and> r < NUM_REDUCERS \<and> rp_alive (j_reducer j r) then
        Some (j\<lparr>j_mapper := (j_mapper j)(i := p\<lparr>mp_connected := Suc r\<rparr>),
                j_reducer := (j_reducer j)(r := (j_reducer j r)\<lparr>rp_conns :=
                   dict_set (rp_conns (j_reducer j r)) (i, mp_inc p) []\<rparr>)\<rparr>)
      else None)"

text \<open>The bytes an iteration wrote to reducer \<open>r\<close> reach its connection, if that still exists.\<close>

definition written :: "nat mapper_state \<Rightarrow> nat mapper_state \<Rightarrow> nat \<Rightarrow> bytes" where
  "written st st' r = (if r < length (ms_sent st') then drop (length (ms_sent st ! r)) (ms_sent st' ! r) else [])"

definition receive_bytes :: "nat \<times> nat \<Rightarrow> bytes \<Rightarrow> reducer_proc \<Rightarrow> reducer_proc" where
  "receive_bytes key bs p =
     (case dict_get (rp_conns p) key of
        None \<Rightarrow> p
      | Some b \<Rightarrow> p\<lparr>rp_conns := dict_set (rp_conns p) key (b @ bs)\<rparr>)"

text \<open>
  One iteration of the mapper's \<open>CmdHandler\<close>, which starts when all connections are there. A send on a
  connection whose reducer has gone may fail (\<open>brk\<close>) or get lost. What the iteration sends to the coordinator
  is at most one \<open>DONE\<close>.
\<close>

definition mapper_step ::
  "(nat \<Rightarrow> nat \<Rightarrow> (nat \<times> string) option) \<Rightarrow> (string \<Rightarrow> string option list res) \<Rightarrow>
     nat \<Rightarrow> (nat \<Rightarrow> bool) \<Rightarrow> job \<Rightarrow> job option" where
  "mapper_step xread read_csv i brk j =
     (let p = j_mapper j i; st = mp_state p;
          lost = (\<lambda>r. r < NUM_REDUCERS \<and> dict_get (rp_conns (j_reducer j r)) (i, mp_inc p) = None) in
      if i < NUM_MAPPERS \<and> ms_alive st \<and> mp_connected p = NUM_REDUCERS then
        (case mapper_iteration (xread i) read_csv (\<lambda>r. brk r \<and> lost r) (mp_queue p) st of
           None \<Rightarrow> None
         | Some (q, st') \<Rightarrow>
             let ms = drop (length (ms_to_coordinator st)) (ms_to_coordinator st') in
             Some (j\<lparr>j_mapper := (j_mapper j)(i := p\<lparr>mp_state := st', mp_queue := q\<rparr>),
                     j_reducer := (\<lambda>r. receive_bytes (i, mp_inc p) (written st st' r) (j_reducer j r)),
                     j_net := j_net j @ map block ms,
                     j_log := j_log j @ map (\<lambda>m. (i, st')) ms\<rparr>))
      else None)"

text \<open>
  What an iteration has written to each reducer when its process is killed in the middle: the first \<open>m\<close> counts of
  the file, and \<open>k\<close> bytes of the next one. None, if it does not get so far.
\<close>

definition cut_short ::
  "(nat \<Rightarrow> (nat \<times> string) option) \<Rightarrow> (string \<Rightarrow> string option list res) \<Rightarrow> nat \<Rightarrow> nat \<Rightarrow>
     nat mapper_state \<Rightarrow> bytes list option" where
  "cut_short xread read_csv m k st =
     (case xread (ms_last_stream_id st) of
        None \<Rightarrow> None
      | Some (message_id, filepath) \<Rightarrow>
          (case rbind (read_csv filepath) all_text of
             Inl e \<Rightarrow> None
           | Inr text \<Rightarrow>
               let items = counter (split_space text); n = length (ms_sent st) in
               (case send_counts (\<lambda>_. False) (ms_id st) (ms_last_recovery_id st) (take m items) (replicate n []) of
                  (Inl e, sent) \<Rightarrow> None
                | (Inr _, sent) \<Rightarrow>
                    (case drop m items of
                       [] \<Rightarrow> if k = 0 then Some sent else None
                     | (word, cnt) # _ \<Rightarrow>
                         (case rbind (word_2_socket n word) (\<lambda>r.
                               rbind (message_serialize (wc_message (ms_id st) (ms_last_recovery_id st) word cnt))
                                 (\<lambda>bs. Inr (r, bs))) of
                            Inl e \<Rightarrow> None
                          | Inr (r, bs) \<Rightarrow>
                              if k < length bs then Some (sent[r := sent ! r @ take k bs]) else None)))))"

text \<open>The heartbeat threads; a mapper starts its own after the connections.\<close>

definition mapper_heartbeat :: "nat \<Rightarrow> job \<Rightarrow> job option" where
  "mapper_heartbeat i j =
     (if i < NUM_MAPPERS \<and> ms_alive (mp_state (j_mapper j i)) \<and> mp_connected (j_mapper j i) = NUM_REDUCERS
      then Some (j\<lparr>j_net := j_net j @ [block (heartbeat_message (mapper_name i))]\<rparr>) else None)"

definition reducer_heartbeat :: "nat \<Rightarrow> job \<Rightarrow> job option" where
  "reducer_heartbeat r j =
     (if r < NUM_REDUCERS \<and> rp_alive (j_reducer j r)
      then Some (j\<lparr>j_net := j_net j @ [block (heartbeat_message (reducer_name r))]\<rparr>) else None)"

definition remove_nth :: "nat \<Rightarrow> 'a list \<Rightarrow> 'a list" where
  "remove_nth k xs = take k xs @ drop (Suc k) xs"

text \<open>The coordinator's receive thread takes any datagram that is on its way.\<close>

definition deliver_step :: "nat \<Rightarrow> int \<Rightarrow> job \<Rightarrow> job option" where
  "deliver_step k now j =
     (if k < length (j_net j) then
        (case coordinator_step (j_co j) (Receive now (j_net j ! k)) of
           None \<Rightarrow> None
         | Some c \<Rightarrow> Some (j\<lparr>j_co := c, j_net := remove_nth k (j_net j)\<rparr>))
      else None)"

text \<open>What a restart or a kill of a worker does to its process.\<close>

definition sync_mapper :: "worker_state option \<Rightarrow> worker_state option \<Rightarrow> nat \<Rightarrow> mapper_proc \<Rightarrow> mapper_proc" where
  "sync_mapper old new i p =
     (case (old, new) of
        (Some w, Some w') \<Rightarrow>
          if ws_starts w' \<noteq> ws_starts w then mapper_start i (ws_starts w')
          else if \<not> ws_running w' then p\<lparr>mp_state := (mp_state p)\<lparr>ms_alive := False\<rparr>\<rparr>
          else p
      | _ \<Rightarrow> p)"

definition sync_reducer :: "worker_state option \<Rightarrow> worker_state option \<Rightarrow> nat \<Rightarrow> reducer_proc \<Rightarrow> reducer_proc" where
  "sync_reducer old new r p =
     (case (old, new) of
        (Some w, Some w') \<Rightarrow>
          if ws_starts w' \<noteq> ws_starts w then reducer_start r
          else if \<not> ws_running w' then p\<lparr>rp_alive := False, rp_conns := []\<rparr>
          else p
      | _ \<Rightarrow> p)"

definition co_worker :: "coordinator_sys \<Rightarrow> string \<Rightarrow> worker_state option" where
  "co_worker c k = dict_get (co_workers (sy_state c)) k"

text \<open>The coordinator's send thread, its timer, and the killing of workers by a test mode.\<close>

definition coordinate_step :: "coordinator_label \<Rightarrow> job \<Rightarrow> job option" where
  "coordinate_step l j =
     (case l of
        Receive now bs \<Rightarrow> None
      | _ \<Rightarrow>
          (case coordinator_step (j_co j) l of
             None \<Rightarrow> None
           | Some c \<Rightarrow>
               Some (j\<lparr>j_co := c,
                       j_mapper := (\<lambda>i. sync_mapper (co_worker (j_co j) (mapper_name i)) (co_worker c (mapper_name i)) i (j_mapper j i)),
                       j_reducer := (\<lambda>r. sync_reducer (co_worker (j_co j) (reducer_name r)) (co_worker c (reducer_name r)) r (j_reducer j r)),
                       j_wnet := j_wnet j @ drop (length (sy_sent (j_co j))) (sy_sent c)\<rparr>)))"

text \<open>
  The coordinator kills mapper \<open>i\<close>, or starts it anew, while the mapper is in the middle of an iteration. What it has
  written by then reaches the reducers.
\<close>

definition interrupt_step ::
  "(nat \<Rightarrow> nat \<Rightarrow> (nat \<times> string) option) \<Rightarrow> (string \<Rightarrow> string option list res) \<Rightarrow>
     nat \<Rightarrow> nat \<Rightarrow> nat \<Rightarrow> coordinator_label \<Rightarrow> job \<Rightarrow> job option" where
  "interrupt_step xread read_csv i m k l j =
     (let p = j_mapper j i in
      if i < NUM_MAPPERS \<and> ms_alive (mp_state p) \<and> mp_connected p = NUM_REDUCERS \<and> mp_queue p = [] \<and>
         \<not> ms_is_wc_done (mp_state p)
      then
        (case (cut_short (xread i) read_csv m k (mp_state p), coordinate_step l j) of
           (Some sent, Some j') \<Rightarrow>
             if mp_inc (j_mapper j' i) = mp_inc p \<and> ms_alive (mp_state (j_mapper j' i)) then None
             else Some (j'\<lparr>j_reducer := (\<lambda>r.
                    if r < length sent then receive_bytes (i, mp_inc p) (sent ! r) (j_reducer j' r)
                    else j_reducer j' r)\<rparr>)
         | _ \<Rightarrow> None)
      else None)"

text \<open>A worker's \<open>handle_coordinator\<close> takes a datagram from its port; a mapper has bound it after its connections.\<close>

definition command_step :: "nat \<Rightarrow> job \<Rightarrow> job option" where
  "command_step k j =
     (if k < length (j_wnet j) then
        (case j_wnet j ! k of
           (port, m) \<Rightarrow>
             Some (j\<lparr>j_mapper := (\<lambda>i. let p = j_mapper j i in
                       if i < NUM_MAPPERS \<and> MAPPER_PORTS ! i = port \<and> ms_alive (mp_state p) \<and> mp_connected p = NUM_REDUCERS
                       then p\<lparr>mp_queue := mp_queue p @ mapper_handle_datagram (block m)\<rparr> else p),
                     j_reducer := (\<lambda>r. let p = j_reducer j r in
                       if r < NUM_REDUCERS \<and> REDUCER_PORTS ! r = port \<and> rp_alive p
                       then p\<lparr>rp_queue := rp_queue p @ reducer_handle_datagram (block m)\<rparr> else p),
                     j_wnet := remove_nth k (j_wnet j)\<rparr>))
      else None)"

text \<open>
  One iteration of the thread that serves the connection \<open>key\<close>: it reads a whole block and queues the
  command, or leaves the loop, because of an exception or because the peer has gone.
\<close>

definition read_step :: "nat \<Rightarrow> nat \<times> nat \<Rightarrow> job \<Rightarrow> job option" where
  "read_step r key j =
     (let p = j_reducer j r in
      if r < NUM_REDUCERS \<and> rp_alive p then
        (case dict_get (rp_conns p) key of
           None \<Rightarrow> None
         | Some b \<Rightarrow>
             if length b < 1024 then
               (if mp_inc (j_mapper j (fst key)) = snd key \<and> ms_alive (mp_state (j_mapper j (fst key))) then None
                else Some (j\<lparr>j_reducer := (j_reducer j)(r := p\<lparr>rp_conns := AList.delete key (rp_conns p)\<rparr>)\<rparr>))
             else
               (case rbind (message_deserialize (take 1024 b)) mapper_block_cmds of
                  Inl e \<Rightarrow> Some (j\<lparr>j_reducer := (j_reducer j)(r := p\<lparr>rp_conns := AList.delete key (rp_conns p)\<rparr>)\<rparr>)
                | Inr cmds \<Rightarrow> Some (j\<lparr>j_reducer := (j_reducer j)(r := p\<lparr>rp_queue := rp_queue p @ cmds,
                    rp_conns := dict_set (rp_conns p) key (drop 1024 b)\<rparr>)\<rparr>)))
      else None)"

text \<open>One iteration of the reducer's \<open>CmdHandler\<close>; an exception and \<open>exit\<close> end the process.\<close>

definition reducer_step :: "nat \<Rightarrow> job \<Rightarrow> job option" where
  "reducer_step r j =
     (let p = j_reducer j r in
      if r < NUM_REDUCERS \<and> rp_alive p then
        (case rp_queue p of
           [] \<Rightarrow> None
         | cmd # q \<Rightarrow>
             (case reducer_handle cmd (rp_state p) of
                Inl e \<Rightarrow> Some (j\<lparr>j_reducer := (j_reducer j)(r := p\<lparr>rp_alive := False, rp_queue := q, rp_conns := []\<rparr>)\<rparr>)
              | Inr st' \<Rightarrow> Some (j\<lparr>j_reducer := (j_reducer j)(r := p\<lparr>rp_state := st', rp_queue := q\<rparr>)\<rparr>)))
      else None)"

datatype job_label =
    Connect nat
  | MapperStep nat "nat \<Rightarrow> bool"
  | MapperHeartbeat nat
  | ReducerHeartbeat nat
  | Deliver nat int
  | DropDatagram nat
  | Coordinate coordinator_label
  | Interrupt nat nat nat coordinator_label
  | Command nat
  | DropCommand nat
  | ReadBlock nat "nat \<times> nat"
  | ReducerStep nat

fun job_step ::
  "(nat \<Rightarrow> nat \<Rightarrow> (nat \<times> string) option) \<Rightarrow> (string \<Rightarrow> string option list res) \<Rightarrow> job \<Rightarrow> job_label \<Rightarrow> job option" where
  "job_step xread read_csv j (Connect i) = connect_step i j"
| "job_step xread read_csv j (MapperStep i brk) = mapper_step xread read_csv i brk j"
| "job_step xread read_csv j (MapperHeartbeat i) = mapper_heartbeat i j"
| "job_step xread read_csv j (ReducerHeartbeat r) = reducer_heartbeat r j"
| "job_step xread read_csv j (Deliver k now) = deliver_step k now j"
| "job_step xread read_csv j (DropDatagram k) =
     (if k < length (j_net j) then Some (j\<lparr>j_net := remove_nth k (j_net j)\<rparr>) else None)"
| "job_step xread read_csv j (Coordinate l) = coordinate_step l j"
| "job_step xread read_csv j (Interrupt i m k l) = interrupt_step xread read_csv i m k l j"
| "job_step xread read_csv j (Command k) = command_step k j"
| "job_step xread read_csv j (DropCommand k) =
     (if k < length (j_wnet j) then Some (j\<lparr>j_wnet := remove_nth k (j_wnet j)\<rparr>) else None)"
| "job_step xread read_csv j (ReadBlock r key) = read_step r key j"
| "job_step xread read_csv j (ReducerStep r) = reducer_step r j"

definition job_start :: "coordinator_sys \<Rightarrow> job" where
  "job_start c =
     \<lparr>j_co = c, j_mapper = (\<lambda>i. mapper_start i 1), j_reducer = reducer_start, j_net = [], j_wnet = [], j_log = []\<rparr>"

inductive job_reachable ::
  "(nat \<Rightarrow> nat \<Rightarrow> (nat \<times> string) option) \<Rightarrow> (string \<Rightarrow> string option list res) \<Rightarrow> job \<Rightarrow> bool"
  for xread read_csv where
  start: "coordinator_start = Inr c \<Longrightarrow> job_reachable xread read_csv (job_start c)"
| step: "job_reachable xread read_csv j \<Longrightarrow> job_step xread read_csv j l = Some j' \<Longrightarrow> job_reachable xread read_csv j'"


section \<open>The datagrams to the coordinator\<close>

definition worker_names :: "string list" where
  "worker_names = [mapper_name 0, mapper_name 1, reducer_name 0, reducer_name 1]"

lemma worker_names_eq: "worker_names = [''Mapper_0'', ''Mapper_1'', ''Reducer_0'', ''Reducer_1'']"
  by (simp add: worker_names_def mapper_name_def reducer_name_def worker_digits)

definition datagram_ok :: "(nat \<times> nat mapper_state) list \<Rightarrow> bytes \<Rightarrow> bool" where
  "datagram_ok log bs \<longleftrightarrow>
     (\<exists>k \<in> set worker_names. bs = block (heartbeat_message k)) \<or>
     (\<exists>i < NUM_MAPPERS. bs = block (done_message (mapper_name i)) \<and> i \<in> fst ` set log)"

lemma mapper_name_simps: "mapper_name 0 = ''Mapper_0''" "mapper_name (Suc 0) = ''Mapper_1''" "mapper_name 1 = ''Mapper_1''"
  by (simp_all add: mapper_name_def worker_digits)

lemma fits_plain:
  assumes "length (dumps_str src) \<le> 900"
  shows "fits (heartbeat_message src)" "fits (done_message src)"
proof -
  have keys: "length (dumps_str ''type'') = 6" "length (dumps_str ''source'') = 8"
    "length (dumps_int (mt_value HEARTBEAT)) \<le> 2" "length (dumps_int (mt_value DONE)) \<le> 2"
    by code_simp+
  have wf: "wf_message (heartbeat_message src)" "wf_message (done_message src)"
    by (simp_all add: wf_message_def heartbeat_message_def done_message_def)
  have "length (dumps (JObj (message_dict (heartbeat_message src)))) \<le> 1020"
    "length (dumps (JObj (message_dict (done_message src)))) \<le> 1020"
    unfolding message_dict_wf [OF wf(1)] message_dict_wf [OF wf(2)] using assms keys
    by (simp_all add: heartbeat_message_def done_message_def)
  then show "fits (heartbeat_message src)" "fits (done_message src)"
    using wf by (simp_all add: fits_def BUFFER_SIZE_def del: dumps.simps)
qed

lemma fits_names: "k \<in> set worker_names \<Longrightarrow> fits (heartbeat_message k) \<and> fits (done_message k)"
proof -
  have "list_all (\<lambda>k. length (dumps_str k) \<le> 900) worker_names" unfolding worker_names_eq by code_simp
  then show "k \<in> set worker_names \<Longrightarrow> fits (heartbeat_message k) \<and> fits (done_message k)"
    using fits_plain by (auto simp: list_all_iff)
qed

lemma take_block: "fits m \<Longrightarrow> take 1024 (block m) = block m"
  using block_fits [of m] by (simp add: BUFFER_SIZE_def)

text \<open>A worker of the table is known to the coordinator, with the role of the table.\<close>

lemma known_worker:
  assumes "coordinator_inv c" "(k, is_mapper, port) \<in> set worker_table"
  shows "\<exists>w. map_of (co_workers (sy_state c)) k = Some w \<and> ws_is_mapper w = is_mapper \<and> ws_port w = port"
proof -
  have st: "statics (co_workers (sy_state c)) = worker_table" using assms(1) by (simp add: coordinator_inv_def)
  have "map_of (statics ws) k = map_option (\<lambda>w. (ws_is_mapper w, ws_port w)) (map_of ws k)" for ws
    by (induction ws) (auto simp: statics_def)
  then have "map_of worker_table k = map_option (\<lambda>w. (ws_is_mapper w, ws_port w)) (map_of (co_workers (sy_state c)) k)"
    using st by metis
  moreover have "map_of worker_table k = Some (is_mapper, port)"
    using assms(2) by (auto simp: worker_table_def)
  ultimately show ?thesis by (cases "map_of (co_workers (sy_state c)) k") auto
qed

lemma worker_name_known:
  assumes "coordinator_inv c" "k \<in> set worker_names"
  shows "\<exists>w. map_of (co_workers (sy_state c)) k = Some w"
proof -
  have "\<exists>m p. (k, m, p) \<in> set worker_table" using assms(2) by (auto simp: worker_names_eq worker_table_def)
  then show ?thesis using known_worker [OF assms(1)] by blast
qed

lemma mapper_name_known:
  assumes "coordinator_inv c" "i < NUM_MAPPERS"
  shows "\<exists>w. map_of (co_workers (sy_state c)) (mapper_name i) = Some w \<and> ws_is_mapper w"
proof -
  have "\<exists>p. (mapper_name i, True, p) \<in> set worker_table"
    using assms(2) by (auto simp: worker_table_def NUM_MAPPERS_def less_2_cases_iff mapper_name_simps)
  then show ?thesis using known_worker [OF assms(1)] by blast
qed

lemma mapper_name_member: "i < NUM_MAPPERS \<Longrightarrow> mapper_name i \<in> set worker_names"
  by (auto simp: worker_names_def NUM_MAPPERS_def less_2_cases_iff)

lemma reducer_name_member: "r < NUM_REDUCERS \<Longrightarrow> reducer_name r \<in> set worker_names"
  by (auto simp: worker_names_def NUM_REDUCERS_def less_2_cases_iff)

text \<open>No datagram of a worker makes the receive thread raise.\<close>

lemma receive_ok:
  assumes "coordinator_inv c" "datagram_ok log bs" "receive_step now bs (sy_state c) = (r, st')"
  shows "\<exists>p. r = Inr p"
  using assms(2) unfolding datagram_ok_def
proof
  assume "\<exists>k \<in> set worker_names. bs = block (heartbeat_message k)"
  then obtain k where k: "k \<in> set worker_names" "bs = block (heartbeat_message k)" by blast
  obtain w where w: "map_of (co_workers (sy_state c)) k = Some w" using worker_name_known [OF assms(1) k(1)] by blast
  have "message_deserialize (take 1024 bs) = Inr (heartbeat_message k)"
    using fits_names [OF k(1)] by (simp add: k(2) take_block blk.dec_enc)
  then show ?thesis using assms(3) w
    by (auto simp: receive_step_def msg_factory_def heartbeat_message_def dict_index_def)
next
  assume "\<exists>i < NUM_MAPPERS. bs = block (done_message (mapper_name i)) \<and> i \<in> fst ` set log"
  then obtain i where i: "i < NUM_MAPPERS" "bs = block (done_message (mapper_name i))" by blast
  obtain w where w: "map_of (co_workers (sy_state c)) (mapper_name i) = Some w" "ws_is_mapper w"
    using mapper_name_known [OF assms(1) i(1)] by blast
  have "message_deserialize (take 1024 bs) = Inr (done_message (mapper_name i))"
    using fits_names [OF mapper_name_member [OF i(1)]] by (simp add: i(2) take_block blk.dec_enc)
  then show ?thesis using assms(3) w
    by (auto simp: receive_step_def msg_factory_def done_message_def dict_index_def Let_def split: if_splits)
qed

text \<open>What an iteration of a mapper tells the coordinator.\<close>

lemma word_count_messages:
  "ms_id (word_count xread read_csv brk st) = ms_id st \<and>
   ms_to_coordinator (word_count xread read_csv brk st) =
     ms_to_coordinator st @ (if xread (ms_last_stream_id st) = None then [done_message (ms_id st)] else [])"
  by (auto simp: word_count_def done_message_def split: option.split sum.split prod.split)

lemma mapper_handle_messages:
  "ms_id (mapper_handle cmd st) = ms_id st \<and> ms_to_coordinator (mapper_handle cmd st) = ms_to_coordinator st"
  by (cases cmd) simp_all

lemma mapper_iteration_messages:
  assumes "mapper_iteration xread read_csv brk q st = Some (q', st')"
  shows "ms_id st' = ms_id st \<and>
    (\<exists>ms. ms_to_coordinator st' = ms_to_coordinator st @ ms \<and> (ms = [] \<or> ms = [done_message (ms_id st)]))"
proof (cases q)
  case (Cons cmd cmds)
  then have "st' = mapper_handle cmd st" using assms by (simp add: mapper_iteration_def)
  then show ?thesis by (simp add: mapper_handle_messages)
next
  case Nil
  then have "st' = word_count xread read_csv brk st" using assms by (simp add: mapper_iteration_def split: if_splits)
  then show ?thesis using word_count_messages [of xread read_csv brk st] by simp
qed

definition job_inv :: "job \<Rightarrow> bool" where
  "job_inv j \<longleftrightarrow> coordinator_reachable (j_co j) \<and> sy_recv_alive (j_co j) \<and>
     (\<forall>i. ms_id (mp_state (j_mapper j i)) = mapper_name i) \<and>
     (\<forall>bs \<in> set (j_net j) \<union> set (sy_received (j_co j)). datagram_ok (j_log j) bs)"

lemma datagram_ok_mono: "datagram_ok log bs \<Longrightarrow> datagram_ok (log @ log') bs"
  by (auto simp: datagram_ok_def)

lemma set_remove_nth: "set (remove_nth k xs) \<subseteq> set xs"
  by (auto simp: remove_nth_def dest: in_set_takeD in_set_dropD)

lemma coordinator_step_receives:
  assumes "coordinator_step c l = Some c'"
  shows "set (sy_received c') \<subseteq> set (sy_received c) \<union> (case l of Receive now bs \<Rightarrow> {bs} | _ \<Rightarrow> {})"
    and "(case l of Receive now bs \<Rightarrow> True | _ \<Rightarrow> sy_recv_alive c' = sy_recv_alive c)"
  using assms
  by (auto simp: coordinator_step_def
      split: coordinator_label.splits if_splits prod.splits sum.splits option.splits list.splits)

lemma mapper_start_id [simp]: "ms_id (mp_state (mapper_start i inc)) = mapper_name i"
  by (simp add: mapper_start_def mapper_init_def mapper_name_def)

lemma sync_mapper_id:
  "ms_id (mp_state p) = mapper_name i \<Longrightarrow> ms_id (mp_state (sync_mapper old new i p)) = mapper_name i"
  by (simp add: sync_mapper_def split: option.split)

lemma job_inv_start: "coordinator_start = Inr c \<Longrightarrow> job_inv (job_start c)"
  using coordinator_reachable.start [of c]
  by (auto simp: job_inv_def job_start_def coordinator_start_eq)


lemma job_inv_mapper:
  assumes inv: "job_inv j" and st: "mapper_step xread read_csv i brk j = Some j'"
  shows "job_inv j'"
proof -
  obtain q st' where i: "i < NUM_MAPPERS" and it: "mapper_iteration (xread i) read_csv
      (\<lambda>r. brk r \<and> r < NUM_REDUCERS \<and> dict_get (rp_conns (j_reducer j r)) (i, mp_inc (j_mapper j i)) = None)
      (mp_queue (j_mapper j i)) (mp_state (j_mapper j i)) = Some (q, st')"
    and j': "j_co j' = j_co j" "j_mapper j' = (j_mapper j)(i := (j_mapper j i)\<lparr>mp_state := st', mp_queue := q\<rparr>)"
      "j_net j' = j_net j @ map block (drop (length (ms_to_coordinator (mp_state (j_mapper j i)))) (ms_to_coordinator st'))"
      "j_log j' = j_log j @ map (\<lambda>m. (i, st')) (drop (length (ms_to_coordinator (mp_state (j_mapper j i)))) (ms_to_coordinator st'))"
    using st by (auto simp: mapper_step_def Let_def split: if_splits option.splits)
  have id: "ms_id (mp_state (j_mapper j i)) = mapper_name i" using inv by (simp add: job_inv_def)
  obtain ms where ms: "ms_to_coordinator st' = ms_to_coordinator (mp_state (j_mapper j i)) @ ms"
    "ms = [] \<or> ms = [done_message (mapper_name i)]" "ms_id st' = mapper_name i"
    using mapper_iteration_messages [OF it] id by auto
  have "datagram_ok (j_log j') bs" if "bs \<in> set (map block ms)" for bs
    using that ms i j'(4) by (auto simp: datagram_ok_def)
  then show ?thesis
    using inv ms j' datagram_ok_mono by (auto simp: job_inv_def)
qed

lemma job_inv_deliver:
  assumes inv: "job_inv j" and st: "deliver_step k now j = Some j'"
  shows "job_inv j'"
proof -
  obtain c where k: "k < length (j_net j)" and c: "coordinator_step (j_co j) (Receive now (j_net j ! k)) = Some c"
    and j': "j' = j\<lparr>j_co := c, j_net := remove_nth k (j_net j)\<rparr>"
    using st by (auto simp: deliver_step_def split: if_splits option.splits)
  let ?bs = "j_net j ! k"
  have co: "coordinator_inv (j_co j)" using inv coordinator_inv_reachable by (simp add: job_inv_def)
  have bs: "datagram_ok (j_log j) ?bs" using inv k by (simp add: job_inv_def)
  obtain r st' where r: "receive_step now ?bs (sy_state (j_co j)) = (r, st')" by fastforce
  obtain p where p: "r = Inr p" using receive_ok [OF co bs r] by blast
  have alive: "sy_recv_alive c"
    using c r p inv by (auto simp: coordinator_step_def job_inv_def split: if_splits option.splits)
  have "coordinator_reachable c"
    using inv c by (auto simp: job_inv_def intro: coordinator_reachable.step)
  moreover have "set (sy_received c) \<subseteq> insert ?bs (set (sy_received (j_co j)))"
    using coordinator_step_receives(1) [OF c] by simp
  ultimately show ?thesis
    using inv alive bs set_remove_nth [of k "j_net j"] unfolding job_inv_def j' by auto
qed

lemma coordinate_cases:
  assumes "coordinate_step l j = Some j'"
  obtains c where "coordinator_step (j_co j) l = Some c" "j_co j' = c"
    "j_mapper j' = (\<lambda>i. sync_mapper (co_worker (j_co j) (mapper_name i)) (co_worker c (mapper_name i)) i (j_mapper j i))"
    "j_reducer j' = (\<lambda>r. sync_reducer (co_worker (j_co j) (reducer_name r)) (co_worker c (reducer_name r)) r (j_reducer j r))"
    "j_wnet j' = j_wnet j @ drop (length (sy_sent (j_co j))) (sy_sent c)" "j_net j' = j_net j" "j_log j' = j_log j"
    "\<And>now bs. l \<noteq> Receive now bs"
  using assms by (auto simp: coordinate_step_def split: coordinator_label.splits option.splits)

lemma job_inv_coordinate:
  assumes inv: "job_inv j" and st: "coordinate_step l j = Some j'"
  shows "job_inv j'"
proof -
  obtain c where c: "coordinator_step (j_co j) l = Some c" and nr: "\<And>now bs. l \<noteq> Receive now bs"
    and j': "j_co j' = c" "j_net j' = j_net j" "j_log j' = j_log j"
      "j_mapper j' = (\<lambda>i. sync_mapper (co_worker (j_co j) (mapper_name i)) (co_worker c (mapper_name i)) i (j_mapper j i))"
    by (rule coordinate_cases [OF st]) blast
  have "set (sy_received c) \<subseteq> set (sy_received (j_co j))" "sy_recv_alive c = sy_recv_alive (j_co j)"
    using coordinator_step_receives [OF c] nr by (cases l; simp)+
  moreover have "coordinator_reachable c"
    using inv c by (auto simp: job_inv_def intro: coordinator_reachable.step)
  ultimately show ?thesis using inv j' sync_mapper_id by (auto simp: job_inv_def)
qed

lemma interrupt_cases:
  assumes "interrupt_step xread read_csv i m k l j = Some j'"
  obtains j2 sent where "coordinate_step l j = Some j2" "cut_short (xread i) read_csv m k (mp_state (j_mapper j i)) = Some sent"
    "i < NUM_MAPPERS" "ms_alive (mp_state (j_mapper j i))" "mp_connected (j_mapper j i) = NUM_REDUCERS"
    "\<not> ms_is_wc_done (mp_state (j_mapper j i))"
    "mp_inc (j_mapper j2 i) \<noteq> mp_inc (j_mapper j i) \<or> \<not> ms_alive (mp_state (j_mapper j2 i))"
    "j' = j2\<lparr>j_reducer := (\<lambda>r. if r < length sent then receive_bytes (i, mp_inc (j_mapper j i)) (sent ! r) (j_reducer j2 r)
       else j_reducer j2 r)\<rparr>"
  using assms by (auto simp: interrupt_step_def Let_def split: if_splits option.splits)

lemma datagram_heartbeat: "k \<in> set worker_names \<Longrightarrow> datagram_ok log (block (heartbeat_message k))"
  by (auto simp: datagram_ok_def)

lemma job_inv_step:
  assumes inv: "job_inv j" and st: "job_step xread read_csv j l = Some j'"
  shows "job_inv j'"
proof (cases l)
  case (MapperHeartbeat i)
  then have "i < NUM_MAPPERS" "j' = j\<lparr>j_net := j_net j @ [block (heartbeat_message (mapper_name i))]\<rparr>"
    using st by (auto simp: mapper_heartbeat_def split: if_splits)
  then show ?thesis using inv datagram_heartbeat [OF mapper_name_member] by (auto simp: job_inv_def)
next
  case (ReducerHeartbeat r)
  then have "r < NUM_REDUCERS" "j' = j\<lparr>j_net := j_net j @ [block (heartbeat_message (reducer_name r))]\<rparr>"
    using st by (auto simp: reducer_heartbeat_def split: if_splits)
  then show ?thesis using inv datagram_heartbeat [OF reducer_name_member] by (auto simp: job_inv_def)
next
  case (DropDatagram k)
  then show ?thesis using inv st set_remove_nth [of k "j_net j"] by (auto simp: job_inv_def split: if_splits)
next
  case (MapperStep i brk)
  then show ?thesis using job_inv_mapper [OF inv] st by simp
next
  case (Deliver k now)
  then show ?thesis using job_inv_deliver [OF inv] st by simp
next
  case (Coordinate c)
  then show ?thesis using job_inv_coordinate [OF inv] st by simp
next
  case (Interrupt i m k c)
  with st have "interrupt_step xread read_csv i m k c j = Some j'" by simp
  then obtain j2 f where "coordinate_step c j = Some j2" "j' = j2\<lparr>j_reducer := f\<rparr>" by (rule interrupt_cases)
  then show ?thesis using job_inv_coordinate [OF inv] by (auto simp: job_inv_def)
next
  case (Connect i)
  then show ?thesis using inv st by (auto simp: connect_step_def Let_def job_inv_def split: if_splits)
next
  case (Command k)
  then show ?thesis using inv st by (auto simp: command_step_def Let_def job_inv_def split: if_splits prod.splits)
next
  case (DropCommand k)
  then show ?thesis using inv st by (auto simp: job_inv_def split: if_splits)
next
  case (ReadBlock r key)
  then show ?thesis using inv st
    by (auto simp: read_step_def Let_def job_inv_def split: if_splits option.splits sum.splits)
next
  case (ReducerStep r)
  then show ?thesis using inv st
    by (auto simp: reducer_step_def Let_def job_inv_def split: if_splits list.splits sum.splits)
qed

lemma job_reachable_inv: "job_reachable xread read_csv j \<Longrightarrow> job_inv j"
  by (induction rule: job_reachable.induct) (auto intro: job_inv_start job_inv_step)


section \<open>Losing workers\<close>

text \<open>The workers \<open>ks\<close> have been started once and run.\<close>

definition unlost :: "string list \<Rightarrow> coordinator_sys \<Rightarrow> bool" where
  "unlost ks c \<longleftrightarrow> (\<forall>k \<in> set ks. \<exists>w. co_worker c k = Some w \<and> ws_starts w = 1 \<and> ws_running w)"

text \<open>A job that has lost no worker, and one that has lost no reducer; the coordinator has not ended either.\<close>

definition live :: "job \<Rightarrow> bool" where
  "live j \<longleftrightarrow> unlost worker_names (j_co j) \<and> \<not> sy_exited (j_co j)"

definition reducers_kept :: "job \<Rightarrow> bool" where
  "reducers_kept j \<longleftrightarrow> unlost [reducer_name 0, reducer_name 1] (j_co j) \<and> \<not> sy_exited (j_co j)"

lemma unlost_mono: "unlost ks c \<Longrightarrow> set ks' \<subseteq> set ks \<Longrightarrow> unlost ks' c"
  by (auto simp: unlost_def)

lemma live_kept: "live j \<Longrightarrow> reducers_kept j"
  using unlost_mono [of worker_names "j_co j" "[reducer_name 0, reducer_name 1]"]
  by (auto simp: live_def reducers_kept_def worker_names_def)

lemma co_worker_set:
  "co_worker (c\<lparr>sy_state := set_worker (sy_state c) k w\<rparr>) k' = (if k' = k then Some w else co_worker c k')"
  by (simp add: co_worker_def set_worker_def dict_simps)

lemma co_worker_same:
  "co_workers (sy_state c') = co_workers (sy_state c) \<Longrightarrow> co_worker c' k = co_worker c k"
  by (simp add: co_worker_def)

text \<open>A datagram neither starts nor stops a worker; other steps of the coordinator start it anew, or can only stop it.\<close>

lemma worker_receive:
  assumes st: "coordinator_step c (Receive now bs) = Some c'" and w: "co_worker c k = Some w"
  shows "\<exists>w'. co_worker c' k = Some w' \<and> ws_starts w' = ws_starts w \<and> ws_running w' = ws_running w"
proof -
  obtain r st' where r: "receive_step now bs (sy_state c) = (r, st')" by fastforce
  have c': "co_workers (sy_state c') = co_workers st'"
    using st r by (auto simp: coordinator_step_def split: if_splits sum.splits option.splits)
  from r show ?thesis
  proof (cases rule: receive_step_cases)
    case (heartbeat k2 w2)
    then show ?thesis using w c' by (cases "k2 = k") (auto simp: co_worker_def set_worker_def dict_simps)
  next
    case (finished m k2 w2)
    then have "co_workers st' = dict_set (co_workers (sy_state c)) k2 (w2\<lparr>ws_is_done := True\<rparr>)"
      by (simp add: Let_def set_worker_def)
    then show ?thesis using w c' finished(4) by (cases "k2 = k") (auto simp: co_worker_def dict_simps)
  qed (use w c' in \<open>auto simp: co_worker_def\<close>)
qed

lemma worker_step:
  assumes inv: "coordinator_inv c" and st: "coordinator_step c l = Some c'" and w: "co_worker c k = Some w"
  shows "\<exists>w'. co_worker c' k = Some w' \<and>
    (ws_starts w' = ws_starts w \<and> (ws_running w' \<longrightarrow> ws_running w) \<or> ws_starts w' = Suc (ws_starts w) \<and> ws_running w')"
proof (cases l)
  case (Receive now bs)
  then show ?thesis using worker_receive [of c now bs c' k w] st w by auto
next
  case Send
  then have "co_workers (sy_state c') = co_workers (sy_state c)"
    using st by (auto simp: coordinator_step_def split: if_splits sum.splits list.splits)
  then show ?thesis using w by (simp add: co_worker_def)
next
  case (Alarm now)
  have "map_of (map (\<lambda>(k, w). (k, restart_late now w)) ws) k = map_option (restart_late now) (map_of ws k)" for ws
    by (induction ws) auto
  then have "co_worker c' k = Some (restart_late now w)"
    using st Alarm monitor_health_inv [OF inv, of now] w by (auto simp: coordinator_step_def co_worker_def split: if_splits)
  then show ?thesis by (auto simp: restart_late_def)
next
  case (Kill wid)
  with inv st have "coordinator_step c (Kill wid) = Some c'" by simp
  with inv show ?thesis
  proof (cases rule: kill_cases)
    case (2 w2)
    then show ?thesis using w by (cases "wid = k") (auto simp: co_worker_def set_worker_def dict_simps)
  qed (use w in auto)
qed

lemma unlost_back:
  assumes inv: "coordinator_inv c" and st: "coordinator_step c l = Some c'" and u: "unlost ks c'"
    and ks: "set ks \<subseteq> set worker_names"
  shows "unlost ks c"
  unfolding unlost_def
proof
  fix k assume k: "k \<in> set ks"
  then obtain w where w: "co_worker c k = Some w" using worker_name_known [OF inv] ks by (auto simp: co_worker_def)
  obtain w' where w': "co_worker c' k = Some w'"
    "ws_starts w' = ws_starts w \<and> (ws_running w' \<longrightarrow> ws_running w) \<or> ws_starts w' = Suc (ws_starts w) \<and> ws_running w'"
    using worker_step [OF inv st w] by blast
  have "0 < ws_starts w" using inv w by (auto simp: coordinator_inv_def co_worker_def dest: map_of_SomeD)
  then show "\<exists>w. co_worker c k = Some w \<and> ws_starts w = 1 \<and> ws_running w"
    using u k w w' by (force simp: unlost_def)
qed

lemma step_sends:
  assumes "coordinator_inv c" "coordinator_step c l = Some c'" "\<not> sy_exited c'"
  shows "sy_sent c' = sy_sent c"
proof (cases l)
  case Send
  then obtain p q where q: "sy_queue c = p # q" "sy_send_alive c" "\<not> sy_exited c"
    using assms(2) by (auto simp: coordinator_step_def split: if_splits list.splits)
  then have "p = CP \<or> p = EXITING" using assms(1) by (auto simp: coordinator_inv_def)
  then show ?thesis using assms(2,3) Send q
    by (auto simp: coordinator_step_def cp_phase_def exit_phase_def rbind_def split: sum.splits)
qed (use assms(2) in \<open>auto simp: coordinator_step_def split: if_splits sum.splits option.splits prod.splits\<close>)

lemma job_co_step:
  assumes "job_step xread read_csv j l = Some j'"
  shows "j_co j' = j_co j \<or> (\<exists>cl. coordinator_step (j_co j) cl = Some (j_co j'))"
  using assms
  by (cases l) (auto simp: connect_step_def mapper_step_def mapper_heartbeat_def reducer_heartbeat_def deliver_step_def
      coordinate_step_def interrupt_step_def command_step_def read_step_def reducer_step_def Let_def
      split: if_splits option.splits prod.splits list.splits sum.splits coordinator_label.splits)

lemma back_step:
  assumes "job_inv j" "job_step xread read_csv j l = Some j'" "set ks \<subseteq> set worker_names"
    "unlost ks (j_co j')" "\<not> sy_exited (j_co j')"
  shows "unlost ks (j_co j) \<and> \<not> sy_exited (j_co j)"
proof -
  have inv: "coordinator_inv (j_co j)" using assms(1) coordinator_inv_reachable by (simp add: job_inv_def)
  from job_co_step [OF assms(2)] show ?thesis
  proof
    assume "\<exists>cl. coordinator_step (j_co j) cl = Some (j_co j')"
    then obtain cl where cl: "coordinator_step (j_co j) cl = Some (j_co j')" by blast
    then have "\<not> sy_exited (j_co j)" by (auto simp: coordinator_step_def)
    then show ?thesis using unlost_back [OF inv cl assms(4,3)] by simp
  qed (use assms(4,5) in simp)
qed

lemma kept_back:
  assumes "job_inv j" "job_step xread read_csv j l = Some j'" "reducers_kept j'"
  shows "reducers_kept j"
  using back_step [OF assms(1,2), of "[reducer_name 0, reducer_name 1]"] assms(3)
  by (auto simp: reducers_kept_def worker_names_def)

text \<open>While no reducer is lost and the job has not ended, the coordinator leaves reducers and commands alone.\<close>

lemma sync_kept:
  assumes "unlost [reducer_name 0, reducer_name 1] c" "unlost [reducer_name 0, reducer_name 1] c'" "r < NUM_REDUCERS"
  shows "sync_reducer (co_worker c (reducer_name r)) (co_worker c' (reducer_name r)) r q = q"
  using assms by (auto simp: unlost_def sync_reducer_def NUM_REDUCERS_def less_2_cases_iff)

text \<open>A mapper process is what the coordinator takes it for.\<close>

definition linked :: "worker_state option \<Rightarrow> mapper_proc \<Rightarrow> bool" where
  "linked old p \<longleftrightarrow> (\<exists>w. old = Some w \<and> ws_starts w = mp_inc p \<and> ws_running w = ms_alive (mp_state p))"

lemma linked_sync:
  assumes inv: "coordinator_inv c" and st: "coordinator_step c l = Some c'" and p: "linked (co_worker c k) p"
    and p': "p' = sync_mapper (co_worker c k) (co_worker c' k) i p"
  shows "linked (co_worker c' k) p' \<and>
    (p' = p \<or> p' = p\<lparr>mp_state := (mp_state p)\<lparr>ms_alive := False\<rparr>\<rparr> \<or> p' = mapper_start i (Suc (mp_inc p)))"
proof -
  obtain w where w: "co_worker c k = Some w" "ws_starts w = mp_inc p" "ws_running w = ms_alive (mp_state p)"
    using p by (auto simp: linked_def)
  obtain w' where w': "co_worker c' k = Some w'"
    "ws_starts w' = ws_starts w \<and> (ws_running w' \<longrightarrow> ws_running w) \<or> ws_starts w' = Suc (ws_starts w) \<and> ws_running w'"
    using worker_step [OF inv st w(1)] by blast
  then show ?thesis unfolding p' linked_def using w
    by (cases "ws_running w'") (auto simp: sync_mapper_def mapper_start_def mapper_init_def)
qed

end
