(* ===== verification/JobPositions.thy ===== *)
theory JobPositions
  imports JobRuns
begin

text \<open>
  Where the counts of a lab 2 job are, as long as no reducer is lost: each count that any incarnation of a mapper
  has sent is in exactly one of the places where the code can have it, on a connection,
  in a reducer's queue or in its dictionary, and what a mapper was sending when it was killed is there up to the
  byte. The steps of all threads keep this (\<open>job_pos\<close>).
\<close>

section \<open>How far a job is\<close>

text \<open>The bytes of some counts on a connection.\<close>

definition wire_bytes :: "string \<Rightarrow> (string \<times> int) list \<Rightarrow> bytes" where
  "wire_bytes src items = concat (map (\<lambda>(w, n). block (wc_message src 0 w n)) items)"

abbreviation for_reducer :: "nat \<Rightarrow> (string \<times> int) list \<Rightarrow> (string \<times> int) list" where
  "for_reducer r items \<equiv> filter (\<lambda>(w, n). route w = r) items"

lemma blocks_wire: "blocks src 0 r items = wire_bytes src (for_reducer r items)"
  by (simp add: blocks_def wire_bytes_def)

lemma wire_bytes_simps [simp]:
  "wire_bytes src [] = []" "wire_bytes src (p # items) = block (wc_message src 0 (fst p) (snd p)) @ wire_bytes src items"
  "wire_bytes src (xs @ ys) = wire_bytes src xs @ wire_bytes src ys"
  by (simp_all add: wire_bytes_def case_prod_unfold)

lemma items_of_append: "items_of texts (xs @ ys) = items_of texts xs @ items_of texts ys"
  by (simp add: items_of_def)

text \<open>
  What has been achieved: \<open>pg_entries i\<close> are the entries that the present process of mapper \<open>i\<close> has processed,
  \<open>pg_sent i inc\<close> the counts that its incarnation \<open>inc\<close> has sent whole, \<open>pg_done i\<close> the incarnations that have
  reported.
\<close>

record progress =
  pg_entries :: "nat \<Rightarrow> (nat \<times> string) list"
  pg_sent :: "nat \<Rightarrow> nat \<Rightarrow> (string \<times> int) list"
  pg_done :: "nat \<Rightarrow> nat set"

text \<open>
  Mapper \<open>i\<close>: every incarnation has sent an initial part of the counts of its stream, one that has reported all of
  them; a living process has processed exactly the entries \<open>pg_entries\<close>.
\<close>

definition mapper_pos ::
  "(nat \<Rightarrow> nat \<Rightarrow> (nat \<times> string) option) \<Rightarrow> (string \<Rightarrow> string list) \<Rightarrow> string list \<Rightarrow> progress \<Rightarrow> nat \<Rightarrow>
     mapper_proc \<Rightarrow> bool" where
  "mapper_pos xread texts files g i p \<longleftrightarrow>
     mp_queue p = [] \<and> mp_connected p \<le> NUM_REDUCERS \<and>
     (mp_connected p < NUM_REDUCERS \<longrightarrow> pg_sent g i (mp_inc p) = []) \<and>
     ms_id (mp_state p) = mapper_name i \<and> ms_last_recovery_id (mp_state p) = 0 \<and>
     (\<forall>inc. \<exists>ys. items_of texts (streams_of files ! i) = pg_sent g i inc @ ys) \<and>
     (\<forall>inc. inc \<notin> {1..mp_inc p} \<longrightarrow> pg_sent g i inc = []) \<and>
     pg_done g i \<subseteq> {1..mp_inc p} \<and> (\<forall>inc \<in> pg_done g i. pg_sent g i inc = items_of texts (streams_of files ! i)) \<and>
     (mp_inc p \<in> pg_done g i \<longleftrightarrow> ms_is_wc_done (mp_state p)) \<and> 0 < mp_inc p \<and>
     (ms_alive (mp_state p) \<longrightarrow>
       pg_sent g i (mp_inc p) = items_of texts (pg_entries g i) \<and>
       ms_sent (mp_state p) = map (\<lambda>r. blocks (mapper_name i) 0 r (items_of texts (pg_entries g i))) [0, 1] \<and>
       (\<exists>rest. streams_of files ! i = pg_entries g i @ rest \<and>
          (if ms_is_wc_done (mp_state p) then rest = [] else stream_reads (xread i) (ms_last_stream_id (mp_state p)) rest)))"

text \<open>The connections of reducer \<open>r\<close>: what is on them is the counts \<open>rest\<close>, and a part of a count when the sender is no more.\<close>

definition conns_pos ::
  "nat \<Rightarrow> (nat \<Rightarrow> mapper_proc) \<Rightarrow> (nat \<Rightarrow> nat \<Rightarrow> (string \<times> int) list) \<Rightarrow> (nat \<times> nat, bytes) dict \<Rightarrow> bool" where
  "conns_pos r procs rest conns \<longleftrightarrow>
     (\<forall>i inc. case dict_get conns (i, inc) of
        None \<Rightarrow> rest i inc = []
      | Some b \<Rightarrow> i < NUM_MAPPERS \<and> inc \<in> {1..mp_inc (procs i)} \<and>
          (\<exists>frag. b = wire_bytes (mapper_name i) (rest i inc) @ frag \<and> length frag < 1024 \<and>
             (ms_alive (mp_state (procs i)) \<and> inc = mp_inc (procs i) \<longrightarrow> frag = []))) \<and>
     (\<forall>i < NUM_MAPPERS. ms_alive (mp_state (procs i)) \<longrightarrow>
        (dict_get conns (i, mp_inc (procs i)) \<noteq> None \<longleftrightarrow> r < mp_connected (procs i)))"

text \<open>All counts that were read from any process.\<close>

definition all_incs :: "(nat \<Rightarrow> mapper_proc) \<Rightarrow> (nat \<Rightarrow> nat \<Rightarrow> 'a :: comm_monoid_add) \<Rightarrow> 'a" where
  "all_incs procs f = (\<Sum>i < NUM_MAPPERS. \<Sum>inc \<in> {1..mp_inc (procs i)}. f i inc)"

text \<open>
  Reducer \<open>r\<close>: of the counts written to it, those in \<open>rd\<close> have been read, those in \<open>rest\<close> are on the
  connections; the commands read have been executed or are in the queue.
\<close>

definition reducer_pos ::
  "nat \<Rightarrow> progress \<Rightarrow> (nat \<Rightarrow> mapper_proc) \<Rightarrow> (nat \<Rightarrow> nat \<Rightarrow> (string \<times> int) list) \<Rightarrow>
     (nat \<Rightarrow> nat \<Rightarrow> (string \<times> int) list) \<Rightarrow> reducer_cmd list \<Rightarrow> reducer_proc \<Rightarrow> bool" where
  "reducer_pos r g procs rd rest done p \<longleftrightarrow>
     rp_alive p \<and>
     (\<forall>i < NUM_MAPPERS. \<forall>inc. for_reducer r (pg_sent g i inc) = rd i inc @ rest i inc) \<and>
     conns_pos r procs rest (rp_conns p) \<and>
     reducer_run done (reducer_init r) = Inr (rp_state p) \<and>
     mset (done @ rp_queue p) = all_incs procs (\<lambda>i inc. mset (map wc_cmd (rd i inc)))"

text \<open>How often mapper \<open>i\<close> has reported that it is done.\<close>

definition reports :: "job \<Rightarrow> nat \<Rightarrow> nat" where
  "reports j i = length (filter (\<lambda>e. fst e = i) (j_log j))"

definition job_pos ::
  "(nat \<Rightarrow> nat \<Rightarrow> (nat \<times> string) option) \<Rightarrow> (string \<Rightarrow> string list) \<Rightarrow> string list \<Rightarrow> progress \<Rightarrow> job \<Rightarrow> bool" where
  "job_pos xread texts files g j \<longleftrightarrow>
     (\<forall>i < NUM_MAPPERS. mapper_pos xread texts files g i (j_mapper j i) \<and>
        linked (co_worker (j_co j) (mapper_name i)) (j_mapper j i) \<and> reports j i = card (pg_done g i)) \<and>
     (\<forall>r < NUM_REDUCERS. \<exists>rd rest done. reducer_pos r g (j_mapper j) rd rest done (j_reducer j r)) \<and>
     j_wnet j = [] \<and> fst ` set (j_log j) \<subseteq> {..<NUM_MAPPERS}"

lemma job_posD:
  assumes "job_pos xread texts files g j"
  shows "i < NUM_MAPPERS \<Longrightarrow> mapper_pos xread texts files g i (j_mapper j i)"
    "i < NUM_MAPPERS \<Longrightarrow> linked (co_worker (j_co j) (mapper_name i)) (j_mapper j i)"
    "i < NUM_MAPPERS \<Longrightarrow> reports j i = card (pg_done g i)"
    "r < NUM_REDUCERS \<Longrightarrow> \<exists>rd rest done. reducer_pos r g (j_mapper j) rd rest done (j_reducer j r)"
    "j_wnet j = []" "fst ` set (j_log j) \<subseteq> {..<NUM_MAPPERS}"
  using assms by (simp_all add: job_pos_def)

lemma sum_two: "(\<Sum>i < NUM_MAPPERS. f i) = f 0 + f (1 :: nat)" "(\<Sum>i < NUM_REDUCERS. f i) = f 0 + f (1 :: nat)"
  by (simp_all add: NUM_MAPPERS_def NUM_REDUCERS_def numeral_2_eq_2)

lemma two_cases: "i < NUM_MAPPERS \<longleftrightarrow> i = 0 \<or> i = 1" "i < NUM_REDUCERS \<longleftrightarrow> i = 0 \<or> i = 1"
  by (auto simp: NUM_MAPPERS_def NUM_REDUCERS_def)

lemma all_incs_upd:
  assumes "i < NUM_MAPPERS" "inc \<in> {1..mp_inc (procs i)}"
  shows "all_incs procs (\<lambda>i' inc'. if i' = i \<and> inc' = inc then f i' inc' + x else f i' inc') = all_incs procs f + (x :: 'a :: comm_monoid_add)"
proof -
  have one: "(\<Sum>inc' \<in> A. if inc' = inc then h inc' + x else h inc') = (\<Sum>inc' \<in> A. h inc') + (if inc \<in> A then x else 0)"
    if "finite A" for A :: "nat set" and h
    using that by (induction A) (auto simp: algebra_simps)
  have "(\<Sum>inc' \<in> {1..mp_inc (procs i')}. if i' = i \<and> inc' = inc then f i' inc' + x else f i' inc') =
      (\<Sum>inc' \<in> {1..mp_inc (procs i')}. f i' inc') + (if i' = i then x else 0)" for i'
    using one [of "{1..mp_inc (procs i)}" "f i"] assms(2) by (cases "i' = i") auto
  then show ?thesis using assms(1) unfolding all_incs_def by (auto simp: sum_two two_cases algebra_simps)
qed

lemma all_incs_cong:
  assumes "\<And>i. i < NUM_MAPPERS \<Longrightarrow> mp_inc (procs i) \<le> mp_inc (procs' i)"
    and "\<And>i inc. i < NUM_MAPPERS \<Longrightarrow> inc \<in> {1..mp_inc (procs i)} \<Longrightarrow> f i inc = f' i inc"
    and "\<And>i inc. i < NUM_MAPPERS \<Longrightarrow> mp_inc (procs i) < inc \<Longrightarrow> f' i inc = 0"
  shows "all_incs procs' f' = all_incs procs f"
proof -
  have "(\<Sum>inc \<in> {1..mp_inc (procs' i)}. f' i inc) = (\<Sum>inc \<in> {1..mp_inc (procs i)}. f i inc)" if i: "i < NUM_MAPPERS" for i
    using assms [OF i] by (intro sum.mono_neutral_cong_right) auto
  then show ?thesis unfolding all_incs_def by (simp add: sum_two two_cases)
qed

lemma all_incs_one:
  assumes "\<And>i. i < NUM_MAPPERS \<Longrightarrow> mp_inc (procs i) = 1"
  shows "all_incs procs f = f 0 1 + f 1 1"
  using assms by (simp add: all_incs_def sum_two two_cases)

lemma mapper_posD:
  assumes "mapper_pos xread texts files g i p"
  shows "mp_queue p = []" "mp_connected p \<le> NUM_REDUCERS" "ms_id (mp_state p) = mapper_name i"
    "ms_last_recovery_id (mp_state p) = 0" "0 < mp_inc p"
    "\<exists>ys. items_of texts (streams_of files ! i) = pg_sent g i inc @ ys"
    "inc \<notin> {1..mp_inc p} \<Longrightarrow> pg_sent g i inc = []" "mp_connected p < NUM_REDUCERS \<Longrightarrow> pg_sent g i (mp_inc p) = []"
    "pg_done g i \<subseteq> {1..mp_inc p}" "inc \<in> pg_done g i \<Longrightarrow> pg_sent g i inc = items_of texts (streams_of files ! i)"
    "mp_inc p \<in> pg_done g i \<longleftrightarrow> ms_is_wc_done (mp_state p)"
    "ms_alive (mp_state p) \<Longrightarrow> pg_sent g i (mp_inc p) = items_of texts (pg_entries g i)"
    "ms_alive (mp_state p) \<Longrightarrow> ms_sent (mp_state p) = map (\<lambda>r. blocks (mapper_name i) 0 r (items_of texts (pg_entries g i))) [0, 1]"
    "ms_alive (mp_state p) \<Longrightarrow> \<exists>rest. streams_of files ! i = pg_entries g i @ rest \<and>
       (if ms_is_wc_done (mp_state p) then rest = [] else stream_reads (xread i) (ms_last_stream_id (mp_state p)) rest)"
  using assms unfolding mapper_pos_def by (simp, simp, simp, simp, simp, blast, blast, simp, simp, blast, blast, simp, simp, simp)

lemma conns_posD:
  assumes "conns_pos r procs rest conns"
  shows "dict_get conns (i, inc) = None \<Longrightarrow> rest i inc = []"
    and "dict_get conns (i, inc) = Some b \<Longrightarrow> i < NUM_MAPPERS \<and> inc \<in> {1..mp_inc (procs i)} \<and>
      (\<exists>frag. b = wire_bytes (mapper_name i) (rest i inc) @ frag \<and> length frag < 1024 \<and>
         (ms_alive (mp_state (procs i)) \<and> inc = mp_inc (procs i) \<longrightarrow> frag = []))"
    and "i < NUM_MAPPERS \<Longrightarrow> ms_alive (mp_state (procs i)) \<Longrightarrow>
      dict_get conns (i, mp_inc (procs i)) \<noteq> None \<longleftrightarrow> r < mp_connected (procs i)"
proof -
  note c = assms [unfolded conns_pos_def]
  note key = conjunct1 [OF c, rule_format, of i inc]
  show "dict_get conns (i, inc) = None \<Longrightarrow> rest i inc = []" using key by simp
  show "dict_get conns (i, inc) = Some b \<Longrightarrow> i < NUM_MAPPERS \<and> inc \<in> {1..mp_inc (procs i)} \<and>
      (\<exists>frag. b = wire_bytes (mapper_name i) (rest i inc) @ frag \<and> length frag < 1024 \<and>
         (ms_alive (mp_state (procs i)) \<and> inc = mp_inc (procs i) \<longrightarrow> frag = []))" using key by simp
  show "i < NUM_MAPPERS \<Longrightarrow> ms_alive (mp_state (procs i)) \<Longrightarrow>
      dict_get conns (i, mp_inc (procs i)) \<noteq> None \<longleftrightarrow> r < mp_connected (procs i)" using c by blast
qed

lemma reducer_posD:
  assumes "reducer_pos r g procs rd rest done p"
  shows "rp_alive p" "i < NUM_MAPPERS \<Longrightarrow> for_reducer r (pg_sent g i inc) = rd i inc @ rest i inc"
    "conns_pos r procs rest (rp_conns p)" "reducer_run done (reducer_init r) = Inr (rp_state p)"
    "mset (done @ rp_queue p) = all_incs procs (\<lambda>i inc. mset (map wc_cmd (rd i inc)))"
  using assms by (simp_all add: reducer_pos_def)

lemma conn_alive:
  assumes "reducer_pos r g procs rd rest dn p" "i < NUM_MAPPERS" "ms_alive (mp_state (procs i))" "r < mp_connected (procs i)"
  shows "dict_get (rp_conns p) (i, mp_inc (procs i)) = Some (wire_bytes (mapper_name i) (rest i (mp_inc (procs i))))"
proof -
  note c = reducer_posD(3) [OF assms(1)]
  obtain b where "dict_get (rp_conns p) (i, mp_inc (procs i)) = Some b" using conns_posD(3) [OF c assms(2,3)] assms(4) by blast
  with conns_posD(2) [OF c this] assms(3) show ?thesis by auto
qed

lemma conns_posI:
  assumes "\<And>i inc. dict_get conns (i, inc) = None \<Longrightarrow> rest i inc = []"
    and "\<And>i inc b. dict_get conns (i, inc) = Some b \<Longrightarrow> i < NUM_MAPPERS \<and> inc \<in> {1..mp_inc (procs i)} \<and>
      (\<exists>frag. b = wire_bytes (mapper_name i) (rest i inc) @ frag \<and> length frag < 1024 \<and>
         (ms_alive (mp_state (procs i)) \<and> inc = mp_inc (procs i) \<longrightarrow> frag = []))"
    and "\<And>i. i < NUM_MAPPERS \<Longrightarrow> ms_alive (mp_state (procs i)) \<Longrightarrow>
      dict_get conns (i, mp_inc (procs i)) \<noteq> None \<longleftrightarrow> r < mp_connected (procs i)"
  shows "conns_pos r procs rest conns"
  unfolding conns_pos_def
proof (intro conjI allI impI)
  fix i inc
  show "case dict_get conns (i, inc) of None \<Rightarrow> rest i inc = []
      | Some b \<Rightarrow> i < NUM_MAPPERS \<and> inc \<in> {1..mp_inc (procs i)} \<and>
          (\<exists>frag. b = wire_bytes (mapper_name i) (rest i inc) @ frag \<and> length frag < 1024 \<and>
             (ms_alive (mp_state (procs i)) \<and> inc = mp_inc (procs i) \<longrightarrow> frag = []))"
    using assms(1,2) [of i inc] by (cases "dict_get conns (i, inc)") simp_all
qed (use assms(3) in blast)

text \<open>One connection changes, or is new, or is closed.\<close>

lemma conns_pos_upd:
  assumes c: "conns_pos r procs rest conns"
    and get: "\<And>k. dict_get conns' k = (if k = (i, inc) then v else dict_get conns k)"
    and rest': "\<And>i' inc'. (i', inc') \<noteq> (i, inc) \<Longrightarrow> rest' i' inc' = rest i' inc'"
    and i: "i < NUM_MAPPERS" "inc \<in> {1..mp_inc (procs i)}"
    and v: "case v of None \<Rightarrow> rest' i inc = []
      | Some b \<Rightarrow> (\<exists>frag. b = wire_bytes (mapper_name i) (rest' i inc) @ frag \<and> length frag < 1024 \<and>
          (ms_alive (mp_state (procs i)) \<and> inc = mp_inc (procs i) \<longrightarrow> frag = []))"
    and procs': "\<And>i'. mp_inc (procs' i') = mp_inc (procs i')" "\<And>i'. mp_state (procs' i') = mp_state (procs i')"
    and con: "\<And>i'. i' < NUM_MAPPERS \<Longrightarrow> ms_alive (mp_state (procs i')) \<Longrightarrow>
      (if i' = i \<and> inc = mp_inc (procs i) then v \<noteq> None \<longleftrightarrow> r < mp_connected (procs' i')
       else (r < mp_connected (procs' i') \<longleftrightarrow> r < mp_connected (procs i')))"
  shows "conns_pos r procs' rest' conns'"
proof (rule conns_posI)
  fix i' inc' assume "dict_get conns' (i', inc') = None"
  then show "rest' i' inc' = []"
    using v rest' [of i' inc'] conns_posD(1) [OF c, of i' inc'] by (cases "(i', inc') = (i, inc)") (auto simp: get)
next
  fix i' inc' b assume b: "dict_get conns' (i', inc') = Some b"
  show "i' < NUM_MAPPERS \<and> inc' \<in> {1..mp_inc (procs' i')} \<and>
      (\<exists>frag. b = wire_bytes (mapper_name i') (rest' i' inc') @ frag \<and> length frag < 1024 \<and>
         (ms_alive (mp_state (procs' i')) \<and> inc' = mp_inc (procs' i') \<longrightarrow> frag = []))"
  proof (cases "(i', inc') = (i, inc)")
    case True
    then show ?thesis using v i b by (simp add: get procs')
  next
    case False
    then have "dict_get conns (i', inc') = Some b" using b by (auto simp: get split: if_splits)
    then show ?thesis using conns_posD(2) [OF c, of i' inc' b] rest' [OF False] by (simp add: procs')
  qed
next
  fix i' assume i': "i' < NUM_MAPPERS" "ms_alive (mp_state (procs' i'))"
  then show "dict_get conns' (i', mp_inc (procs' i')) \<noteq> None \<longleftrightarrow> r < mp_connected (procs' i')"
    using con [OF i'(1)] conns_posD(3) [OF c i'(1)] by (auto simp: get procs' split: if_splits)
qed

lemma job_pos_start:
  assumes "deployable xread read_csv texts files" and c: "coordinator_start = Inr c"
  shows "job_pos xread texts files \<lparr>pg_entries = \<lambda>i. [], pg_sent = \<lambda>i inc. [], pg_done = \<lambda>i. {}\<rparr> (job_start c)"
proof -
  let ?g = "\<lparr>pg_entries = \<lambda>i. [], pg_sent = \<lambda>i inc. [], pg_done = \<lambda>i. {}\<rparr>"
  have "mapper_pos xread texts files ?g i (mapper_start i 1)" if "i < NUM_MAPPERS" for i
    using assms(1) that
    by (simp add: mapper_pos_def mapper_start_def mapper_init_def mapper_name_def deployable_def NUM_REDUCERS_def
        items_of_def blocks_def numeral_2_eq_2)
  moreover have "linked (co_worker c (mapper_name i)) (mapper_start i 1)" if "i < NUM_MAPPERS" for i
    using that c by (auto simp: two_cases linked_def co_worker_def mapper_name_simps coordinator_start_eq started_worker_def
        mapper_start_def mapper_init_def)
  moreover have "reducer_pos r ?g (\<lambda>i. mapper_start i 1) (\<lambda>i inc. []) (\<lambda>i inc. []) [] (reducer_start r)" for r
    by (simp add: reducer_pos_def reducer_start_def conns_pos_def all_incs_def mapper_start_def)
  ultimately show ?thesis
    unfolding job_pos_def by (auto simp: job_start_def reports_def intro!: exI)
qed

lemma items_fit:
  assumes "deployable xread read_csv texts files" "i < NUM_MAPPERS" "mapper_pos xread texts files g i p"
    "x \<in> set (pg_sent g i inc)"
  shows "fits (wc_message (mapper_name i) 0 (fst x) (snd x))"
proof -
  obtain ys where "items_of texts (streams_of files ! i) = pg_sent g i inc @ ys" using mapper_posD(6) [OF assms(3)] by blast
  then show ?thesis using deployable_fits [OF assms(1,2), of "fst x" "snd x"] assms(4) by simp
qed

text \<open>Reading: a block is one command.\<close>

lemma read_block_wire:
  assumes "fits (wc_message src 0 (fst p) (snd p))"
  shows "1024 \<le> length (wire_bytes src (p # items))"
    and "rbind (message_deserialize (take 1024 (wire_bytes src (p # items) @ frag))) mapper_block_cmds = Inr [wc_cmd p]"
    and "drop 1024 (wire_bytes src (p # items) @ frag) = wire_bytes src items @ frag"
proof -
  have len: "length (block (wc_message src 0 (fst p) (snd p))) = 1024"
    using block_fits [OF assms] by (simp add: BUFFER_SIZE_def)
  then show "1024 \<le> length (wire_bytes src (p # items))"
    "drop 1024 (wire_bytes src (p # items) @ frag) = wire_bytes src items @ frag" by simp_all
  have "take 1024 (wire_bytes src (p # items) @ frag) = block (wc_message src 0 (fst p) (snd p))" using len by simp
  then show "rbind (message_deserialize (take 1024 (wire_bytes src (p # items) @ frag))) mapper_block_cmds = Inr [wc_cmd p]"
    using blk.dec_enc [OF assms] by (simp add: mapper_block_cmds_def wc_message_def wc_cmd_def kwargs_get_def)
qed

lemma reducer_run_append: "reducer_run (xs @ ys) st = rbind (reducer_run xs st) (reducer_run ys)"
  by (induction xs arbitrary: st) (simp_all add: rbind_def split: sum.split)

text \<open>The counts read from all processes, as a list.\<close>

lemma all_incs_items:
  obtains items where "all_incs procs (\<lambda>i inc. mset (map wc_cmd (rd i inc))) = mset (map wc_cmd items)"
    "mset items = all_incs procs (\<lambda>i inc. mset (rd i inc))"
proof -
  have "image_mset wc_cmd (\<Sum>i \<in> A. h i) = (\<Sum>i \<in> A. image_mset wc_cmd (h i))" for A :: "nat set" and h
    by (induction A rule: infinite_finite_induct) simp_all
  then have "all_incs procs (\<lambda>i inc. mset (map wc_cmd (rd i inc))) = image_mset wc_cmd (all_incs procs (\<lambda>i inc. mset (rd i inc)))"
    by (simp add: all_incs_def)
  moreover obtain items where "mset items = all_incs procs (\<lambda>i inc. mset (rd i inc))" using ex_mset by blast
  ultimately show ?thesis using that by simp
qed

text \<open>A count never makes the reducer raise.\<close>

lemma reducer_next:
  assumes "reducer_run done (reducer_init r) = Inr st" "mset (done @ cmd # q) = mset (map wc_cmd items)"
  shows "\<exists>st'. reducer_handle cmd st = Inr st' \<and> reducer_run (done @ [cmd]) (reducer_init r) = Inr st'"
proof -
  obtain items' where i: "done @ cmd # q = map wc_cmd items'" by (rule wc_cmd_perm [OF assms(2)])
  define xs where "xs = take (Suc (length done)) items'"
  have "done @ [cmd] = take (Suc (length done)) (done @ cmd # q)" by simp
  also have "\<dots> = map wc_cmd xs" by (simp only: i xs_def take_map)
  finally have "\<exists>st'. reducer_run (done @ [cmd]) (reducer_init r) = Inr st'"
    using reducer_run_items [of "reducer_init r" xs] by (simp add: reducer_init_def)
  then show ?thesis using assms(1) by (auto simp: reducer_run_append rbind_eq_Inr)
qed


text \<open>What each thread does to the position.\<close>

text \<open>Counts, and a part of one if its sender is no more, arrive at the connection of a process that was alive.\<close>

lemma reducer_pos_receive:
  fixes frag :: bytes
  assumes rp: "reducer_pos r g procs rd rest done p" and i: "i < NUM_MAPPERS" and inc: "inc \<in> {1..mp_inc (procs i)}"
    and b: "dict_get (rp_conns p) (i, inc) = Some (wire_bytes (mapper_name i) (rest i inc))"
    and frag: "length frag < 1024" "ms_alive (mp_state (procs i)) \<and> inc = mp_inc (procs i) \<longrightarrow> frag = []"
    and g': "\<And>i' inc'. pg_sent g' i' inc' = (if i' = i \<and> inc' = inc then pg_sent g i inc @ xs else pg_sent g i' inc')"
  shows "reducer_pos r g' procs rd (\<lambda>i' inc'. if i' = i \<and> inc' = inc then rest i inc @ for_reducer r xs else rest i' inc') done
    (receive_bytes (i, inc) (wire_bytes (mapper_name i) (for_reducer r xs) @ frag) p)"
proof -
  let ?rest = "\<lambda>i' inc'. if i' = i \<and> inc' = inc then rest i inc @ for_reducer r xs else rest i' inc'"
  let ?b = "wire_bytes (mapper_name i) (?rest i inc) @ frag"
  have p': "receive_bytes (i, inc) (wire_bytes (mapper_name i) (for_reducer r xs) @ frag) p =
      p\<lparr>rp_conns := dict_set (rp_conns p) (i, inc) ?b\<rparr>" using b by (simp add: receive_bytes_def)
  have "conns_pos r procs ?rest (dict_set (rp_conns p) (i, inc) ?b)"
    by (rule conns_pos_upd [OF reducer_posD(3) [OF rp] _ _ i inc, where v = "Some ?b"])
      (use frag conns_posD(3) [OF reducer_posD(3) [OF rp] i] b in \<open>auto simp: dict_simps\<close>)
  then show ?thesis using rp unfolding p' reducer_pos_def by (simp add: g')
qed
text \<open>Incarnation \<open>inc\<close> of mapper \<open>i\<close> has sent \<open>xs\<close>; it has processed the entries \<open>es\<close> and perhaps reported.\<close>

definition sent_more :: "nat \<Rightarrow> nat \<Rightarrow> (string \<times> int) list \<Rightarrow> (nat \<times> string) list \<Rightarrow> bool \<Rightarrow> progress \<Rightarrow> progress" where
  "sent_more i inc xs es fin g =
     \<lparr>pg_entries = (pg_entries g)(i := pg_entries g i @ es),
      pg_sent = (pg_sent g)(i := (pg_sent g i)(inc := pg_sent g i inc @ xs)),
      pg_done = (pg_done g)(i := (if fin then insert inc (pg_done g i) else pg_done g i))\<rparr>"

lemma sent_more_simps [simp]:
  "pg_sent (sent_more i inc xs es fin g) i' inc' = (if i' = i \<and> inc' = inc then pg_sent g i inc @ xs else pg_sent g i' inc')"
  "pg_entries (sent_more i inc xs es fin g) i' = (if i' = i then pg_entries g i @ es else pg_entries g i')"
  "pg_done (sent_more i inc xs es fin g) i' = (if i' = i \<and> fin then insert inc (pg_done g i) else pg_done g i')"
  by (simp_all add: sent_more_def)

lemma mapper_pos_other: "i' \<noteq> i \<Longrightarrow> mapper_pos xread texts files (sent_more i inc xs es fin g) i' p = mapper_pos xread texts files g i' p"
  by (simp add: mapper_pos_def)

lemma mapper_pos_sent:
  assumes pos: "mapper_pos xread texts files g i p"
    and inc: "inc \<in> {1..mp_inc p}" "xs = [] \<or> inc \<notin> pg_done g i"
    and items: "items_of texts (streams_of files ! i) = pg_sent g i inc @ xs @ ys" "fin \<Longrightarrow> ys = []"
    and p': "mp_inc p' = mp_inc p" "mp_connected p' \<le> NUM_REDUCERS" "mp_queue p' = []"
      "ms_id (mp_state p') = mapper_name i" "ms_last_recovery_id (mp_state p') = 0"
      "mp_inc p \<in> (if fin then insert inc (pg_done g i) else pg_done g i) \<longleftrightarrow> ms_is_wc_done (mp_state p')"
      "mp_connected p' < NUM_REDUCERS \<Longrightarrow> pg_sent (sent_more i inc xs es fin g) i (mp_inc p) = []"
    and alive: "ms_alive (mp_state p') \<Longrightarrow>
       pg_sent (sent_more i inc xs es fin g) i (mp_inc p) = items_of texts (pg_entries g i @ es) \<and>
       ms_sent (mp_state p') = map (\<lambda>r. blocks (mapper_name i) 0 r (items_of texts (pg_entries g i @ es))) [0, 1] \<and>
       (\<exists>rest. streams_of files ! i = (pg_entries g i @ es) @ rest \<and>
          (if ms_is_wc_done (mp_state p') then rest = [] else stream_reads (xread i) (ms_last_stream_id (mp_state p')) rest))"
  shows "mapper_pos xread texts files (sent_more i inc xs es fin g) i p'"
proof -
  let ?g = "sent_more i inc xs es fin g"
  have "\<exists>ys. items_of texts (streams_of files ! i) = pg_sent ?g i inc' @ ys" for inc'
    using mapper_posD(6) [OF pos, of inc'] items(1) by auto
  moreover have "pg_sent ?g i inc' = []" if "inc' \<notin> {1..mp_inc p'}" for inc'
    using mapper_posD(7) [OF pos, of inc'] that inc(1) p'(1) by auto
  moreover have "pg_sent ?g i inc' = items_of texts (streams_of files ! i)" if "inc' \<in> pg_done ?g i" for inc'
    using that mapper_posD(10) [OF pos, of inc'] items inc(2) by (auto split: if_splits)
  moreover have "pg_done ?g i \<subseteq> {1..mp_inc p'}"
    using mapper_posD(9) [OF pos] inc(1) p'(1) by auto
  moreover have "mp_inc p' \<in> pg_done ?g i \<longleftrightarrow> ms_is_wc_done (mp_state p')" using p'(1,6) by simp
  moreover have "ms_alive (mp_state p') \<Longrightarrow> pg_sent ?g i (mp_inc p') = items_of texts (pg_entries ?g i) \<and>
       ms_sent (mp_state p') = map (\<lambda>r. blocks (mapper_name i) 0 r (items_of texts (pg_entries ?g i))) [0, 1] \<and>
       (\<exists>rest. streams_of files ! i = pg_entries ?g i @ rest \<and>
          (if ms_is_wc_done (mp_state p') then rest = [] else stream_reads (xread i) (ms_last_stream_id (mp_state p')) rest))"
    using alive p'(1) by auto
  moreover have "0 < mp_inc p'" using mapper_posD(5) [OF pos] p'(1) by simp
  moreover have "mp_connected p' < NUM_REDUCERS \<longrightarrow> pg_sent ?g i (mp_inc p') = []" using p'(1,7) by simp
  ultimately show ?thesis
    using p'(2) unfolding mapper_pos_def p'(3-5) by blast
qed

lemma mapper_pos_step:
  assumes dep: "deployable xread read_csv texts files" and i: "i < NUM_MAPPERS"
    and pos: "mapper_pos xread texts files g i p" and full: "mp_connected p = NUM_REDUCERS" and alive: "ms_alive (mp_state p)"
    and it: "mapper_iteration (xread i) read_csv (\<lambda>_. False) (mp_queue p) (mp_state p) = Some (q, st')"
  obtains es where
    "mapper_pos xread texts files (sent_more i (mp_inc p) (items_of texts es) es (ms_is_wc_done st') g) i
       (p\<lparr>mp_state := st', mp_queue := q\<rparr>)"
    "\<And>r. written (mp_state p) st' r = (if r < 2 then wire_bytes (mapper_name i) (for_reducer r (items_of texts es)) else [])"
    "length (streams_of files ! i) - length (pg_entries g i @ es) + of_bool (\<not> ms_is_wc_done st') <
      length (streams_of files ! i) - length (pg_entries g i) + 1"
    "\<not> ms_is_wc_done (mp_state p)" "ms_alive st'"
    "ms_to_coordinator st' = ms_to_coordinator (mp_state p) @ (if ms_is_wc_done st' then [done_message (mapper_name i)] else [])"
proof -
  let ?st = "mp_state p"
  have st: "\<not> ms_is_wc_done ?st" "q = []" "st' = word_count (xread i) read_csv (\<lambda>_. False) ?st"
    using it mapper_posD(1) [OF pos] by (auto simp: mapper_iteration_def split: if_splits)
  obtain rest where rest: "streams_of files ! i = pg_entries g i @ rest" "stream_reads (xread i) (ms_last_stream_id ?st) rest"
    using mapper_posD(14) [OF pos alive] st(1) by auto
  have sent: "ms_sent ?st = map (\<lambda>r. blocks (mapper_name i) 0 r (items_of texts (pg_entries g i))) [0, 1]" "ms_id ?st = mapper_name i"
    "ms_last_recovery_id ?st = 0" "pg_sent g i (mp_inc p) = items_of texts (pg_entries g i)"
    using mapper_posD(3,4,12,13) [OF pos] alive by simp_all
  have inc: "mp_inc p \<in> {1..mp_inc p}" "xs = [] \<or> mp_inc p \<notin> pg_done g i" for xs :: "(string \<times> int) list"
    using mapper_posD(5,11) [OF pos] st(1) by auto
  show ?thesis
  proof (cases rest)
    case Nil
    then have st': "st' = ?st\<lparr>ms_is_wc_done := True, ms_to_coordinator := ms_to_coordinator ?st @ [done_message (mapper_name i)]\<rparr>"
      using rest st(3) sent(2) by (simp add: word_count_def done_message_def)
    have "mapper_pos xread texts files (sent_more i (mp_inc p) [] [] True g) i (p\<lparr>mp_state := st', mp_queue := q\<rparr>)"
      by (rule mapper_pos_sent [OF pos inc]) (use rest Nil sent st(2) full in \<open>simp_all add: st'\<close>)
    then show ?thesis using st(1) st' rest Nil sent alive
      by (intro that [of "[]"]) (auto simp: items_of_def written_def less_2_cases_iff)
  next
    case (Cons e rest')
    obtain k f where e: "e = (k, f)" by fastforce
    have "f \<in> set files" using rest(1) Cons e stream_subset [OF i] by force
    then have "sendable read_csv texts (ms_id ?st) f"
      using dep i sent(2) by (auto simp: deployable_def list_all_iff)
    then have st': "st' = ?st\<lparr>ms_sent := map (\<lambda>r. ms_sent ?st ! r @ blocks (mapper_name i) 0 r (file_items (texts f))) [0, 1],
       ms_last_stream_id := k\<rparr>"
      using word_count_sendable [of "xread i" ?st k f read_csv texts] rest(2) Cons e sent by (simp add: st(3))
    have one: "items_of texts ((k, f) # es) = file_items (texts f) @ items_of texts es" "items_of texts [] = []" for es
      by (simp_all add: items_of_def)
    have all: "items_of texts (streams_of files ! i) = items_of texts (pg_entries g i) @ file_items (texts f) @ items_of texts rest'"
      using rest(1) Cons e by (simp add: items_of_append one)
    have "mapper_pos xread texts files (sent_more i (mp_inc p) (items_of texts [(k, f)]) [(k, f)] False g) i
       (p\<lparr>mp_state := st', mp_queue := q\<rparr>)"
      by (rule mapper_pos_sent [OF pos inc, where ys = "items_of texts rest'"])
        (use rest Cons sent st(1,2) full mapper_posD(11) [OF pos] in \<open>simp_all add: st' all e one items_of_append\<close>)
    then show ?thesis using st(1,2) rest Cons sent e st' alive
      by (intro that [of "[(k, f)]"])
        (auto simp: written_def items_of_append one less_2_cases_iff full blocks_wire)
  qed
qed

lemma card_done: "mapper_pos xread texts files g i p \<Longrightarrow> finite (pg_done g i)"
  using mapper_posD(9) [of xread texts files g i p] finite_subset by blast

lemma reducer_pos_same:
  assumes "reducer_pos r g procs rd rest dn p" "\<And>i. mp_inc (procs' i) = mp_inc (procs i)"
    "\<And>i. mp_connected (procs' i) = mp_connected (procs i)" "\<And>i. ms_alive (mp_state (procs' i)) = ms_alive (mp_state (procs i))"
  shows "reducer_pos r g procs' rd rest dn p"
  using assms(1) unfolding reducer_pos_def conns_pos_def all_incs_def assms(2-4) .

lemma job_pos_mapper:
  assumes dep: "deployable xread read_csv texts files" and pos: "job_pos xread texts files g j"
    and st: "mapper_step xread read_csv i brk j = Some j'"
  shows "\<exists>g' p. i < NUM_MAPPERS \<and> job_pos xread texts files g' j' \<and>
    j_co j' = j_co j \<and> j_mapper j' = (j_mapper j)(i := p) \<and> mp_connected p = mp_connected (j_mapper j i) \<and>
    mp_inc p = mp_inc (j_mapper j i) \<and> ms_alive (mp_state p) \<and>
    (\<forall>i'. i' \<noteq> i \<longrightarrow> pg_entries g' i' = pg_entries g i') \<and> (\<forall>i'. pg_done g i' \<subseteq> pg_done g' i') \<and>
    length (streams_of files ! i) - length (pg_entries g' i) + of_bool (\<not> ms_is_wc_done (mp_state p)) <
      length (streams_of files ! i) - length (pg_entries g i) + of_bool (\<not> ms_is_wc_done (mp_state (j_mapper j i))) \<and>
    (ms_is_wc_done (mp_state p) \<longrightarrow> block (done_message (mapper_name i)) \<in> set (j_net j'))"
proof -
  let ?p = "j_mapper j i"
  let ?lost = "\<lambda>r. r < NUM_REDUCERS \<and> dict_get (rp_conns (j_reducer j r)) (i, mp_inc ?p) = None"
  obtain q st' where i: "i < NUM_MAPPERS" and full: "mp_connected ?p = NUM_REDUCERS" and alive: "ms_alive (mp_state ?p)"
    and it: "mapper_iteration (xread i) read_csv (\<lambda>r. brk r \<and> ?lost r) (mp_queue ?p) (mp_state ?p) = Some (q, st')"
    and j': "j' = j\<lparr>j_mapper := (j_mapper j)(i := ?p\<lparr>mp_state := st', mp_queue := q\<rparr>),
      j_reducer := (\<lambda>r. receive_bytes (i, mp_inc ?p) (written (mp_state ?p) st' r) (j_reducer j r)),
      j_net := j_net j @ map block (drop (length (ms_to_coordinator (mp_state ?p))) (ms_to_coordinator st')),
      j_log := j_log j @ map (\<lambda>m. (i, st')) (drop (length (ms_to_coordinator (mp_state ?p))) (ms_to_coordinator st'))\<rparr>"
    using st by (auto simp: mapper_step_def Let_def split: if_splits option.splits)
  note mpos = job_posD(1) [OF pos i]
  have conn: "\<exists>rd rest dn. reducer_pos r g (j_mapper j) rd rest dn (j_reducer j r) \<and>
      dict_get (rp_conns (j_reducer j r)) (i, mp_inc ?p) = Some (wire_bytes (mapper_name i) (rest i (mp_inc ?p)))"
    if r: "r < NUM_REDUCERS" for r
  proof -
    obtain rd rest dn where rp: "reducer_pos r g (j_mapper j) rd rest dn (j_reducer j r)" using job_posD(4) [OF pos r] by blast
    then show ?thesis using conn_alive [OF rp i alive] r full by auto
  qed
  then have "\<not> ?lost r" for r by fastforce
  then have "(\<lambda>r. brk r \<and> ?lost r) = (\<lambda>_. False)" by blast
  with it have it: "mapper_iteration (xread i) read_csv (\<lambda>_. False) (mp_queue ?p) (mp_state ?p) = Some (q, st')" by simp
  obtain es where es: "mapper_pos xread texts files (sent_more i (mp_inc ?p) (items_of texts es) es (ms_is_wc_done st') g) i
       (?p\<lparr>mp_state := st', mp_queue := q\<rparr>)"
    "\<And>r. written (mp_state ?p) st' r = (if r < 2 then wire_bytes (mapper_name i) (for_reducer r (items_of texts es)) else [])"
    "length (streams_of files ! i) - length (pg_entries g i @ es) + of_bool (\<not> ms_is_wc_done st') <
      length (streams_of files ! i) - length (pg_entries g i) + 1"
    "\<not> ms_is_wc_done (mp_state ?p)" "ms_alive st'"
    "ms_to_coordinator st' = ms_to_coordinator (mp_state ?p) @ (if ms_is_wc_done st' then [done_message (mapper_name i)] else [])"
    by (rule mapper_pos_step [OF dep i mpos full alive it]) blast
  let ?g = "sent_more i (mp_inc ?p) (items_of texts es) es (ms_is_wc_done st') g"
  have "\<exists>rd rest dn. reducer_pos r ?g (j_mapper j') rd rest dn (j_reducer j' r)" if r: "r < NUM_REDUCERS" for r
  proof -
    obtain rd rest dn where rp: "reducer_pos r g (j_mapper j) rd rest dn (j_reducer j r)"
      "dict_get (rp_conns (j_reducer j r)) (i, mp_inc ?p) = Some (wire_bytes (mapper_name i) (rest i (mp_inc ?p)))"
      using conn [OF r] by blast
    have inc: "mp_inc ?p \<in> {1..mp_inc ?p}" using mapper_posD(5) [OF mpos] by simp
    have w: "written (mp_state ?p) st' r = wire_bytes (mapper_name i) (for_reducer r (items_of texts es)) @ []"
      using r by (simp add: es(2) NUM_REDUCERS_def)
    have g: "pg_sent ?g i' inc' = (if i' = i \<and> inc' = mp_inc ?p then pg_sent g i (mp_inc ?p) @ items_of texts es else pg_sent g i' inc')"
      for i' inc' by simp
    have nil: "length ([] :: bytes) < 1024"
      "ms_alive (mp_state (j_mapper j i)) \<and> mp_inc ?p = mp_inc (j_mapper j i) \<longrightarrow> ([] :: bytes) = []" by simp_all
    note rp' = reducer_pos_receive [OF rp(1) i inc rp(2) nil g, folded w]
    have "reducer_pos r ?g (j_mapper j') rd
        (\<lambda>i' inc'. if i' = i \<and> inc' = mp_inc ?p then rest i (mp_inc ?p) @ for_reducer r (items_of texts es) else rest i' inc') dn
        (j_reducer j' r)"
      using reducer_pos_same [OF rp', of "j_mapper j'"] alive es(5) by (simp add: j')
    then show ?thesis by blast
  qed
  moreover have "mapper_pos xread texts files ?g i' (j_mapper j' i') \<and>
      linked (co_worker (j_co j') (mapper_name i')) (j_mapper j' i') \<and> reports j' i' = card (pg_done ?g i')" if "i' < NUM_MAPPERS" for i'
  proof -
    have "linked (co_worker (j_co j') (mapper_name i')) (j_mapper j' i')"
      using job_posD(2) [OF pos that] alive es(5) by (auto simp: j' linked_def)
    moreover have "reports j' i' = card (pg_done ?g i')"
      using job_posD(3) [OF pos that] es(4,6) mapper_posD(11) [OF mpos] card_done [OF mpos] by (auto simp: reports_def j')
    ultimately show ?thesis
      using es(1) job_posD(1) [OF pos that] mapper_pos_other by (cases "i' = i") (simp_all add: j')
  qed
  moreover have "fst ` set (j_log j') \<subseteq> {..<NUM_MAPPERS}" "j_wnet j' = []"
    using job_posD(5,6) [OF pos] i es(6) by (auto simp: j')
  ultimately have "job_pos xread texts files ?g j'" unfolding job_pos_def by blast
  then show ?thesis using i es(3-6)
    by (intro exI [of _ ?g] exI [of _ "?p\<lparr>mp_state := st', mp_queue := q\<rparr>"]) (auto simp: j')
qed
text \<open>A mapper process is left alone, dies, or is replaced by a new one.\<close>

definition replaced :: "nat \<Rightarrow> mapper_proc \<Rightarrow> mapper_proc \<Rightarrow> bool" where
  "replaced i p p' \<longleftrightarrow> p' = p \<or> p' = p\<lparr>mp_state := (mp_state p)\<lparr>ms_alive := False\<rparr>\<rparr> \<or> p' = mapper_start i (Suc (mp_inc p))"

definition restarted :: "(nat \<Rightarrow> mapper_proc) \<Rightarrow> (nat \<Rightarrow> mapper_proc) \<Rightarrow> progress \<Rightarrow> progress" where
  "restarted procs procs' g =
     g\<lparr>pg_entries := \<lambda>i. if mp_inc (procs' i) = mp_inc (procs i) then pg_entries g i else []\<rparr>"

lemma mapper_pos_replaced:
  assumes dep: "deployable xread read_csv texts files" and i: "i < NUM_MAPPERS"
    and pos: "mapper_pos xread texts files g i (procs i)" and rp: "replaced i (procs i) (procs' i)"
  shows "mapper_pos xread texts files (restarted procs procs' g) i (procs' i)"
proof -
  consider "procs' i = procs i" | "procs' i = (procs i)\<lparr>mp_state := (mp_state (procs i))\<lparr>ms_alive := False\<rparr>\<rparr>"
    | "procs' i = mapper_start i (Suc (mp_inc (procs i)))" using rp by (auto simp: replaced_def)
  then show ?thesis
  proof cases
    case 3
    have new: "pg_sent g i (Suc (mp_inc (procs i))) = []" "Suc (mp_inc (procs i)) \<notin> pg_done g i"
      using mapper_posD(7,9) [OF pos] by auto
    have "pg_sent g i inc = []" if "inc \<notin> {1..Suc (mp_inc (procs i))}" for inc
      using mapper_posD(7) [OF pos, of inc] that by auto
    moreover have "pg_done g i \<subseteq> {1..Suc (mp_inc (procs i))}" using mapper_posD(9) [OF pos] by auto
    moreover have "stream_reads (xread i) 0 (streams_of files ! i)" using dep i by (simp add: deployable_def)
    ultimately show ?thesis using mapper_posD(6,10) [OF pos] new 3
      unfolding mapper_pos_def restarted_def mapper_start_def mapper_init_def mapper_name_def
      by (auto simp: NUM_REDUCERS_def items_of_def blocks_def numeral_2_eq_2)
  qed (use pos in \<open>simp_all add: mapper_pos_def restarted_def\<close>)
qed

lemma reducer_pos_replaced:
  assumes pos: "\<And>i. i < NUM_MAPPERS \<Longrightarrow> mapper_pos xread texts files g i (procs i)"
    and rp: "\<And>i. i < NUM_MAPPERS \<Longrightarrow> replaced i (procs i) (procs' i)"
    and red: "reducer_pos r g procs rd rest dn p"
  shows "reducer_pos r (restarted procs procs' g) procs' rd rest dn p"
proof -
  have inc: "mp_inc (procs i) \<le> mp_inc (procs' i)" if "i < NUM_MAPPERS" for i
    using rp [OF that] by (auto simp: replaced_def mapper_start_def)
  have alive: "ms_alive (mp_state (procs' i)) \<Longrightarrow> procs' i = procs i \<or> mp_inc (procs' i) = Suc (mp_inc (procs i)) \<and> mp_connected (procs' i) = 0"
    if "i < NUM_MAPPERS" for i using rp [OF that] by (auto simp: replaced_def mapper_start_def)
  note c = reducer_posD(3) [OF red]
  have "conns_pos r procs' rest (rp_conns p)" unfolding conns_pos_def
  proof (intro conjI allI impI)
    fix i inc
    show "case dict_get (rp_conns p) (i, inc) of None \<Rightarrow> rest i inc = []
      | Some b \<Rightarrow> i < NUM_MAPPERS \<and> inc \<in> {1..mp_inc (procs' i)} \<and>
          (\<exists>frag. b = wire_bytes (mapper_name i) (rest i inc) @ frag \<and> length frag < 1024 \<and>
             (ms_alive (mp_state (procs' i)) \<and> inc = mp_inc (procs' i) \<longrightarrow> frag = []))"
    proof (cases "dict_get (rp_conns p) (i, inc)")
      case None
      then show ?thesis using conns_posD(1) [OF c] by simp
    next
      case (Some b)
      note c' = conns_posD(2) [OF c Some]
      then have i: "i < NUM_MAPPERS" and "inc \<le> mp_inc (procs i)" by simp_all
      then have "ms_alive (mp_state (procs' i)) \<and> inc = mp_inc (procs' i) \<Longrightarrow> ms_alive (mp_state (procs i)) \<and> inc = mp_inc (procs i)"
        using alive [OF i] by auto
      moreover have "inc \<in> {1..mp_inc (procs' i)}" using c' inc [OF i] by auto
      ultimately show ?thesis using c' Some by fastforce
    qed
  next
    fix i assume i: "i < NUM_MAPPERS" and a: "ms_alive (mp_state (procs' i))"
    from alive [OF i a] show "(dict_get (rp_conns p) (i, mp_inc (procs' i)) \<noteq> None) = (r < mp_connected (procs' i))"
    proof
      assume "procs' i = procs i"
      then show ?thesis using conns_posD(3) [OF c i] a by simp
    next
      assume new: "mp_inc (procs' i) = Suc (mp_inc (procs i)) \<and> mp_connected (procs' i) = 0"
      then have "dict_get (rp_conns p) (i, mp_inc (procs' i)) = None"
        using conns_posD(2) [OF c, of i "mp_inc (procs' i)"] by (cases "dict_get (rp_conns p) (i, mp_inc (procs' i))") auto
      then show ?thesis using new by simp
    qed
  qed
  moreover have "all_incs procs' (\<lambda>i inc. mset (map wc_cmd (rd i inc))) = all_incs procs (\<lambda>i inc. mset (map wc_cmd (rd i inc)))"
  proof (rule all_incs_cong)
    fix i inc assume "i < NUM_MAPPERS" "mp_inc (procs i) < inc"
    then have "pg_sent g i inc = []" using mapper_posD(7) [OF pos] by simp
    then have "for_reducer r (pg_sent g i inc) = []" by simp
    then have "rd i inc = []" using red \<open>i < NUM_MAPPERS\<close> by (auto simp: reducer_pos_def)
    then show "mset (map wc_cmd (rd i inc)) = 0" by simp
  qed (use inc in simp_all)
  ultimately show ?thesis using red by (simp add: reducer_pos_def restarted_def)
qed

lemma coordinate_kept:
  assumes inv: "job_inv j" and kept: "reducers_kept j'" and st: "coordinate_step l j = Some j'"
    and pos: "job_pos xread texts files g j"
  shows "coordinator_step (j_co j) l = Some (j_co j') \<and> (\<forall>i < NUM_MAPPERS. replaced i (j_mapper j i) (j_mapper j' i) \<and>
      linked (co_worker (j_co j') (mapper_name i)) (j_mapper j' i)) \<and>
    (\<forall>r < NUM_REDUCERS. j_reducer j' r = j_reducer j r) \<and> j_wnet j' = j_wnet j \<and> j_log j' = j_log j"
proof -
  obtain c where c: "coordinator_step (j_co j) l = Some c" "j_co j' = c"
    "j_mapper j' = (\<lambda>i. sync_mapper (co_worker (j_co j) (mapper_name i)) (co_worker c (mapper_name i)) i (j_mapper j i))"
    "j_reducer j' = (\<lambda>r. sync_reducer (co_worker (j_co j) (reducer_name r)) (co_worker c (reducer_name r)) r (j_reducer j r))"
    "j_wnet j' = j_wnet j @ drop (length (sy_sent (j_co j))) (sy_sent c)" "j_log j' = j_log j"
    by (rule coordinate_cases [OF st]) blast
  have co: "coordinator_inv (j_co j)" using inv coordinator_inv_reachable by (simp add: job_inv_def)
  have u: "unlost [reducer_name 0, reducer_name 1] c" "\<not> sy_exited c" using kept c(2) by (simp_all add: reducers_kept_def)
  have "set [reducer_name 0, reducer_name 1] \<subseteq> set worker_names" by (simp add: worker_names_def)
  note sync = sync_kept [OF unlost_back [OF co c(1) u(1) this] u(1)]
  have "replaced i (j_mapper j i) (j_mapper j' i) \<and> linked (co_worker (j_co j') (mapper_name i)) (j_mapper j' i)"
    if "i < NUM_MAPPERS" for i
    using linked_sync [OF co c(1) job_posD(2) [OF pos that], of "j_mapper j' i" i] c(2,3) by (simp add: replaced_def)
  moreover have "sy_sent c = sy_sent (j_co j)" by (rule step_sends [OF co c(1) u(2)])
  ultimately show ?thesis using c sync by simp
qed

lemma job_pos_coordinate:
  assumes dep: "deployable xread read_csv texts files" and inv: "job_inv j" and pos: "job_pos xread texts files g j"
    and kept: "reducers_kept j'" and st: "coordinate_step l j = Some j'"
  shows "job_pos xread texts files (restarted (j_mapper j) (j_mapper j') g) j'"
proof -
  note k = coordinate_kept [OF inv kept st pos]
  then have rp: "\<And>i. i < NUM_MAPPERS \<Longrightarrow> replaced i (j_mapper j i) (j_mapper j' i)" by simp
  have mp: "mapper_pos xread texts files (restarted (j_mapper j) (j_mapper j') g) i (j_mapper j' i)" if "i < NUM_MAPPERS" for i
    by (rule mapper_pos_replaced [where procs = "j_mapper j" and procs' = "j_mapper j'", OF dep that job_posD(1) [OF pos that] rp [OF that]])
  have "\<exists>rd rest dn. reducer_pos r (restarted (j_mapper j) (j_mapper j') g) (j_mapper j') rd rest dn (j_reducer j' r)"
    if r: "r < NUM_REDUCERS" for r
    using job_posD(4) [OF pos r] reducer_pos_replaced [OF job_posD(1) [OF pos] rp] k r by metis
  then show ?thesis
    using k job_posD [OF pos] mp unfolding job_pos_def by (auto simp: reports_def restarted_def)
qed
text \<open>A mapper that is interrupted has sent whole counts and a part of the next.\<close>

lemma cut_short_sent:
  assumes "cut_short xr read_csv m k st = Some sent" "xr (ms_last_stream_id st) = Some (key, f)"
    "sendable read_csv texts (ms_id st) f" "length (ms_sent st) = 2" "ms_last_recovery_id st = 0"
  obtains xs ys frag where "file_items (texts f) = xs @ ys" "length sent = 2"
    "\<And>r. r < 2 \<Longrightarrow> sent ! r = wire_bytes (ms_id st) (for_reducer r xs) @ frag r" "\<And>r. length (frag r) < (1024 :: nat)"
proof -
  let ?items = "file_items (texts f)"
  note ok = sendable_item [OF assms(3)]
  let ?xs = "take m ?items"
  have "send_counts (\<lambda>_. False) (ms_id st) 0 ?xs (replicate 2 []) = (Inr (), map (\<lambda>r. replicate 2 [] ! r @ blocks (ms_id st) 0 r ?xs) [0, 1])"
    using ok by (intro send_counts_all) (auto dest: in_set_takeD)
  then have sc: "send_counts (\<lambda>_. False) (ms_id st) 0 ?xs (replicate 2 []) = (Inr (), map (\<lambda>r. wire_bytes (ms_id st) (for_reducer r ?xs)) [0, 1])"
    by (simp add: blocks_wire)
  have col: "rbind (read_csv f) all_text = Inr (join '' '' (texts f))"
    using assms(3) by (simp add: sendable_def all_text_strings)
  note cut = assms(1) [unfolded cut_short_def assms(2,4,5) option.case prod.case col sum.case Let_def file_items_def [symmetric] sc]
  show ?thesis
  proof (cases "drop m ?items")
    case Nil
    then have sent: "sent = map (\<lambda>r. wire_bytes (ms_id st) (for_reducer r ?xs)) [0, 1]" using cut by (auto split: if_splits)
    show ?thesis
      by (rule that [of ?xs "drop m ?items" "\<lambda>_. []"]) (use sent in \<open>auto simp: less_2_cases_iff\<close>)
  next
    case (Cons p items)
    obtain w n where p: "p = (w, n)" by fastforce
    have "(w, n) \<in> set ?items" using Cons p in_set_dropD [of "(w, n)" m ?items] by simp
    then have w: "w \<noteq> []" and fit: "fits (wc_message (ms_id st) 0 w n)" using ok by blast+
    let ?b = "block (wc_message (ms_id st) 0 w n)"
    have sent: "sent = (map (\<lambda>r. wire_bytes (ms_id st) (for_reducer r ?xs)) [0, 1])
        [route w := wire_bytes (ms_id st) (for_reducer (route w) ?xs) @ take k ?b]" and k: "k < length ?b"
      using cut Cons p w block_fits [OF fit] route_bound [of w]
      by (auto simp: word_2_socket_route less_2_cases_iff split: if_splits)
    then have k: "k < 1024" using block_fits [OF fit] by (simp add: BUFFER_SIZE_def)
    have "length sent = 2" unfolding sent length_list_update by simp
    moreover have "sent ! r = wire_bytes (ms_id st) (for_reducer r ?xs) @ (if r = route w then take k ?b else [])" if "r < 2" for r
    proof -
      from route_bound [of w] consider "route w = 0" | "route w = Suc 0" by linarith
      then show ?thesis using that by cases (auto simp: sent less_2_cases_iff)
    qed
    moreover have "length (if r = route w then take k ?b else []) < 1024" for r using k by (auto simp: min_def)
    ultimately show ?thesis by (intro that [OF append_take_drop_id [symmetric]])
  qed
qed

lemma job_pos_interrupt:
  assumes dep: "deployable xread read_csv texts files" and inv: "job_inv j" and pos: "job_pos xread texts files g j"
    and kept: "reducers_kept j'" and st: "interrupt_step xread read_csv i m k l j = Some j'"
  shows "\<exists>g'. job_pos xread texts files g' j'"
proof -
  let ?p = "j_mapper j i"
  obtain j2 sent where j2: "coordinate_step l j = Some j2" "cut_short (xread i) read_csv m k (mp_state ?p) = Some sent"
    and i: "i < NUM_MAPPERS" and p: "ms_alive (mp_state ?p)" "mp_connected ?p = NUM_REDUCERS" "\<not> ms_is_wc_done (mp_state ?p)"
    and gone: "mp_inc (j_mapper j2 i) \<noteq> mp_inc ?p \<or> \<not> ms_alive (mp_state (j_mapper j2 i))"
    and j': "j' = j2\<lparr>j_reducer := (\<lambda>r. if r < length sent then receive_bytes (i, mp_inc ?p) (sent ! r) (j_reducer j2 r)
       else j_reducer j2 r)\<rparr>"
    by (rule interrupt_cases [OF st])
  have kept2: "reducers_kept j2" using kept by (simp add: j' reducers_kept_def)
  let ?g2 = "restarted (j_mapper j) (j_mapper j2) g"
  have pos2: "job_pos xread texts files ?g2 j2" by (rule job_pos_coordinate [OF dep inv pos kept2 j2(1)])
  note k = coordinate_kept [OF inv kept2 j2(1) pos]
  note mp = job_posD(1) [OF pos i]
  have rep: "replaced i ?p (j_mapper j2 i)" using k i by blast
  then have incs: "mp_inc ?p \<in> {1..mp_inc (j_mapper j2 i)}"
    using mapper_posD(5) [OF mp] by (auto simp: replaced_def mapper_start_def)
  obtain rest where rest: "streams_of files ! i = pg_entries g i @ rest" "stream_reads (xread i) (ms_last_stream_id (mp_state ?p)) rest"
    using mapper_posD(14) [OF mp p(1)] p(3) by auto
  have sent: "ms_sent (mp_state ?p) = map (\<lambda>r. blocks (mapper_name i) 0 r (items_of texts (pg_entries g i))) [0, 1]"
    "ms_id (mp_state ?p) = mapper_name i" "ms_last_recovery_id (mp_state ?p) = 0"
    "pg_sent g i (mp_inc ?p) = items_of texts (pg_entries g i)"
    using mapper_posD(3,4,12,13) [OF mp] p(1) by simp_all
  have "rest \<noteq> []" using j2(2) rest(2) by (auto simp: cut_short_def)
  then obtain key f rest' where r': "rest = (key, f) # rest'" by (cases rest) auto
  then have "f \<in> set files" using rest(1) stream_subset [OF i] by force
  then have "sendable read_csv texts (ms_id (mp_state ?p)) f"
    using dep i sent(2) by (auto simp: deployable_def list_all_iff)
  then obtain xs ys frag where xs: "file_items (texts f) = xs @ ys" "length sent = 2"
    "\<And>r. r < 2 \<Longrightarrow> sent ! r = wire_bytes (mapper_name i) (for_reducer r xs) @ frag r" "\<And>r. length (frag r) < 1024"
    using cut_short_sent [OF j2(2), of key f texts] rest(2) r' sent by auto
  let ?g = "sent_more i (mp_inc ?p) xs [] False ?g2"
  have g2: "pg_sent ?g2 = pg_sent g" "pg_done ?g2 = pg_done g" by (simp_all add: restarted_def)
  have ent: "mp_inc (j_mapper j2 i) \<noteq> mp_inc ?p \<Longrightarrow> j_mapper j2 i = mapper_start i (Suc (mp_inc ?p))"
    using rep by (auto simp: replaced_def)
  have "\<exists>rd rest dn. reducer_pos r ?g (j_mapper j') rd rest dn (j_reducer j' r)" if r: "r < NUM_REDUCERS" for r
  proof -
    obtain rd rst dn where rp: "reducer_pos r g (j_mapper j) rd rst dn (j_reducer j r)" using job_posD(4) [OF pos r] by blast
    have same: "j_reducer j2 r = j_reducer j r" using k r by blast
    have b: "dict_get (rp_conns (j_reducer j2 r)) (i, mp_inc ?p) = Some (wire_bytes (mapper_name i) (rst i (mp_inc ?p)))"
      using conn_alive [OF rp i p(1)] p(2) r same by simp
    have rp2: "reducer_pos r ?g2 (j_mapper j2) rd rst dn (j_reducer j2 r)"
      unfolding same by (rule reducer_pos_replaced [OF job_posD(1) [OF pos] _ rp]) (use k in blast)+
    have "reducer_pos r ?g (j_mapper j2) rd (\<lambda>i' inc'. if i' = i \<and> inc' = mp_inc ?p then rst i (mp_inc ?p) @ for_reducer r xs else rst i' inc') dn
        (receive_bytes (i, mp_inc ?p) (wire_bytes (mapper_name i) (for_reducer r xs) @ frag r) (j_reducer j2 r))"
      by (rule reducer_pos_receive [OF rp2 i incs b xs(4)]) (use gone in \<open>auto simp: g2\<close>)
    then show ?thesis using r xs(2,3) by (auto simp: j' NUM_REDUCERS_def)
  qed
  moreover have "mapper_pos xread texts files ?g i' (j_mapper j' i')" if i': "i' < NUM_MAPPERS" for i'
  proof (cases "i' = i")
    case True
    have items: "items_of texts (streams_of files ! i) = pg_sent g i (mp_inc ?p) @ xs @ ys @ items_of texts rest'"
      unfolding rest(1) r' sent(4) by (simp add: items_of_append) (simp add: items_of_def xs(1))
    have "mp_inc ?p \<notin> pg_done g i" using mapper_posD(11) [OF mp] p(3) by simp
    moreover note pos2i = job_posD(1) [OF pos2 i]
    moreover have "mp_connected (j_mapper j2 i) < NUM_REDUCERS \<Longrightarrow> mp_inc (j_mapper j2 i) \<noteq> mp_inc ?p"
      using rep p(2) by (auto simp: replaced_def mapper_start_def)
    moreover have "mp_inc (j_mapper j2 i) \<noteq> mp_inc ?p" if "ms_alive (mp_state (j_mapper j2 i))" using gone that by blast
    ultimately have "mapper_pos xread texts files ?g i (j_mapper j2 i)"
      using items mapper_posD [OF pos2i] incs
      by (intro mapper_pos_sent [OF pos2i, of _ xs "ys @ items_of texts rest'"]) (simp_all add: g2)
    then show ?thesis using True by (simp add: j')
  qed (use job_posD(1) [OF pos2 i'] mapper_pos_other in \<open>simp add: j'\<close>)
  ultimately show ?thesis using job_posD(2,3,5,6) [OF pos2]
    unfolding job_pos_def by (intro exI [of _ ?g]) (auto simp: j' reports_def)
qed
lemma job_pos_reducer:
  assumes "job_pos xread texts files g j" "reducer_pos r g (j_mapper j) rd rest dn p"
  shows "job_pos xread texts files g (j\<lparr>j_reducer := (j_reducer j)(r := p)\<rparr>)"
  using assms unfolding job_pos_def by (auto simp: reports_def)

text \<open>What one connection still has to give: its bytes and its end.\<close>

definition unread :: "reducer_proc \<Rightarrow> nat \<Rightarrow> nat \<Rightarrow> nat" where
  "unread p i inc = (case dict_get (rp_conns p) (i, inc) of None \<Rightarrow> 0 | Some b \<Rightarrow> Suc (length b))"

lemma job_pos_read:
  assumes dep: "deployable xread read_csv texts files" and pos: "job_pos xread texts files g j"
    and st: "read_step r key j = Some j'"
  shows "\<exists>p i inc. r < NUM_REDUCERS \<and> i < NUM_MAPPERS \<and> inc \<in> {1..mp_inc (j_mapper j i)} \<and>
    unread p i inc < unread (j_reducer j r) i inc \<and>
    (\<forall>i' inc'. (i', inc') \<noteq> (i, inc) \<longrightarrow> unread p i' inc' = unread (j_reducer j r) i' inc') \<and>
    j' = j\<lparr>j_reducer := (j_reducer j)(r := p)\<rparr> \<and> job_pos xread texts files g j'"
proof -
  let ?p = "j_reducer j r"
  obtain i inc b where r: "r < NUM_REDUCERS" and key: "key = (i, inc)" and b: "dict_get (rp_conns ?p) (i, inc) = Some b"
    using st by (cases key) (auto simp: read_step_def Let_def split: if_splits option.splits)
  obtain rd rest dn where rp: "reducer_pos r g (j_mapper j) rd rest dn ?p" using job_posD(4) [OF pos r] by blast
  note c = reducer_posD(3) [OF rp]
  obtain frag where i: "i < NUM_MAPPERS" "inc \<in> {1..mp_inc (j_mapper j i)}"
    and bytes: "b = wire_bytes (mapper_name i) (rest i inc) @ frag" "length frag < 1024"
      "ms_alive (mp_state (j_mapper j i)) \<and> inc = mp_inc (j_mapper j i) \<longrightarrow> frag = []"
    using conns_posD(2) [OF c b] by blast
  have fit: "fits (wc_message (mapper_name i) 0 (fst x) (snd x))" if "x \<in> set (rest i inc)" for x
  proof -
    have "x \<in> set (for_reducer r (pg_sent g i inc))" unfolding reducer_posD(2) [OF rp i(1)] using that by simp
    then show ?thesis using items_fit [OF dep i(1) job_posD(1) [OF pos i(1)], of x inc] by simp
  qed
  show ?thesis
  proof (cases "length b < 1024")
    case True
    have nil: "rest i inc = []"
    proof (rule ccontr)
      assume "rest i inc \<noteq> []"
      then obtain x items where x: "rest i inc = x # items" by (cases "rest i inc") auto
      from read_block_wire(1) [OF fit, of x items] show False
        using True bytes(1) x by (simp del: wire_bytes_simps)
    qed
    let ?p' = "?p\<lparr>rp_conns := AList.delete key (rp_conns ?p)\<rparr>"
    have j': "j' = j\<lparr>j_reducer := (j_reducer j)(r := ?p')\<rparr>"
      and gone: "\<not> (mp_inc (j_mapper j i) = inc \<and> ms_alive (mp_state (j_mapper j i)))"
      using st r b key True reducer_posD(1) [OF rp] by (auto simp: read_step_def Let_def split: if_splits)
    have get: "dict_get (AList.delete key (rp_conns ?p)) k = (if k = (i, inc) then None else dict_get (rp_conns ?p) k)" for k
      by (simp add: key dict_simps)
    have "conns_pos r (j_mapper j) rest (AList.delete key (rp_conns ?p))"
      by (rule conns_pos_upd [OF c get _ i]) (use nil gone in auto)
    then have "reducer_pos r g (j_mapper j) rd rest dn ?p'" using rp by (simp add: reducer_pos_def)
    from job_pos_reducer [OF pos this] show ?thesis unfolding j' using r i b
      by (intro exI [of _ ?p'] exI [of _ i] exI [of _ inc]) (auto simp: unread_def get)
  next
    case False
    then obtain x items where x: "rest i inc = x # items" using bytes by (cases "rest i inc") simp_all
    note fx = fit [of x, unfolded x, simplified]
    let ?b = "wire_bytes (mapper_name i) items @ frag"
    let ?p' = "?p\<lparr>rp_queue := rp_queue ?p @ [wc_cmd x], rp_conns := dict_set (rp_conns ?p) key ?b\<rparr>"
    have j': "j' = j\<lparr>j_reducer := (j_reducer j)(r := ?p')\<rparr>"
      using st r b key bytes(1) x False read_block_wire(2,3) [OF fx, of items frag] reducer_posD(1) [OF rp]
      by (auto simp: read_step_def Let_def simp del: wire_bytes_simps(2))
    let ?rd = "\<lambda>i' inc'. if i' = i \<and> inc' = inc then rd i inc @ [x] else rd i' inc'"
    let ?rest = "\<lambda>i' inc'. if i' = i \<and> inc' = inc then items else rest i' inc'"
    have "(\<lambda>i' inc'. mset (map wc_cmd (?rd i' inc'))) =
        (\<lambda>i' inc'. if i' = i \<and> inc' = inc then mset (map wc_cmd (rd i' inc')) + {#wc_cmd x#} else mset (map wc_cmd (rd i' inc')))"
      by (auto simp: fun_eq_iff)
    then have q: "mset (dn @ rp_queue ?p') = all_incs (j_mapper j) (\<lambda>i' inc'. mset (map wc_cmd (?rd i' inc')))"
      using all_incs_upd [where procs = "j_mapper j", OF i, of "\<lambda>i' inc'. mset (map wc_cmd (rd i' inc'))" "{#wc_cmd x#}"] reducer_posD(5) [OF rp] by simp
    have get: "dict_get (dict_set (rp_conns ?p) key ?b) k = (if k = (i, inc) then Some ?b else dict_get (rp_conns ?p) k)" for k
      by (simp add: key dict_simps)
    have "conns_pos r (j_mapper j) ?rest (dict_set (rp_conns ?p) key ?b)"
      by (rule conns_pos_upd [OF c get _ i]) (use bytes(2,3) conns_posD(3) [OF c] b in auto)
    then have "reducer_pos r g (j_mapper j) ?rd ?rest dn ?p'"
      using rp q x unfolding reducer_pos_def by auto
    moreover have "length ?b < length b"
      using read_block_wire(1) [OF fx, of items] block_fits [OF fx] by (simp add: bytes(1) x BUFFER_SIZE_def)
    ultimately show ?thesis using job_pos_reducer [OF pos] r i b unfolding j'
      by (intro exI [of _ ?p'] exI [of _ i] exI [of _ inc]) (auto simp: unread_def get)
  qed
qed

lemma job_pos_reducer_step:
  assumes pos: "job_pos xread texts files g j" and r: "r < NUM_REDUCERS" and q: "rp_queue (j_reducer j r) = cmd # q"
  shows "\<exists>st'. reducer_step r j = Some (j\<lparr>j_reducer := (j_reducer j)(r := (j_reducer j r)\<lparr>rp_state := st', rp_queue := q\<rparr>)\<rparr>) \<and>
    job_pos xread texts files g (j\<lparr>j_reducer := (j_reducer j)(r := (j_reducer j r)\<lparr>rp_state := st', rp_queue := q\<rparr>)\<rparr>)"
proof -
  obtain rd rest dn where rp: "reducer_pos r g (j_mapper j) rd rest dn (j_reducer j r)" using job_posD(4) [OF pos r] by blast
  obtain items where "all_incs (j_mapper j) (\<lambda>i inc. mset (map wc_cmd (rd i inc))) = mset (map wc_cmd items)"
    by (rule all_incs_items)
  then have dn: "reducer_run dn (reducer_init r) = Inr (rp_state (j_reducer j r))"
    "mset (dn @ cmd # q) = mset (map wc_cmd items)"
    using q reducer_posD(4,5) [OF rp] by simp_all
  obtain st' where st': "reducer_handle cmd (rp_state (j_reducer j r)) = Inr st'"
    "reducer_run (dn @ [cmd]) (reducer_init r) = Inr st'"
    using reducer_next [OF dn] by blast
  have "reducer_pos r g (j_mapper j) rd rest (dn @ [cmd]) ((j_reducer j r)\<lparr>rp_state := st', rp_queue := q\<rparr>)"
    using rp st'(2) q by (simp add: reducer_pos_def)
  from job_pos_reducer [OF pos this] show ?thesis
    using st'(1) r q reducer_posD(1) [OF rp] by (intro exI [of _ st']) (simp add: reducer_step_def)
qed

lemma job_pos_connect:
  assumes pos: "job_pos xread texts files g j" and st: "connect_step i j = Some j'"
  shows "job_pos xread texts files g j'"
proof -
  let ?p = "j_mapper j i"
  let ?r = "mp_connected ?p"
  have i: "i < NUM_MAPPERS" and r: "?r < NUM_REDUCERS" and alive: "ms_alive (mp_state ?p)"
    and j': "j' = j\<lparr>j_mapper := (j_mapper j)(i := ?p\<lparr>mp_connected := Suc ?r\<rparr>),
      j_reducer := (j_reducer j)(?r := (j_reducer j ?r)\<lparr>rp_conns := dict_set (rp_conns (j_reducer j ?r)) (i, mp_inc ?p) []\<rparr>)\<rparr>"
    using st by (auto simp: connect_step_def Let_def split: if_splits)
  note mp = job_posD(1) [OF pos i]
  have sent: "pg_sent g i (mp_inc ?p) = []" by (rule mapper_posD(8) [OF mp r])
  have "\<exists>rd rest dn. reducer_pos r' g (j_mapper j') rd rest dn (j_reducer j' r')" if r': "r' < NUM_REDUCERS" for r'
  proof -
    obtain rd rest dn where rp: "reducer_pos r' g (j_mapper j) rd rest dn (j_reducer j r')" using job_posD(4) [OF pos r'] by blast
    note c = reducer_posD(3) [OF rp]
    have nil: "rest i (mp_inc ?p) = []" using reducer_posD(2) [OF rp i, of "mp_inc ?p"] sent by simp
    have get: "dict_get (rp_conns (j_reducer j' r')) k =
        (if r' = ?r \<and> k = (i, mp_inc ?p) then Some [] else dict_get (rp_conns (j_reducer j r')) k)" for k
      by (auto simp: j' dict_simps)
    have procs: "mp_inc (j_mapper j' i') = mp_inc (j_mapper j i')" "mp_state (j_mapper j' i') = mp_state (j_mapper j i')"
      "mp_connected (j_mapper j' i') = (if i' = i then Suc ?r else mp_connected (j_mapper j i'))" for i' by (auto simp: j')
    have "conns_pos r' (j_mapper j') rest (rp_conns (j_reducer j' r'))"
    proof (cases "r' = ?r")
      case True
      then have get': "dict_get (rp_conns (j_reducer j' r')) k =
          (if k = (i, mp_inc ?p) then Some [] else dict_get (rp_conns (j_reducer j r')) k)" for k using get [of k] True by simp
      have inc: "mp_inc ?p \<in> {1..mp_inc ?p}" using mapper_posD(5) [OF mp] by simp
      show ?thesis by (rule conns_pos_upd [OF c get' _ i inc]) (use True procs nil in auto)
    next
      case False
      show ?thesis by (rule conns_posI)
        (use conns_posD [OF c] False in \<open>auto simp: get procs less_Suc_eq split: if_splits\<close>)
    qed
    then have "reducer_pos r' g (j_mapper j') rd rest dn (j_reducer j' r')"
      using rp unfolding reducer_pos_def all_incs_def procs by (auto simp: j')
    then show ?thesis by blast
  qed
  moreover have "mapper_pos xread texts files g i' (j_mapper j' i')" if "i' < NUM_MAPPERS" for i'
    using job_posD(1) [OF pos that] sent r by (auto simp: j' mapper_pos_def)
  ultimately show ?thesis using job_posD(2,3,5,6) [OF pos] unfolding job_pos_def by (auto simp: j' linked_def reports_def)
qed

lemma job_pos_same:
  assumes "job_pos xread texts files g j" "j_mapper j' = j_mapper j" "j_reducer j' = j_reducer j"
    "j_wnet j' = j_wnet j" "j_log j' = j_log j" "j_co j' = j_co j"
  shows "\<exists>g'. job_pos xread texts files g' j'"
  using assms unfolding job_pos_def reports_def by (intro exI [of _ g]) simp

lemma job_pos_step:
  assumes dep: "deployable xread read_csv texts files" and inv: "job_inv j" and pos: "job_pos xread texts files g j"
    and st: "job_step xread read_csv j l = Some j'" and kept: "reducers_kept j'"
  shows "\<exists>g'. job_pos xread texts files g' j'"
proof (cases l)
  case (MapperStep i brk)
  then show ?thesis using job_pos_mapper [OF dep pos, of i brk j'] st by auto
next
  case (Connect i)
  then show ?thesis using job_pos_connect [OF pos] st by auto
next
  case (Coordinate cl)
  then show ?thesis using job_pos_coordinate [OF dep inv pos kept] st by auto
next
  case (Interrupt i m k cl)
  then show ?thesis using job_pos_interrupt [OF dep inv pos kept] st by auto
next
  case (ReadBlock r key)
  then have "read_step r key j = Some j'" using st by simp
  from job_pos_read [OF dep pos this] show ?thesis by blast
next
  case (ReducerStep r)
  then obtain cmd q where "r < NUM_REDUCERS" "rp_queue (j_reducer j r) = cmd # q"
    using st by (auto simp: reducer_step_def Let_def split: if_splits list.splits)
  from job_pos_reducer_step [OF pos this] show ?thesis using ReducerStep st by auto
next
  case (Deliver k now)
  then obtain bs where c: "coordinator_step (j_co j) (Receive now bs) = Some (j_co j')" and
    j': "j_mapper j' = j_mapper j" "j_reducer j' = j_reducer j" "j_wnet j' = j_wnet j" "j_log j' = j_log j"
    using st by (auto simp: deliver_step_def split: if_splits option.splits)
  have "linked (co_worker (j_co j') (mapper_name i)) (j_mapper j' i)" if "i < NUM_MAPPERS" for i
    using job_posD(2) [OF pos that] worker_receive [OF c] by (fastforce simp: j' linked_def)
  then show ?thesis using pos unfolding job_pos_def by (intro exI [of _ g]) (auto simp: j' reports_def)
next
  case (Command k)
  then show ?thesis using job_posD(5) [OF pos] st by (auto simp: command_step_def)
next
  case (DropCommand k)
  then show ?thesis using job_posD(5) [OF pos] st by auto
qed (use job_pos_same [OF pos, of j'] st in \<open>auto simp: mapper_heartbeat_def reducer_heartbeat_def split: if_splits\<close>)

lemma job_pos_reachable:
  assumes "deployable xread read_csv texts files" "job_reachable xread read_csv j" "reducers_kept j"
  shows "\<exists>g. job_pos xread texts files g j"
  using assms(2,3)
proof (induction rule: job_reachable.induct)
  case (start c)
  then show ?case using job_pos_start [OF assms(1)] by blast
next
  case (step j l j')
  then show ?case
    using job_pos_step [OF assms(1) job_reachable_inv] kept_back [OF job_reachable_inv] by blast
qed

end
