(* ===== verification/JobCounts.thy ===== *)
theory JobCounts
  imports JobPositions
begin

text \<open>
  What a lab 2 job has counted when its workers are at rest, and that they come to rest: from the positions of
  \<open>JobPositions\<close> the properties of whole jobs.
\<close>

section \<open>Progress\<close>

text \<open>The steps of the workers' own threads.\<close>

fun worker_label :: "job_label \<Rightarrow> bool" where
  "worker_label (Connect i) = True"
| "worker_label (MapperStep i brk) = True"
| "worker_label (ReadBlock r key) = True"
| "worker_label (ReducerStep r) = True"
| "worker_label _ = False"

fun job_run ::
  "(nat \<Rightarrow> nat \<Rightarrow> (nat \<times> string) option) \<Rightarrow> (string \<Rightarrow> string option list res) \<Rightarrow> job \<Rightarrow> job_label list \<Rightarrow> job option" where
  "job_run xread read_csv j [] = Some j"
| "job_run xread read_csv j (l # ls) =
     (case job_step xread read_csv j l of None \<Rightarrow> None | Some j' \<Rightarrow> job_run xread read_csv j' ls)"

text \<open>No count waits, in no queue and on no connection, not even on one whose sender is no more.\<close>

definition job_settled :: "job \<Rightarrow> bool" where
  "job_settled j \<longleftrightarrow>
     list_all (\<lambda>r. rp_queue (j_reducer j r) = [] \<and>
       list_all (\<lambda>key. case dict_get (rp_conns (j_reducer j r)) key of None \<Rightarrow> True | Some b \<Rightarrow> length b < 1024)
         (dict_keys (rp_conns (j_reducer j r))))
       [0..<NUM_REDUCERS]"

text \<open>Nothing is left to be done: the mappers have read their streams, no byte and no command waits.\<close>

definition job_drained :: "job \<Rightarrow> bool" where
  "job_drained j \<longleftrightarrow>
     list_all (\<lambda>i. ms_is_wc_done (mp_state (j_mapper j i))) [0..<NUM_MAPPERS] \<and>
     list_all (\<lambda>r. rp_queue (j_reducer j r) = [] \<and>
       list_all (\<lambda>key. dict_get (rp_conns (j_reducer j r)) key = Some []) (dict_keys (rp_conns (j_reducer j r))))
       [0..<NUM_REDUCERS]"

lemma job_settledD:
  assumes "job_settled j" "r < NUM_REDUCERS"
  shows "rp_queue (j_reducer j r) = []" "dict_get (rp_conns (j_reducer j r)) key = Some b \<Longrightarrow> length b < 1024"
proof -
  show "rp_queue (j_reducer j r) = []" using assms by (simp add: job_settled_def list_all_iff)
  assume b: "dict_get (rp_conns (j_reducer j r)) key = Some b"
  then have "key \<in> set (dict_keys (rp_conns (j_reducer j r)))" by (force dest: map_of_SomeD)
  then show "length b < 1024" using assms b by (fastforce simp: job_settled_def list_all_iff)
qed

lemma drained_settled: "job_drained j \<Longrightarrow> job_settled j"
  by (fastforce simp: job_drained_def job_settled_def list_all_iff split: option.split)

definition job_measure :: "string list \<Rightarrow> (progress \<times> job) rel" where
  "job_measure files = measures
     [\<lambda>(g, j). \<Sum>i < NUM_MAPPERS. NUM_REDUCERS - mp_connected (j_mapper j i),
      \<lambda>(g, j). \<Sum>i < NUM_MAPPERS. length (streams_of files ! i) - length (pg_entries g i) + of_bool (\<not> ms_is_wc_done (mp_state (j_mapper j i))),
      \<lambda>(g, j). \<Sum>r < NUM_REDUCERS. all_incs (j_mapper j) (unread (j_reducer j r)),
      \<lambda>(g, j). \<Sum>r < NUM_REDUCERS. length (rp_queue (j_reducer j r))]"

lemma wf_job_measure: "wf (job_measure files)"
  by (simp add: job_measure_def)

lemma all_incs_less:
  fixes f f' :: "nat \<Rightarrow> nat \<Rightarrow> nat"
  assumes "i < NUM_MAPPERS" "inc \<in> {1..mp_inc (procs i)}" "f i inc < f' i inc"
    and "\<And>i' inc'. (i', inc') \<noteq> (i, inc) \<Longrightarrow> f i' inc' = f' i' inc'"
  shows "all_incs procs f < all_incs procs f'"
proof -
  have le: "f i' inc' \<le> f' i' inc'" for i' inc' using assms(3,4) by (cases "(i', inc') = (i, inc)") auto
  have "(\<Sum>inc \<in> {1..mp_inc (procs i)}. f i inc) < (\<Sum>inc \<in> {1..mp_inc (procs i)}. f' i inc)"
    using assms(2,3) le by (intro sum_strict_mono_ex1) auto
  then show ?thesis using assms(1) le unfolding all_incs_def by (intro sum_strict_mono_ex1) (auto intro: sum_mono)
qed

text \<open>Both mappers have a process that runs.\<close>

definition manned :: "job \<Rightarrow> bool" where
  "manned j \<longleftrightarrow> list_all (\<lambda>i. ms_alive (mp_state (j_mapper j i))) [0..<NUM_MAPPERS]"

lemma worker_step_measure:
  assumes dep: "deployable xread read_csv texts files" and pos: "job_pos xread texts files g j"
    and st: "job_step xread read_csv j l = Some j'" and l: "worker_label l"
  shows "\<exists>g'. job_pos xread texts files g' j' \<and> ((g', j'), (g, j)) \<in> job_measure files \<and> j_co j' = j_co j \<and>
    manned j' = manned j \<and> (\<forall>i. pg_done g i \<subseteq> pg_done g' i) \<and> (\<forall>i. mp_inc (j_mapper j' i) = mp_inc (j_mapper j i))"
proof (cases l)
  case (Connect i)
  then have "i < NUM_MAPPERS" "mp_connected (j_mapper j i) < NUM_REDUCERS" "j_co j' = j_co j"
    "j_mapper j' = (j_mapper j)(i := (j_mapper j i)\<lparr>mp_connected := Suc (mp_connected (j_mapper j i))\<rparr>)"
    using st by (auto simp: connect_step_def Let_def split: if_splits)
  then have "((g, j'), (g, j)) \<in> job_measure files \<and> j_co j' = j_co j \<and> manned j' = manned j \<and> (\<forall>i. mp_inc (j_mapper j' i) = mp_inc (j_mapper j i))"
    by (auto simp: job_measure_def sum_two two_cases(1) diff_less_mono2 manned_def list_all_iff)
  then show ?thesis using job_pos_connect [OF pos, of i j'] st Connect by auto
next
  case (MapperStep i brk)
  with st have ms: "mapper_step xread read_csv i brk j = Some j'" by simp
  then have alive: "ms_alive (mp_state (j_mapper j i))" by (auto simp: mapper_step_def Let_def split: if_splits)
  from job_pos_mapper [OF dep pos ms] obtain g' p where m: "i < NUM_MAPPERS"
    "job_pos xread texts files g' j'" "j_co j' = j_co j" "ms_alive (mp_state p)"
    "j_mapper j' = (j_mapper j)(i := p)" "mp_connected p = mp_connected (j_mapper j i)" "mp_inc p = mp_inc (j_mapper j i)"
    "\<forall>i'. pg_done g i' \<subseteq> pg_done g' i'" "\<forall>i'. i' \<noteq> i \<longrightarrow> pg_entries g' i' = pg_entries g i'"
    "length (streams_of files ! i) - length (pg_entries g' i) + of_bool (\<not> ms_is_wc_done (mp_state p)) <
      length (streams_of files ! i) - length (pg_entries g i) + of_bool (\<not> ms_is_wc_done (mp_state (j_mapper j i)))" by blast
  then have "((g', j'), (g, j)) \<in> job_measure files"
    by (auto simp: job_measure_def sum_two two_cases)
  moreover have "manned j' = manned j" using m(4,5) alive by (auto simp: manned_def list_all_iff)
  moreover have "\<forall>i'. mp_inc (j_mapper j' i') = mp_inc (j_mapper j i')" using m(5,7) by simp
  ultimately show ?thesis using m(2,3,8) by blast
next
  case (ReadBlock r key)
  with st have "read_step r key j = Some j'" by simp
  from job_pos_read [OF dep pos this] obtain p i inc where m: "r < NUM_REDUCERS" "i < NUM_MAPPERS" "inc \<in> {1..mp_inc (j_mapper j i)}"
    "unread p i inc < unread (j_reducer j r) i inc"
    "\<forall>i' inc'. (i', inc') \<noteq> (i, inc) \<longrightarrow> unread p i' inc' = unread (j_reducer j r) i' inc'"
    "j' = j\<lparr>j_reducer := (j_reducer j)(r := p)\<rparr>" "job_pos xread texts files g j'" by blast
  have "all_incs (j_mapper j) (unread p) < all_incs (j_mapper j) (unread (j_reducer j r))"
    using m(5) by (intro all_incs_less [where procs = "j_mapper j" and f = "unread p" and f' = "unread (j_reducer j r)", OF m(2-4)]) blast
  then have "((g, j'), (g, j)) \<in> job_measure files"
    using m(1,6) by (auto simp: job_measure_def sum_two two_cases)
  then show ?thesis using m(6,7) by (auto simp: manned_def)
next
  case (ReducerStep r)
  then obtain cmd q where r: "r < NUM_REDUCERS" "rp_queue (j_reducer j r) = cmd # q"
    using st by (auto simp: reducer_step_def Let_def split: if_splits list.splits)
  from job_pos_reducer_step [OF pos this] obtain st' where
    m: "j' = j\<lparr>j_reducer := (j_reducer j)(r := (j_reducer j r)\<lparr>rp_state := st', rp_queue := q\<rparr>)\<rparr>" "job_pos xread texts files g j'"
    using st ReducerStep by auto
  have "unread ((j_reducer j r)\<lparr>rp_state := st', rp_queue := q\<rparr>) = unread (j_reducer j r)"
    by (simp add: unread_def fun_eq_iff)
  then have "((g, j'), (g, j)) \<in> job_measure files"
    using r m(1) by (auto simp: job_measure_def sum_two two_cases)
  then show ?thesis using m by (auto simp: manned_def)
qed (use l in simp_all)

text \<open>When the workers' threads all wait and no process is missing, there is nothing left to do.\<close>

lemma stuck_drained:
  assumes dep: "deployable xread read_csv texts files" and pos: "job_pos xread texts files g j" and man: "manned j"
    and stuck: "\<And>l. worker_label l \<Longrightarrow> job_step xread read_csv j l = None"
  shows "job_drained j"
proof -
  have alive: "ms_alive (mp_state (j_mapper j i))" if "i < NUM_MAPPERS" for i
    using man that by (simp add: manned_def list_all_iff)
  have fin: "ms_is_wc_done (mp_state (j_mapper j i))" if i: "i < NUM_MAPPERS" for i
  proof (rule ccontr)
    assume nd: "\<not> ms_is_wc_done (mp_state (j_mapper j i))"
    note mp = job_posD(1) [OF pos i]
    show False
    proof (cases "mp_connected (j_mapper j i) = NUM_REDUCERS")
      case True
      then show False using stuck [of "MapperStep i (\<lambda>_. False)"] i nd mapper_posD(1) [OF mp] alive [OF i]
        by (auto simp: mapper_step_def Let_def mapper_iteration_def)
    next
      case False
      then have c: "mp_connected (j_mapper j i) < NUM_REDUCERS" using mapper_posD(2) [OF mp] by simp
      then have "rp_alive (j_reducer j (mp_connected (j_mapper j i)))"
        using job_posD(4) [OF pos c] reducer_posD(1) by blast
      then show False using stuck [of "Connect i"] i alive [OF i] c by (auto simp: connect_step_def Let_def)
    qed
  qed
  have queue: "rp_queue (j_reducer j r) = []" if r: "r < NUM_REDUCERS" for r
  proof (rule ccontr)
    assume "rp_queue (j_reducer j r) \<noteq> []"
    then obtain cmd q where "rp_queue (j_reducer j r) = cmd # q" by (cases "rp_queue (j_reducer j r)") auto
    from job_pos_reducer_step [OF pos r this] show False using stuck [of "ReducerStep r"] by auto
  qed
  have "b = []" if r: "r < NUM_REDUCERS" and b: "dict_get (rp_conns (j_reducer j r)) (i, inc) = Some b" for r i inc b
  proof -
    obtain rd rest dn where rp: "reducer_pos r g (j_mapper j) rd rest dn (j_reducer j r)" using job_posD(4) [OF pos r] by blast
    have none: "read_step r (i, inc) j = None" using stuck [of "ReadBlock r (i, inc)"] by simp
    then have live: "length b < 1024" "mp_inc (j_mapper j i) = inc \<and> ms_alive (mp_state (j_mapper j i))"
      using r b reducer_posD(1) [OF rp] by (auto simp: read_step_def Let_def split: if_splits sum.splits)
    obtain frag where f: "i < NUM_MAPPERS" "b = wire_bytes (mapper_name i) (rest i inc) @ frag" "frag = []"
      using conns_posD(2) [OF reducer_posD(3) [OF rp] b] live(2) by blast
    show ?thesis
    proof (cases "rest i inc")
      case (Cons x items)
      then have "x \<in> set (for_reducer r (pg_sent g i inc))" unfolding reducer_posD(2) [OF rp f(1)] by simp
      then have "fits (wc_message (mapper_name i) 0 (fst x) (snd x))"
        using items_fit [OF dep f(1) job_posD(1) [OF pos f(1)], of x inc] by simp
      from read_block_wire(1) [OF this, of items] show ?thesis using live(1) f Cons by (simp del: wire_bytes_simps)
    qed (use f in simp)
  qed
  then have "dict_get (rp_conns (j_reducer j r)) key = Some []"
    if "r < NUM_REDUCERS" "key \<in> set (dict_keys (rp_conns (j_reducer j r)))" for r key
    using that by (cases key; cases "dict_get (rp_conns (j_reducer j r)) key") (auto simp: map_of_eq_None_iff)
  with fin queue show ?thesis by (auto simp: job_drained_def list_all_iff)
qed

text \<open>In a settled job the reducers have counted everything that any process has sent whole.\<close>

lemma settled_counts:
  assumes dep: "deployable xread read_csv texts files" and pos: "job_pos xread texts files g j"
    and se: "job_settled j" and r: "r < NUM_REDUCERS"
  obtains items where "rs_wc (rp_state (j_reducer j r)) = map (\<lambda>(w, n). (JStr w, n)) (bump_all [] items)"
    "mset items = all_incs (j_mapper j) (\<lambda>i inc. mset (for_reducer r (pg_sent g i inc)))"
proof -
  obtain rd rest dn where rp: "reducer_pos r g (j_mapper j) rd rest dn (j_reducer j r)" using job_posD(4) [OF pos r] by blast
  note c = reducer_posD(3) [OF rp]
  have rd: "rd i inc = for_reducer r (pg_sent g i inc)" if i: "i < NUM_MAPPERS" for i inc
  proof -
    have "rest i inc = []"
    proof (cases "dict_get (rp_conns (j_reducer j r)) (i, inc)")
      case None
      then show ?thesis by (rule conns_posD(1) [OF c])
    next
      case (Some b)
      show ?thesis
      proof (cases "rest i inc")
        case (Cons x items)
        then have "x \<in> set (for_reducer r (pg_sent g i inc))" unfolding reducer_posD(2) [OF rp i] by simp
        then have "fits (wc_message (mapper_name i) 0 (fst x) (snd x))"
          using items_fit [OF dep i job_posD(1) [OF pos i], of x inc] by simp
        from read_block_wire(1) [OF this, of items] show ?thesis
          using conns_posD(2) [OF c Some] job_settledD(2) [OF se r Some] Cons by (auto simp del: wire_bytes_simps)
      qed
    qed
    then show ?thesis using reducer_posD(2) [OF rp i, of inc] by simp
  qed
  obtain items where items: "all_incs (j_mapper j) (\<lambda>i inc. mset (map wc_cmd (rd i inc))) = mset (map wc_cmd items)"
    "mset items = all_incs (j_mapper j) (\<lambda>i inc. mset (rd i inc))" by (rule all_incs_items)
  then have "mset dn = mset (map wc_cmd items)" using reducer_posD(5) [OF rp] job_settledD(1) [OF se r] by simp
  then obtain items' where items': "dn = map wc_cmd items'" "mset items' = mset items" by (rule wc_cmd_perm)
  have "rs_wc (reducer_init r) = []" "rs_last_recovery_id (reducer_init r) = 0" by (simp_all add: reducer_init_def)
  then have "rs_wc (rp_state (j_reducer j r)) = map (\<lambda>(w, n). (JStr w, n)) (bump_all [] items')"
    using reducer_run_items [of "reducer_init r" items'] reducer_posD(4) [OF rp] items'(1) bump_all_str [of "[]" items']
    by (auto dest: sym)
  moreover have "mset items' = all_incs (j_mapper j) (\<lambda>i inc. mset (for_reducer r (pg_sent g i inc)))"
    unfolding items' items(2) using rd by (simp add: all_incs_def)
  ultimately show ?thesis by (rule that)
qed

lemma live_once:
  assumes "job_pos xread texts files g j" "live j" "i < NUM_MAPPERS"
  shows "mp_inc (j_mapper j i) = 1" "ms_alive (mp_state (j_mapper j i))"
  using job_posD(2) [OF assms(1,3)] assms(2) mapper_name_member [OF assms(3)]
  by (auto simp: linked_def live_def unlost_def)

lemma live_manned: "job_pos xread texts files g j \<Longrightarrow> live j \<Longrightarrow> manned j"
  using live_once(2) by (fastforce simp: manned_def list_all_iff)

lemma drained_correct:
  assumes dep: "deployable xread read_csv texts files" and pos: "job_pos xread texts files g j" and live: "live j"
    and dr: "job_drained j" and perm: "mset files' = mset files"
  shows "checker (Some (checkpoint_text (rp_state (j_reducer j 0)))) (Some (checkpoint_text (rp_state (j_reducer j 1))))
    (Some (seq_text (concat (map texts files')))) = Inr ''CORRECT''"
proof -
  note inc = live_once(1) [OF pos live]
  have sent: "pg_sent g i 1 = items_of texts (streams_of files ! i)" if i: "i < NUM_MAPPERS" for i
  proof -
    have "ms_is_wc_done (mp_state (j_mapper j i))" using dr i by (simp add: job_drained_def list_all_iff)
    then show ?thesis using mapper_posD(10,11) [OF job_posD(1) [OF pos i]] inc [OF i] by auto
  qed
  have counts: "\<exists>items. checkpoint_text (rp_state (j_reducer j r)) = dumps (int_obj (bump_all [] items)) \<and>
      mset items = mset (for_reducer r (items_of texts (streams_of files ! 0 @ streams_of files ! 1)))" if r: "r < NUM_REDUCERS" for r
  proof -
    obtain items where i: "rs_wc (rp_state (j_reducer j r)) = map (\<lambda>(w, n). (JStr w, n)) (bump_all [] items)"
      "mset items = all_incs (j_mapper j) (\<lambda>i inc. mset (for_reducer r (pg_sent g i inc)))"
      by (rule settled_counts [OF dep pos drained_settled [OF dr] r])
    have "mset items = mset (for_reducer r (items_of texts (streams_of files ! 0 @ streams_of files ! 1)))"
    proof -
      have "all_incs (j_mapper j) (\<lambda>i inc. mset (for_reducer r (pg_sent g i inc))) =
          mset (for_reducer r (pg_sent g 0 1)) + mset (for_reducer r (pg_sent g 1 1))"
        by (rule all_incs_one) (rule inc)
      then show ?thesis unfolding i(2) using sent [of 0] sent [of 1] by (simp add: two_cases items_of_append)
    qed
    with checkpoint_text_str [OF i(1)] show ?thesis by blast
  qed
  have r: "0 < NUM_REDUCERS" "1 < NUM_REDUCERS" by (simp_all add: NUM_REDUCERS_def)
  from counts [OF r(1)] counts [OF r(2)] show ?thesis using counted_correct [OF dep perm] by auto
qed

lemma worker_runs_end:
  assumes dep: "deployable xread read_csv texts files"
  shows "job_pos xread texts files (fst s) (snd s) \<Longrightarrow>
    \<nexists>f g. f 0 = snd s \<and> (\<forall>n :: nat. worker_label (g n) \<and> job_step xread read_csv (f n) (g n) = Some (f (Suc n)))"
proof (induction s rule: wf_induct_rule [OF wf_job_measure [of files]])
  case (1 s)
  obtain g0 j where s: "s = (g0, j)" by fastforce
  show ?case
  proof
    assume "\<exists>f g. f 0 = snd s \<and> (\<forall>n :: nat. worker_label (g n) \<and> job_step xread read_csv (f n) (g n) = Some (f (Suc n)))"
    then obtain f g where fg: "f 0 = j" "\<And>n :: nat. worker_label (g n)" "\<And>n. job_step xread read_csv (f n) (g n) = Some (f (Suc n))"
      using s by auto
    have pos: "job_pos xread texts files g0 j" using "1.prems" s by simp
    have "job_step xread read_csv j (g 0) = Some (f (Suc 0))" using fg(1) fg(3) [of 0] by simp
    from worker_step_measure [OF dep pos this fg(2)] obtain g' where
      "job_pos xread texts files g' (f (Suc 0))" "((g', f (Suc 0)), (g0, j)) \<in> job_measure files" by blast
    then have "\<nexists>f' g'. f' 0 = f (Suc 0) \<and> (\<forall>n :: nat. worker_label (g' n) \<and> job_step xread read_csv (f' n) (g' n) = Some (f' (Suc n)))"
      using "1.IH" [of "(g', f (Suc 0))"] s by simp
    then show False
      using fg(2,3) by (elim notE) (intro exI [of _ "\<lambda>n. f (Suc n)"] exI [of _ "\<lambda>n. g (Suc n)"], simp)
  qed
qed

lemma worker_run_drains:
  assumes dep: "deployable xread read_csv texts files"
  shows "job_pos xread texts files (fst s) (snd s) \<Longrightarrow> manned (snd s) \<Longrightarrow>
    \<exists>ls g' j'. list_all worker_label ls \<and> job_run xread read_csv (snd s) ls = Some j' \<and>
      job_pos xread texts files g' j' \<and> job_drained j' \<and> j_co j' = j_co (snd s) \<and>
      (\<forall>i. pg_done (fst s) i \<subseteq> pg_done g' i) \<and> (\<forall>i. mp_inc (j_mapper j' i) = mp_inc (j_mapper (snd s) i))"
proof (induction s rule: wf_induct_rule [OF wf_job_measure [of files]])
  case (1 s)
  obtain g j where s: "s = (g, j)" by fastforce
  have pos: "job_pos xread texts files g j" and man: "manned j" using "1.prems" s by simp_all
  show ?case
  proof (cases "job_drained j")
    case True
    then show ?thesis using pos s by (intro exI [of _ "[]"] exI [of _ g] exI [of _ j]) simp
  next
    case False
    then obtain l j' where l: "worker_label l" "job_step xread read_csv j l = Some j'"
      using stuck_drained [OF dep pos man] by (meson option.exhaust)
    from worker_step_measure [OF dep pos l(2,1)] obtain g' where
      g': "job_pos xread texts files g' j'" "((g', j'), (g, j)) \<in> job_measure files" "j_co j' = j_co j" "manned j'"
      "\<forall>i. pg_done g i \<subseteq> pg_done g' i" "\<forall>i. mp_inc (j_mapper j' i) = mp_inc (j_mapper j i)"
      using man by auto
    then obtain ls g'' j'' where "list_all worker_label ls" "job_run xread read_csv j' ls = Some j''"
      "job_pos xread texts files g'' j''" "job_drained j''" "j_co j'' = j_co j'"
      "\<forall>i. pg_done g' i \<subseteq> pg_done g'' i" "\<forall>i. mp_inc (j_mapper j'' i) = mp_inc (j_mapper j' i)"
      using "1.IH" [of "(g', j')"] s by auto
    moreover from this have "\<forall>i. pg_done g i \<subseteq> pg_done g'' i" using g'(5) by blast
    ultimately show ?thesis using l g'(3,6) s by (intro exI [of _ "l # ls"] exI [of _ g''] exI [of _ j'']) simp
  qed
qed

lemma job_run_reachable:
  "job_reachable xread read_csv j \<Longrightarrow> job_run xread read_csv j ls = Some j' \<Longrightarrow> job_reachable xread read_csv j'"
  by (induction ls arbitrary: j) (auto intro: job_reachable.step split: option.splits)

lemma live_start: "coordinator_start = Inr c \<Longrightarrow> live (job_start c)"
  by (auto simp: live_def job_start_def unlost_def worker_names_eq co_worker_def coordinator_start_eq started_worker_def)

text \<open>A mapper that the coordinator has marked as done has been done.\<close>

lemma done_logged:
  assumes "job_inv j" "i < NUM_MAPPERS" "reported_done (sy_received (j_co j)) (mapper_name i)"
  shows "i \<in> fst ` set (j_log j) \<and> block (done_message (mapper_name i)) \<in> set (sy_received (j_co j))"
proof -
  obtain bs m where bs: "bs \<in> set (sy_received (j_co j))" "message_deserialize (take 1024 bs) = Inr m"
    "m_type m = DONE" "m_source m = JStr (mapper_name i)" using assms(3) by (auto simp: reported_done_def)
  have "datagram_ok (j_log j) bs" using assms(1) bs(1) by (simp add: job_inv_def)
  then show ?thesis unfolding datagram_ok_def
  proof
    assume "\<exists>k \<in> set worker_names. bs = block (heartbeat_message k)"
    then obtain k where k: "k \<in> set worker_names" "bs = block (heartbeat_message k)" by blast
    then have "m = heartbeat_message k" using bs(2) fits_names [OF k(1)] by (simp add: take_block blk.dec_enc)
    then show ?thesis using bs(3) by (simp add: heartbeat_message_def)
  next
    assume "\<exists>i < NUM_MAPPERS. bs = block (done_message (mapper_name i)) \<and> i \<in> fst ` set (j_log j)"
    then obtain i' where i': "i' < NUM_MAPPERS" "bs = block (done_message (mapper_name i'))" "i' \<in> fst ` set (j_log j)" by blast
    then have "m = done_message (mapper_name i')"
      using bs(2) fits_names [OF mapper_name_member [OF i'(1)]] by (simp add: take_block blk.dec_enc)
    then have "mapper_name i' = mapper_name i" using bs(4) by (simp add: done_message_def)
    then have "i' = i" using i'(1) assms(2) by (auto simp: two_cases mapper_name_simps)
    then show ?thesis using i'(2,3) bs(1) by simp
  qed
qed

text \<open>One mapper alone can get there.\<close>

lemma mapper_runs_out:
  assumes dep: "deployable xread read_csv texts files" and i: "i < NUM_MAPPERS"
  shows "job_pos xread texts files g j \<Longrightarrow> mp_connected (j_mapper j i) = NUM_REDUCERS \<Longrightarrow> ms_alive (mp_state (j_mapper j i)) \<Longrightarrow>
    \<not> ms_is_wc_done (mp_state (j_mapper j i)) \<Longrightarrow>
    \<exists>n j' p g'. job_run xread read_csv j (replicate n (MapperStep i (\<lambda>_. False))) = Some j' \<and>
      j_co j' = j_co j \<and> block (done_message (mapper_name i)) \<in> set (j_net j') \<and> job_pos xread texts files g' j' \<and>
      j_mapper j' = (j_mapper j)(i := p) \<and> ms_is_wc_done (mp_state p) \<and> ms_alive (mp_state p)"
proof (induction "length (streams_of files ! i) - length (pg_entries g i) + of_bool (\<not> ms_is_wc_done (mp_state (j_mapper j i)))"
    arbitrary: g j rule: less_induct)
  case less
  note mp = job_posD(1) [OF less.prems(1) i]
  obtain j' where j': "mapper_step xread read_csv i (\<lambda>_. False) j = Some j'"
    using less.prems i mapper_posD(1) [OF mp] by (auto simp: mapper_step_def Let_def mapper_iteration_def)
  obtain g' p where m: "job_pos xread texts files g' j'" "j_co j' = j_co j"
    "j_mapper j' = (j_mapper j)(i := p)" "mp_connected p = mp_connected (j_mapper j i)" "ms_alive (mp_state p)"
    "length (streams_of files ! i) - length (pg_entries g' i) + of_bool (\<not> ms_is_wc_done (mp_state p)) <
      length (streams_of files ! i) - length (pg_entries g i) + of_bool (\<not> ms_is_wc_done (mp_state (j_mapper j i)))"
    "ms_is_wc_done (mp_state p) \<longrightarrow> block (done_message (mapper_name i)) \<in> set (j_net j')"
    using job_pos_mapper [OF dep less.prems(1) j'] by blast
  show ?case
  proof (cases "ms_is_wc_done (mp_state p)")
    case True
    then show ?thesis using m j' by (intro exI [of _ 1] exI [of _ j'] exI [of _ p] exI [of _ g']) simp
  next
    case False
    have "\<exists>n j'' p' g''. job_run xread read_csv j' (replicate n (MapperStep i (\<lambda>_. False))) = Some j'' \<and>
      j_co j'' = j_co j' \<and> block (done_message (mapper_name i)) \<in> set (j_net j'') \<and> job_pos xread texts files g'' j'' \<and>
      j_mapper j'' = (j_mapper j')(i := p') \<and> ms_is_wc_done (mp_state p') \<and> ms_alive (mp_state p')"
      using m False less.prems(2) by (intro less.hyps [OF _ m(1)]) simp_all
    then obtain n j'' p' g'' where "job_run xread read_csv j' (replicate n (MapperStep i (\<lambda>_. False))) = Some j''"
      "j_co j'' = j_co j'" "block (done_message (mapper_name i)) \<in> set (j_net j'')" "job_pos xread texts files g'' j''"
      "j_mapper j'' = (j_mapper j')(i := p')" "ms_is_wc_done (mp_state p')" "ms_alive (mp_state p')" by blast
    then show ?thesis using j' m(2,3)
      by (intro exI [of _ "Suc n"] exI [of _ j''] exI [of _ p'] exI [of _ g'']) simp
  qed
qed

text \<open>Runs of the workers end, whatever mappers were lost before, and then everything is drained.\<close>

lemma restarted_job_drains:
  assumes "deployable xread read_csv texts files" and "job_reachable xread read_csv j" and "reducers_kept j" and "manned j"
  shows "(\<nexists>f g. f 0 = j \<and> (\<forall>n :: nat. worker_label (g n) \<and> job_step xread read_csv (f n) (g n) = Some (f (Suc n)))) \<and>
    (\<forall>ls j'. list_all worker_label ls \<and> job_run xread read_csv j ls = Some j' \<and>
        (\<forall>l. worker_label l \<longrightarrow> job_step xread read_csv j' l = None) \<longrightarrow> job_drained j' \<and> j_co j' = j_co j)"
proof -
  obtain g where pos: "job_pos xread texts files g j" using job_pos_reachable [OF assms(1-3)] by blast
  have run: "\<exists>g'. job_pos xread texts files g' j' \<and> j_co j' = j_co j0 \<and> manned j' = manned j0"
    if "list_all worker_label ls" "job_run xread read_csv j0 ls = Some j'" "job_pos xread texts files g0 j0" for ls g0 j0 j'
    using that
  proof (induction ls arbitrary: g0 j0)
    case (Cons l ls)
    then obtain j1 where j1: "job_step xread read_csv j0 l = Some j1" "job_run xread read_csv j1 ls = Some j'"
      by (auto split: option.splits)
    have "worker_label l" using Cons.prems(1) by simp
    from worker_step_measure [OF assms(1) Cons.prems(3) j1(1) this] obtain g1 where
      "job_pos xread texts files g1 j1" "j_co j1 = j_co j0" "manned j1 = manned j0" by blast
    then show ?case using Cons.IH [OF _ j1(2)] Cons.prems(1) by auto
  qed auto
  show ?thesis using worker_runs_end [OF assms(1), of "(g, j)"] pos run [OF _ _ pos] assms(4) stuck_drained [OF assms(1)] by (simp, metis)
qed

text \<open>If none was lost, they end with the right count.\<close>

lemma worker_runs_correct:
  assumes "deployable xread read_csv texts files" and "job_reachable xread read_csv j" and "live j"
  shows "(\<nexists>f g. f 0 = j \<and> (\<forall>n :: nat. worker_label (g n) \<and> job_step xread read_csv (f n) (g n) = Some (f (Suc n)))) \<and>
    (\<forall>ls j' files'. list_all worker_label ls \<and> job_run xread read_csv j ls = Some j' \<and>
        (\<forall>l. worker_label l \<longrightarrow> job_step xread read_csv j' l = None) \<and> mset files' = mset files \<longrightarrow>
      checker (Some (checkpoint_text (rp_state (j_reducer j' 0)))) (Some (checkpoint_text (rp_state (j_reducer j' 1))))
        (Some (seq_text (concat (map texts files')))) = Inr ''CORRECT'')"
proof -
  obtain g where pos: "job_pos xread texts files g j" using job_pos_reachable [OF assms(1,2) live_kept [OF assms(3)]] by blast
  note ends = restarted_job_drains [OF assms(1,2) live_kept [OF assms(3)] live_manned [OF pos assms(3)]]
  have "checker (Some (checkpoint_text (rp_state (j_reducer j' 0)))) (Some (checkpoint_text (rp_state (j_reducer j' 1))))
        (Some (seq_text (concat (map texts files')))) = Inr ''CORRECT''"
    if run: "job_run xread read_csv j ls = Some j'" and dr: "job_drained j' \<and> j_co j' = j_co j" and files': "mset files' = mset files"
    for ls j' files'
  proof -
    have live': "live j'" using assms(3) dr by (simp add: live_def)
    obtain g' where pos': "job_pos xread texts files g' j'"
      using job_pos_reachable [OF assms(1) job_run_reachable [OF assms(2) run] live_kept [OF live']] by blast
    show ?thesis by (rule drained_correct [OF assms(1) pos' live' conjunct1 [OF dr] files'])
  qed
  with ends show ?thesis by blast
qed

section \<open>Properties\<close>

text \<open>
  C10. No worker can stop the coordinator from listening: whatever the workers, the restarts and the
  kills of a test mode do, in every order of the threads and with any loss and reordering of
  datagrams, the coordinator's receive thread is alive.
\<close>

theorem job_receiver_survives:
  assumes "job_reachable xread read_csv j"
  shows "sy_recv_alive (j_co j)"
  using job_reachable_inv [OF assms] by (simp add: job_inv_def)

theorem job_receiver_survives_witness:
  "sy_recv_alive (j_co (job_start (case coordinator_start of Inr c \<Rightarrow> c)))"
  by (rule job_receiver_survives [where xread = demo_xread and read_csv = demo_csv])
    (rule job_reachable.start, simp add: coordinator_start_eq)


lemma demo_drained:
  "\<exists>j. job_reachable demo_xread demo_csv j \<and> live j \<and> job_drained j"
proof -
  obtain c where c: "coordinator_start = Inr c" by (simp add: coordinator_start_eq)
  note pos = job_pos_start [OF demo_deployable c]
  obtain ls g j where j: "job_run demo_xread demo_csv (job_start c) ls = Some j" "job_drained j" "j_co j = j_co (job_start c)"
    using worker_run_drains [OF demo_deployable, of "(\<lparr>pg_entries = \<lambda>i. [], pg_sent = \<lambda>i inc. [], pg_done = \<lambda>i. {}\<rparr>, job_start c)"]
      pos live_manned [OF pos live_start [OF c]] by auto
  have "job_reachable demo_xread demo_csv j"
    using job_run_reachable [OF job_reachable.start [OF c] j(1)] .
  moreover have "live j" using live_start [OF c] j(3) by (simp add: live_def)
  ultimately show ?thesis using j(2) by blast
qed





lemma demo_done:
  "\<exists>j w. job_reachable demo_xread demo_csv j \<and> live j \<and>
    co_worker (j_co j) (mapper_name 0) = Some w \<and> ws_is_done w"
proof -
  obtain c where c: "coordinator_start = Inr c" by (simp add: coordinator_start_eq)
  obtain j0 where j0: "job_run demo_xread demo_csv (job_start c) [Connect 0, Connect 0] = Some j0" "j_co j0 = c"
    "mp_connected (j_mapper j0 0) = NUM_REDUCERS" "ms_alive (mp_state (j_mapper j0 0))" "\<not> ms_is_wc_done (mp_state (j_mapper j0 0))"
    by (simp add: connect_step_def job_start_def mapper_start_def mapper_init_def reducer_start_def NUM_MAPPERS_def NUM_REDUCERS_def)
  have r0: "job_reachable demo_xread demo_csv j0" using job_run_reachable [OF job_reachable.start [OF c] j0(1)] .
  have "live j0" using live_start [OF c] j0(2) by (simp add: live_def job_start_def)
  then obtain g where pos: "job_pos demo_xread demo_texts demo_files g j0"
    using job_pos_reachable [OF demo_deployable r0] live_kept by blast
  have "(0 :: nat) < NUM_MAPPERS" by (simp add: two_cases)
  from mapper_runs_out [OF demo_deployable this pos j0(3-5)] j0(2)
  obtain n j1 where j1: "job_run demo_xread demo_csv j0 (replicate n (MapperStep 0 (\<lambda>_. False))) = Some j1"
    "j_co j1 = c" "block (done_message (mapper_name 0)) \<in> set (j_net j1)"
    by blast
  then obtain k where k: "k < length (j_net j1)" "j_net j1 ! k = block (done_message (mapper_name 0))"
    by (auto simp: in_set_conv_nth)
  have "fits (done_message (mapper_name 0))" using fits_names [OF mapper_name_member, of 0] by (simp add: two_cases)
  then have msg: "message_deserialize (take 1024 (j_net j1 ! k)) = Inr (done_message ''Mapper_0'')"
    using k(2) by (simp add: take_block blk.dec_enc mapper_name_simps)
  let ?w = "(started_worker 0 True 12901)\<lparr>ws_is_done := True\<rparr>"
  have "receive_step 0 (j_net j1 ! k) (sy_state c) = (Inr None, set_worker (sy_state c) ''Mapper_0'' ?w)"
    using c msg by (auto simp: coordinator_start_eq receive_step_def msg_factory_def done_message_def dict_index_def
        started_worker_def worker_init_def all_mappers_done_def set_worker_def)
  then obtain c' where c': "coordinator_step c (Receive 0 (j_net j1 ! k)) = Some c'"
    "sy_state c' = set_worker (sy_state c) ''Mapper_0'' ?w" "\<not> sy_exited c'"
    using c by (auto simp: coordinator_start_eq coordinator_step_def)
  then have "job_step demo_xread demo_csv j1 (Deliver k 0) = Some (j1\<lparr>j_co := c', j_net := remove_nth k (j_net j1)\<rparr>)"
    using k(1) j1(2) by (simp add: deliver_step_def)
  from job_reachable.step [OF job_run_reachable [OF r0 j1(1)] this]
  have "job_reachable demo_xread demo_csv (j1\<lparr>j_co := c', j_net := remove_nth k (j_net j1)\<rparr>)" .
  moreover have "unlost worker_names c'" "co_worker c' (mapper_name 0) = Some ?w"
    using c c'(2) by (auto simp: unlost_def worker_names_eq co_worker_def set_worker_def mapper_name_simps
        coordinator_start_eq started_worker_def)
  ultimately show ?thesis
    using c'(3) by (intro exI [of _ "j1\<lparr>j_co := c', j_net := remove_nth k (j_net j1)\<rparr>"] exI [of _ ?w]) (simp add: live_def)
qed


end
