(* ===== verification/JobData.thy ===== *)
theory JobData
  imports JobCounts
begin

text \<open>
  The test data of lab 2 (\<open>generator.py\<close>) and the job on it. \<open>draw\<close> is the outcome of the calls of
  \<open>random.choice\<close>; what pandas writes and reads back is a parameter.
\<close>

section \<open>Generating\<close>

definition random_choice :: "nat \<Rightarrow> 'a list \<Rightarrow> 'a" where
  "random_choice k xs = xs ! (k mod length xs)"

definition generate_random_sentence :: "(nat \<Rightarrow> nat) \<Rightarrow> string list \<Rightarrow> nat \<Rightarrow> string" where
  "generate_random_sentence draw word_list num_words =
     join '' '' (map (\<lambda>k. random_choice (draw k) word_list) [0..<num_words])"

definition word_list :: "string list" where
  "word_list =
     [''the'', ''quick'', ''brown'', ''fox'', ''jumps'', ''over'', ''lazy'', ''dog'',
      ''hello'', ''world'', ''python'', ''code'', ''generate'', ''csv'', ''file'',
      ''random'', ''sentence'', ''data'', ''test'', ''example'', ''text'', ''string'',
      ''physics'', ''machine'', ''working'', ''macbook'', ''cloud'', ''system'',
      ''logic'', ''chandy'', ''lamport'', ''teams'', ''master'', ''architect'',
      ''destination'', ''song'']"

text \<open>The files in the order they are written: name and text column.\<close>

definition generate_csv_files ::
  "(nat \<Rightarrow> nat \<Rightarrow> nat \<Rightarrow> nat) \<Rightarrow> string \<Rightarrow> nat \<Rightarrow> nat \<Rightarrow> nat \<Rightarrow> (string \<times> string list) list" where
  "generate_csv_files draw folder_path n file_size_mb num_words_per_row =
     (let rows_per_file = file_size_mb * 1024 in
      map (\<lambda>i. (folder_path @ ''/file_'' @ digits (i + 1) @ ''.csv'',
                map (\<lambda>row. generate_random_sentence (draw i row) word_list num_words_per_row) [0..<rows_per_file]))
        [0..<n])"

section \<open>What is generated can be counted\<close>

definition file_texts :: "(string \<times> string list) list \<Rightarrow> string \<Rightarrow> string list" where
  "file_texts data f = (case map_of data f of None \<Rightarrow> [] | Some rows \<Rightarrow> rows)"

lemma word_list_plain:
  "\<forall>w \<in> set word_list. w \<noteq> [] \<and> list_all (\<lambda>c. \<not> is_space c) w \<and> length (dumps_str w) \<le> 13"
proof -
  have "list_all (\<lambda>w. w \<noteq> [] \<and> list_all (\<lambda>c. \<not> is_space c) w \<and> length (dumps_str w) \<le> 13) word_list"
    by code_simp
  then show ?thesis by (simp add: list_all_iff)
qed

lemma random_choice_in: "xs \<noteq> [] \<Longrightarrow> random_choice k xs \<in> set xs"
  by (simp add: random_choice_def)

lemma word_list_nonempty: "word_list \<noteq> []"
  by (simp add: word_list_def)

text \<open>A sentence splits into its words, at single spaces as at white space.\<close>

lemma split_sentence:
  assumes "0 < num_words"
  shows "split_space (generate_random_sentence draw word_list num_words) =
      map (\<lambda>k. random_choice (draw k) word_list) [0..<num_words]"
    and "split_ws (generate_random_sentence draw word_list num_words) =
      map (\<lambda>k. random_choice (draw k) word_list) [0..<num_words]"
proof -
  let ?ws = "map (\<lambda>k. random_choice (draw k) word_list) [0..<num_words]"
  have ws: "?ws \<noteq> []" "\<And>w. w \<in> set ?ws \<Longrightarrow> w \<in> set word_list"
    using assms random_choice_in [OF word_list_nonempty] by auto
  have plain: "w \<noteq> []" "\<And>c. c \<in> set w \<Longrightarrow> \<not> is_space c" if "w \<in> set ?ws" for w
    using word_list_plain ws(2) [OF that] by (auto simp: list_all_iff)
  have sp: "is_space CHR '' ''" by (simp add: is_space_def)
  show "split_space (generate_random_sentence draw word_list num_words) = ?ws"
    unfolding split_space_def generate_random_sentence_def
    by (rule split_by_join) (use ws(1) plain(2) sp in \<open>auto simp: is_space_def\<close>)
  have "split_by is_space (join '' '' ?ws) = ?ws"
    by (rule split_by_join) (use ws(1) plain(2) sp in auto)
  moreover have "filter (\<lambda>w. w \<noteq> []) ?ws = ?ws" using plain(1) by (simp add: filter_id_conv)
  ultimately show "split_ws (generate_random_sentence draw word_list num_words) = ?ws"
    by (simp add: split_ws_def generate_random_sentence_def)
qed

lemma length_digits: "n < 10 ^ Suc k \<Longrightarrow> length (digits n) \<le> Suc k"
proof (induction k arbitrary: n)
  case 0
  then show ?case by (subst digits.simps) simp
next
  case (Suc k)
  show ?case
  proof (cases "n < 10")
    case True
    then show ?thesis by (subst digits.simps) simp
  next
    case False
    have "n div 10 < 10 ^ Suc k" using Suc.prems by (simp add: less_mult_imp_div_less)
    from Suc.IH [OF this] show ?thesis using False by (subst digits.simps) simp
  qed
qed

lemma counter_bound: "(w, n) \<in> set (counter xs) \<Longrightarrow> w \<in> set xs \<and> 0 \<le> n \<and> n \<le> int (length xs)"
proof -
  assume wn: "(w, n) \<in> set (counter xs)"
  then have "map_of (counter xs) w = Some n" using distinct_counter [of xs] by simp
  moreover have "w \<in> set xs" using wn by (metis fst_conv image_eqI keys_counter)
  ultimately show ?thesis using count_le_length [of xs w] by (simp add: map_of_counter)
qed

lemma generated_rows:
  assumes "map_of (generate_csv_files draw folder n mb num_words) f = Some rows"
  shows "\<exists>i. rows = map (\<lambda>row. generate_random_sentence (draw i row) word_list num_words) [0..<mb * 1024]"
  using map_of_SomeD [OF assms] by (auto simp: generate_csv_files_def)

lemma generated_sendable:
  assumes data: "data = generate_csv_files draw folder n mb num_words" and f: "f \<in> fst ` set data"
    and pos: "0 < mb" "0 < num_words" and small: "mb * 1024 * num_words < 10 ^ 100"
    and csv: "\<And>f rows. (f, rows) \<in> set data \<Longrightarrow> read_csv f = Inr (map Some rows)"
    and src: "length (dumps_str src) \<le> 20"
  shows "sendable read_csv (file_texts data) src f"
proof -
  obtain rows where rows: "map_of data f = Some rows" using f by (metis map_of_eq_None_iff not_None_eq)
  obtain i where gen: "rows = map (\<lambda>row. generate_random_sentence (draw i row) word_list num_words) [0..<mb * 1024]"
    using generated_rows rows data by blast
  have texts: "file_texts data f = rows" by (simp add: file_texts_def rows)
  have "read_csv f = Inr (map Some rows)" by (rule csv [OF map_of_SomeD [OF rows]])
  moreover have "rows \<noteq> []" using pos by (simp add: gen)
  moreover have "list_all (\<lambda>t. split_ws t = split_space t) rows"
    using split_sentence [OF pos(2)] by (auto simp: gen list_all_iff)
  moreover have "fits (wc_message src 0 w k)" if wk: "(w, k) \<in> set (file_items rows)" for w k
  proof -
    let ?ws = "\<lambda>row. map (\<lambda>k. random_choice (draw i row k) word_list) [0..<num_words]"
    have tokens: "split_space (join '' '' rows) = concat (map ?ws [0..<mb * 1024])"
      using split_space_join [OF \<open>rows \<noteq> []\<close>] by (simp add: gen split_sentence [OF pos(2)] comp_def)
    have "w \<in> set (concat (map ?ws [0..<mb * 1024]))" "0 \<le> k" "k \<le> int (length (concat (map ?ws [0..<mb * 1024])))"
      using counter_bound [OF wk [unfolded file_items_def tokens]] by blast+
    then have w: "w \<in> set word_list" and k: "0 \<le> k" "k \<le> int (mb * 1024 * num_words)"
      using random_choice_in [OF word_list_nonempty] by (auto simp: length_concat comp_def sum_list_triv)
    have "nat k \<le> mb * 1024 * num_words" using k(2) by (simp only: nat_le_iff)
    then have "nat k < 10 ^ 100" using small by (rule le_less_trans)
    moreover have "(100 :: nat) = Suc 99" by simp
    ultimately have "nat k < 10 ^ Suc 99" by (simp only:)
    then have "length (dumps_int k) \<le> 100" using length_digits [of "nat k" 99] k by (simp add: dumps_int_def)
    moreover have "length (dumps_int 0) = 1" by code_simp
    moreover have "length (dumps_str w) \<le> 13" using word_list_plain w by blast
    ultimately show ?thesis using src by (intro fits_wc_message) simp
  qed
  ultimately show ?thesis by (auto simp: sendable_def texts list_all_iff)
qed

lemma generated_deployable:
  assumes data: "data = generate_csv_files draw folder n mb num_words" and files: "mset files = mset (map fst data)"
    and pos: "0 < mb" "0 < num_words" and small: "mb * 1024 * num_words < 10 ^ 100"
    and csv: "\<And>f rows. (f, rows) \<in> set data \<Longrightarrow> read_csv f = Inr (map Some rows)"
    and redis: "\<And>i. i < NUM_MAPPERS \<Longrightarrow> stream_reads (xread i) 0 (streams_of files ! i)"
  shows "deployable xread read_csv (file_texts data) files"
proof -
  have "length (dumps_str (mapper_name 0)) \<le> 20" "length (dumps_str (mapper_name 1)) \<le> 20" by code_simp+
  then have "length (dumps_str (mapper_name i)) \<le> 20" if "i < NUM_MAPPERS" for i
    using that by (auto simp: NUM_MAPPERS_def less_2_cases_iff)
  moreover have "f \<in> fst ` set data" if "f \<in> set files" for f
    using mset_eq_setD [OF files] that by simp
  ultimately show ?thesis
    using generated_sendable [OF data _ pos small csv] redis by (auto simp: deployable_def list_all_iff)
qed

section \<open>Properties\<close>


definition demo_data :: "(string \<times> string list) list" where
  "demo_data = generate_csv_files (\<lambda>i row k. i + row * k) ''csv_files'' 2 1 10"

definition demo_redis :: "nat \<Rightarrow> nat \<Rightarrow> (nat \<times> string) option" where
  "demo_redis i frm =
     (case filter (\<lambda>(j, f). frm < j) (streams_of (map fst demo_data) ! i) of [] \<Rightarrow> None | e # es \<Rightarrow> Some e)"

definition demo_reader :: "string \<Rightarrow> string option list res" where
  "demo_reader f = Inr (map Some (file_texts demo_data f))"


end
