(* ===== verification/JobLosses.thy ===== *)
theory JobLosses
  imports JobCounts
begin

text \<open>
  Jobs of lab 2 that lose workers. A worker that is silent for too long, or that a test mode kills, is started
  anew with nothing of what it had: the recovery of mappers and reducers is a TODO. When mappers are lost, each word is
  counted between once for every report of its mapper and once for every process the mapper has had. When a reducer is
  lost, nothing is ever sent to the new process, and the send that fails makes its mapper read a file again and again.
\<close>

section \<open>What a reducer has counted\<close>

definition counted :: "reducer_proc \<Rightarrow> string \<Rightarrow> int" where
  "counted p w = (case dict_get (rs_wc (rp_state p)) (JStr w) of None \<Rightarrow> 0 | Some n \<Rightarrow> n)"

text \<open>How often a word is in the files of mapper \<open>i\<close>.\<close>

definition occurrences :: "(string \<Rightarrow> string list) \<Rightarrow> string list \<Rightarrow> nat \<Rightarrow> string \<Rightarrow> nat" where
  "occurrences texts files i w = count_list (tokens texts (map snd (streams_of files ! i))) w"

lemma tally_all_incs:
  assumes "mset items = all_incs procs (\<lambda>i inc. mset (xs i inc))"
  shows "tally items w = all_incs procs (\<lambda>i inc. tally (xs i inc) w)"
proof -
  define t where "t = (\<lambda>M. sum_mset (image_mset snd (filter_mset (\<lambda>(k, n). k = w) M)) :: int)"
  have t: "tally ys w = t (mset ys)" for ys by (induction ys) (auto simp: t_def)
  have add: "t (\<Sum>i \<in> A. h i) = (\<Sum>i \<in> A. t (h i))" for A :: "nat set" and h
    by (induction A rule: infinite_finite_induct) (simp_all add: t_def)
  show ?thesis unfolding t assms by (simp add: all_incs_def add)
qed

lemma tally_nonneg: "(\<And>w n. (w, n) \<in> set items \<Longrightarrow> 0 \<le> n) \<Longrightarrow> 0 \<le> tally items w"
proof (induction items)
  case (Cons p items)
  obtain k n where p: "p = (k, n)" by fastforce
  have "0 \<le> n" using Cons.prems [of k n] p by simp
  moreover have "0 \<le> tally items w" using Cons.prems by (intro Cons.IH) auto
  ultimately show ?case by (simp add: p)
qed simp

lemma items_nonneg:
  assumes "(w, n) \<in> set (items_of texts es)"
  shows "0 \<le> n"
proof -
  obtain f where f: "(w, n) \<in> set (file_items (texts f))" using assms by (auto simp: items_of_def)
  then have "map_of (counter (split_space (join '' '' (texts f)))) w = Some n"
    by (simp add: file_items_def)
  then show ?thesis by (auto simp: map_of_counter split: if_splits)
qed

lemma stream_tally:
  assumes "deployable xread read_csv texts files" "i < NUM_MAPPERS"
  shows "tally (items_of texts (streams_of files ! i)) w = int (occurrences texts files i w)"
proof -
  have "\<exists>src. sendable read_csv texts src f" if "(k, f) \<in> set (streams_of files ! i)" for k f
    using stream_subset [OF assms(2) that] assms by (auto simp: deployable_def list_all_iff)
  from items_of_tokens [where es = "streams_of files ! i" and w = w, OF this] show ?thesis by (simp add: occurrences_def)
qed

lemma settled_bounds:
  assumes dep: "deployable xread read_csv texts files" and pos: "job_pos xread texts files g j" and se: "job_settled j"
    and r: "r < NUM_REDUCERS"
  shows "counted (j_reducer j r) w =
      (if route w = r then all_incs (j_mapper j) (\<lambda>i inc. tally (pg_sent g i inc) w) else 0)"
proof -
  obtain items where i: "rs_wc (rp_state (j_reducer j r)) = map (\<lambda>(w, n). (JStr w, n)) (bump_all [] items)"
    "mset items = all_incs (j_mapper j) (\<lambda>i inc. mset (for_reducer r (pg_sent g i inc)))"
    by (rule settled_counts [OF dep pos se r])
  have "map_of (map (\<lambda>(w, n). (JStr w, n)) d) (JStr w) = map_of d w" for d :: "(string \<times> int) list"
    by (induction d) auto
  then have "counted (j_reducer j r) w = tally items w"
    by (simp add: counted_def i(1) map_of_bump_all_Nil tally_absent)
  also have "\<dots> = (if route w = r then all_incs (j_mapper j) (\<lambda>i inc. tally (pg_sent g i inc) w) else 0)"
    by (simp add: tally_all_incs [OF i(2)] tally_filter all_incs_def)
  finally show ?thesis .
qed

text \<open>Every process has counted at most its stream, and one that has reported exactly that.\<close>

lemma sent_bounds:
  assumes dep: "deployable xread read_csv texts files" and pos: "job_pos xread texts files g j"
  shows "int (\<Sum>i < NUM_MAPPERS. reports j i * occurrences texts files i w) \<le> all_incs (j_mapper j) (\<lambda>i inc. tally (pg_sent g i inc) w)"
    and "all_incs (j_mapper j) (\<lambda>i inc. tally (pg_sent g i inc) w) \<le>
      int (\<Sum>i < NUM_MAPPERS. mp_inc (j_mapper j i) * occurrences texts files i w)"
proof -
  have one: "int (reports j i * occurrences texts files i w) \<le> (\<Sum>inc \<in> {1..mp_inc (j_mapper j i)}. tally (pg_sent g i inc) w) \<and>
    (\<Sum>inc \<in> {1..mp_inc (j_mapper j i)}. tally (pg_sent g i inc) w) \<le> int (mp_inc (j_mapper j i) * occurrences texts files i w)"
    if i: "i < NUM_MAPPERS" for i
  proof
    note mp = job_posD(1) [OF pos i]
    have item: "tally (pg_sent g i inc) w \<le> int (occurrences texts files i w)" "0 \<le> tally (pg_sent g i inc) w" for inc
    proof -
      obtain ys where ys: "items_of texts (streams_of files ! i) = pg_sent g i inc @ ys" using mapper_posD(6) [OF mp] by blast
      have "0 \<le> tally ys w" "0 \<le> tally (pg_sent g i inc) w"
        using items_nonneg [where es = "streams_of files ! i" and texts = texts, unfolded ys] by (intro tally_nonneg; force)+
      then show "tally (pg_sent g i inc) w \<le> int (occurrences texts files i w)" "0 \<le> tally (pg_sent g i inc) w"
        using stream_tally [OF dep i, of w] ys by simp_all
    qed
    have fin: "tally (pg_sent g i inc) w = int (occurrences texts files i w)" if "inc \<in> pg_done g i" for inc
      using mapper_posD(10) [OF mp that] stream_tally [OF dep i] by simp
    have "int (reports j i * occurrences texts files i w) = (\<Sum>inc \<in> pg_done g i. tally (pg_sent g i inc) w)"
      using job_posD(3) [OF pos i] fin by simp
    also have "\<dots> \<le> (\<Sum>inc \<in> {1..mp_inc (j_mapper j i)}. tally (pg_sent g i inc) w)"
      using mapper_posD(9) [OF mp] item(2) by (intro sum_mono2) auto
    finally show "int (reports j i * occurrences texts files i w) \<le> (\<Sum>inc \<in> {1..mp_inc (j_mapper j i)}. tally (pg_sent g i inc) w)" .
    have "(\<Sum>inc \<in> {1..mp_inc (j_mapper j i)}. tally (pg_sent g i inc) w) \<le>
        (\<Sum>inc \<in> {1..mp_inc (j_mapper j i)}. int (occurrences texts files i w))"
      using item(1) by (intro sum_mono) auto
    then show "(\<Sum>inc \<in> {1..mp_inc (j_mapper j i)}. tally (pg_sent g i inc) w) \<le> int (mp_inc (j_mapper j i) * occurrences texts files i w)"
      by simp
  qed
  show "int (\<Sum>i < NUM_MAPPERS. reports j i * occurrences texts files i w) \<le> all_incs (j_mapper j) (\<lambda>i inc. tally (pg_sent g i inc) w)"
    "all_incs (j_mapper j) (\<lambda>i inc. tally (pg_sent g i inc) w) \<le> int (\<Sum>i < NUM_MAPPERS. mp_inc (j_mapper j i) * occurrences texts files i w)"
    unfolding all_incs_def int_sum using one by (auto intro!: sum_mono simp del: of_nat_mult)
qed




section \<open>A job that loses a mapper\<close>

lemma heartbeat_received:
  assumes "co_worker c k \<noteq> None" "k \<in> set worker_names" "\<not> sy_exited c" "sy_recv_alive c"
  shows "coordinator_step c (Receive now (block (heartbeat_message k))) =
    Some (c\<lparr>sy_state := set_worker (sy_state c) k ((the (co_worker c k))\<lparr>ws_last_hb_recvd := now\<rparr>),
            sy_received := sy_received c @ [block (heartbeat_message k)]\<rparr>)"
proof -
  obtain w where w: "co_worker c k = Some w" using assms(1) by blast
  have "message_deserialize (take 1024 (block (heartbeat_message k))) = Inr (heartbeat_message k)"
    using fits_names [OF assms(2)] by (simp add: take_block blk.dec_enc)
  then have "receive_step now (block (heartbeat_message k)) (sy_state c) =
      (Inr None, set_worker (sy_state c) k (w\<lparr>ws_last_hb_recvd := now\<rparr>))"
    using w by (simp add: receive_step_def msg_factory_def heartbeat_message_def dict_index_def co_worker_def)
  then show ?thesis using assms(3,4) w by (simp add: coordinator_step_def)
qed

text \<open>All but \<open>Mapper_0\<close> send a heartbeat, at second 100.\<close>

definition quiet_mapper :: "job_label list" where
  "quiet_mapper = [Connect 1, Connect 1, Connect 0, Connect 0, MapperHeartbeat 1, ReducerHeartbeat 0, ReducerHeartbeat 1,
     Deliver 0 100, Deliver 0 100, Deliver 0 100]"

lemma quiet_mapper_run:
  assumes c: "coordinator_start = Inr c"
  obtains j where "job_run xread read_csv (job_start c) quiet_mapper = Some j"
    "co_workers (sy_state (j_co j)) = [(''Mapper_0'', started_worker 0 True 12901),
       (''Mapper_1'', (started_worker 1 True 12902)\<lparr>ws_last_hb_recvd := 100\<rparr>),
       (''Reducer_0'', (started_worker 0 False 12903)\<lparr>ws_last_hb_recvd := 100\<rparr>),
       (''Reducer_1'', (started_worker 1 False 12904)\<lparr>ws_last_hb_recvd := 100\<rparr>)]"
    "\<not> sy_exited (j_co j)" "j_mapper j = (\<lambda>i. mapper_start i 1)
       (0 := (mapper_start 0 1)\<lparr>mp_connected := 2\<rparr>, 1 := (mapper_start 1 1)\<lparr>mp_connected := 2\<rparr>)"
proof -
  have n: "reducer_name 0 = ''Reducer_0''" "reducer_name (Suc 0) = ''Reducer_1''" by (simp_all add: reducer_name_def worker_digits)
  note c' = iffD1 [OF sum.inject(2) c [unfolded coordinator_start_eq], symmetric]
  note defs = c' quiet_mapper_def connect_step_def job_start_def mapper_start_def mapper_init_def reducer_start_def
    NUM_MAPPERS_def NUM_REDUCERS_def mapper_heartbeat_def reducer_heartbeat_def mapper_name_simps n deliver_step_def
    heartbeat_received worker_names_eq co_worker_def remove_nth_def set_worker_def
  show ?thesis
    by (rule that, (simp add: defs)[1]) (simp_all add: defs fun_eq_iff)
qed

text \<open>\<open>Mapper_0\<close> reports, is killed, and is started anew by the next check of the heartbeats.\<close>

lemma demo_restarted:
  "\<exists>j g. job_reachable demo_xread demo_csv j \<and> reducers_kept j \<and> manned j \<and> mp_inc (j_mapper j 0) = 2 \<and> mp_inc (j_mapper j 1) = 1 \<and>
     job_pos demo_xread demo_texts demo_files g j \<and> 1 \<in> pg_done g 0"
proof -
  obtain c where c: "coordinator_start = Inr c" by (simp add: coordinator_start_eq)
  obtain j0 where j0: "job_run demo_xread demo_csv (job_start c) quiet_mapper = Some j0"
    "co_workers (sy_state (j_co j0)) = [(''Mapper_0'', started_worker 0 True 12901),
       (''Mapper_1'', (started_worker 1 True 12902)\<lparr>ws_last_hb_recvd := 100\<rparr>),
       (''Reducer_0'', (started_worker 0 False 12903)\<lparr>ws_last_hb_recvd := 100\<rparr>),
       (''Reducer_1'', (started_worker 1 False 12904)\<lparr>ws_last_hb_recvd := 100\<rparr>)]"
    "\<not> sy_exited (j_co j0)" "j_mapper j0 = (\<lambda>i. mapper_start i 1)
       (0 := (mapper_start 0 1)\<lparr>mp_connected := 2\<rparr>, 1 := (mapper_start 1 1)\<lparr>mp_connected := 2\<rparr>)"
    by (rule quiet_mapper_run [OF c, of demo_xread demo_csv]) blast
  have names: "mapper_name 0 = ''Mapper_0''" "mapper_name 1 = ''Mapper_1''" "mapper_name (Suc 0) = ''Mapper_1''" "reducer_name 0 = ''Reducer_0''"
    "reducer_name 1 = ''Reducer_1''" "reducer_name (Suc 0) = ''Reducer_1''"
    by (simp_all add: mapper_name_simps reducer_name_def worker_digits)
  have id: "ws_id (started_worker 0 True 12901) = ''Mapper_0''" by (simp add: ws_id_def started_worker_def worker_init_def worker_digits)
  note r0 = job_run_reachable [OF job_reachable.start [OF c] j0(1)]
  have "reducers_kept j0" using j0(2,3)
    by (simp add: reducers_kept_def unlost_def co_worker_def names started_worker_def)
  then obtain g0 where g0: "job_pos demo_xread demo_texts demo_files g0 j0"
    using job_pos_reachable [OF demo_deployable r0] by blast
  have i: "0 < NUM_MAPPERS" by (simp add: NUM_MAPPERS_def)
  obtain n j1 p g1 where j1: "job_run demo_xread demo_csv j0 (replicate n (MapperStep 0 (\<lambda>_. False))) = Some j1"
    "j_co j1 = j_co j0" "job_pos demo_xread demo_texts demo_files g1 j1" "j_mapper j1 = (j_mapper j0)(0 := p)"
    "ms_is_wc_done (mp_state p)" "ms_alive (mp_state p)"
    using mapper_runs_out [OF demo_deployable i g0] j0(4) by (auto simp: mapper_start_def mapper_init_def NUM_REDUCERS_def)
  note r1 = job_run_reachable [OF r0 j1(1)]
  have p: "linked (co_worker (j_co j1) (mapper_name 0)) (j_mapper j1 0)" by (rule job_posD(2) [OF j1(3) i])
  then have inc: "mp_inc p = 1" using j1(2,4) j0(2) by (simp add: linked_def co_worker_def names started_worker_def)
  have done1: "1 \<in> pg_done g1 0" using mapper_posD(11) [OF job_posD(1) [OF j1(3) i]] j1(4,5) inc by simp
  define c2 where "c2 = (j_co j1)\<lparr>sy_state := (sy_state (j_co j1))\<lparr>co_workers :=
     [(''Mapper_0'', (started_worker 0 True 12901)\<lparr>ws_running := False\<rparr>),
       (''Mapper_1'', (started_worker 1 True 12902)\<lparr>ws_last_hb_recvd := 100\<rparr>),
       (''Reducer_0'', (started_worker 0 False 12903)\<lparr>ws_last_hb_recvd := 100\<rparr>),
       (''Reducer_1'', (started_worker 1 False 12904)\<lparr>ws_last_hb_recvd := 100\<rparr>)]\<rparr>\<rparr>"
  have "coordinator_step (j_co j1) (Kill ''Mapper_0'') = Some c2"
    using j0(2,3) id by (simp add: coordinator_step_def j1(2) c2_def) (simp add: started_worker_def)
  then obtain j2 where j2: "coordinate_step (Kill ''Mapper_0'') j1 = Some j2" "j_co j2 = c2"
    "j_mapper j2 = (\<lambda>i. sync_mapper (co_worker (j_co j1) (mapper_name i)) (co_worker c2 (mapper_name i)) i (j_mapper j1 i))"
    by (simp add: coordinate_step_def)
  have kept2: "reducers_kept j2"
    using j0(3) by (simp add: reducers_kept_def unlost_def co_worker_def names started_worker_def j2(2) c2_def j1(2))
  note pos2 = job_pos_coordinate [OF demo_deployable job_reachable_inv [OF r1] j1(3) kept2 j2(1)]
  have r2: "job_reachable demo_xread demo_csv j2"
    using job_reachable.step [OF r1, of "Coordinate (Kill ''Mapper_0'')"] j2(1) by simp
  define c3 where "c3 = c2\<lparr>sy_state := (sy_state c2)\<lparr>co_workers :=
     [(''Mapper_0'', (started_worker 0 True 12901)\<lparr>ws_starts := 2\<rparr>),
       (''Mapper_1'', (started_worker 1 True 12902)\<lparr>ws_last_hb_recvd := 100\<rparr>),
       (''Reducer_0'', (started_worker 0 False 12903)\<lparr>ws_last_hb_recvd := 100\<rparr>),
       (''Reducer_1'', (started_worker 1 False 12904)\<lparr>ws_last_hb_recvd := 100\<rparr>)]\<rparr>\<rparr>"
  have "coordinator_step c2 (Alarm 101) = Some c3"
    using j0(3) by (simp add: coordinator_step_def c2_def c3_def monitor_health_def check_worker_def start_worker_def
        HEARTBEAT_TIMEOUT_def started_worker_def worker_init_def j1(2))
  then obtain j3 where j3: "coordinate_step (Alarm 101) j2 = Some j3" "j_co j3 = c3"
    "j_mapper j3 = (\<lambda>i. sync_mapper (co_worker c2 (mapper_name i)) (co_worker c3 (mapper_name i)) i (j_mapper j2 i))"
    by (simp add: coordinate_step_def j2(2))
  have kept3: "reducers_kept j3"
    using j0(3) by (simp add: reducers_kept_def unlost_def co_worker_def names started_worker_def j3(2) c3_def c2_def j1(2))
  note pos3 = job_pos_coordinate [OF demo_deployable job_reachable_inv [OF r2] pos2 kept3 j3(1)]
  have r3: "job_reachable demo_xread demo_csv j3"
    using job_reachable.step [OF r2, of "Coordinate (Alarm 101)"] j3(1) by simp
  have "j_mapper j3 0 = mapper_start 0 2"
    by (simp add: j3(3) co_worker_def names c2_def c3_def sync_mapper_def started_worker_def)
  moreover have "j_mapper j3 1 = j_mapper j0 1" using names
    by (simp add: j3(3) j2(3) j1(2,4) j0(2) co_worker_def c2_def c3_def sync_mapper_def started_worker_def)
  ultimately have "manned j3" "mp_inc (j_mapper j3 0) = 2" "mp_inc (j_mapper j3 1) = 1"
    using j0(4) by (auto simp: manned_def list_all_iff two_cases mapper_start_def mapper_init_def)
  moreover have "1 \<in> pg_done (restarted (j_mapper j2) (j_mapper j3) (restarted (j_mapper j1) (j_mapper j2) g1)) 0"
    using done1 by (simp add: restarted_def)
  ultimately show ?thesis using r3 kept3 pos3 by blast
qed

text \<open>Its new process reads the stream again: what was counted twice.\<close>

lemma demo_counted_twice:
  "\<exists>j. job_reachable demo_xread demo_csv j \<and> reducers_kept j \<and> job_settled j \<and>
     mp_inc (j_mapper j 0) = 2 \<and> mp_inc (j_mapper j 1) = 1 \<and> reports j 0 = 2 \<and> reports j 1 = 1"
proof -
  obtain j g where j: "job_reachable demo_xread demo_csv j" "reducers_kept j" "manned j" "mp_inc (j_mapper j 0) = 2"
    "mp_inc (j_mapper j 1) = 1" "job_pos demo_xread demo_texts demo_files g j" "1 \<in> pg_done g 0"
    using demo_restarted by blast
  obtain ls g' j' where j': "job_run demo_xread demo_csv j ls = Some j'" "job_pos demo_xread demo_texts demo_files g' j'"
    "job_drained j'" "j_co j' = j_co j" "\<forall>i. pg_done g i \<subseteq> pg_done g' i" "\<forall>i. mp_inc (j_mapper j' i) = mp_inc (j_mapper j i)"
    using worker_run_drains [OF demo_deployable, of "(g, j)"] j(3,6) by auto
  have i: "0 < NUM_MAPPERS" "1 < NUM_MAPPERS" by (simp_all add: NUM_MAPPERS_def)
  have fin: "mp_inc (j_mapper j' i) \<in> pg_done g' i" "pg_done g' i \<subseteq> {1..mp_inc (j_mapper j' i)}" if "i < NUM_MAPPERS" for i
    using mapper_posD(9,11) [OF job_posD(1) [OF j'(2) that]] j'(3) that by (auto simp: job_drained_def list_all_iff)
  have "pg_done g' 0 = {1, 2}" using fin [OF i(1)] j'(5,6) j(4,7) by fastforce
  moreover have "pg_done g' 1 = {1}" using fin [OF i(2)] j'(6) j(5) by auto
  ultimately have "reports j' 0 = 2" "reports j' 1 = 1" using job_posD(3) [OF j'(2)] i by simp_all
  moreover have "reducers_kept j'" using j(2) j'(4) by (simp add: reducers_kept_def)
  ultimately show ?thesis
    using job_run_reachable [OF j(1) j'(1)] drained_settled [OF j'(3)] j'(6) j(4,5) by auto
qed



section \<open>Jobs that lose a reducer\<close>

text \<open>A mapper process is the last one that the coordinator has started, whatever is lost.\<close>

lemma mapper_start_inc [simp]: "mp_inc (mapper_start i inc) = inc" "mp_connected (mapper_start i inc) = 0"
  by (simp_all add: mapper_start_def)

lemma sync_step:
  assumes inv: "coordinator_inv c" and st: "coordinator_step c l = Some c'"
    and p: "\<exists>w. co_worker c k = Some w \<and> ws_starts w = mp_inc p" and p': "p' = sync_mapper (co_worker c k) (co_worker c' k) i p"
  shows "(\<exists>w. co_worker c' k = Some w \<and> ws_starts w = mp_inc p') \<and>
    (mp_inc p' = mp_inc p \<and> mp_connected p' = mp_connected p \<and> ms_is_wc_done (mp_state p') = ms_is_wc_done (mp_state p) \<or>
      mp_inc p' = Suc (mp_inc p))"
proof -
  obtain w where w: "co_worker c k = Some w" "ws_starts w = mp_inc p" using p by blast
  obtain w' where w': "co_worker c' k = Some w'"
    "ws_starts w' = ws_starts w \<and> (ws_running w' \<longrightarrow> ws_running w) \<or> ws_starts w' = Suc (ws_starts w) \<and> ws_running w'"
    using worker_step [OF inv st w(1)] by blast
  then show ?thesis unfolding p' using w by (auto simp: sync_mapper_def)
qed

lemma done_kept:
  "mapper_iteration xread read_csv brk q st = Some (q', st') \<Longrightarrow> ms_is_wc_done st \<Longrightarrow> ms_is_wc_done st'"
  by (cases q; cases "hd q") (auto simp: mapper_iteration_def split: if_splits)

definition inc_known :: "job \<Rightarrow> nat \<Rightarrow> bool" where
  "inc_known j i \<longleftrightarrow> (\<exists>w. co_worker (j_co j) (mapper_name i) = Some w \<and> ws_starts w = mp_inc (j_mapper j i))"

lemma inc_step:
  assumes inv: "job_inv j" and known: "inc_known j i" and st: "job_step xread read_csv j l = Some j'"
  shows "inc_known j' i \<and> mp_inc (j_mapper j i) \<le> mp_inc (j_mapper j' i) \<and>
    (mp_inc (j_mapper j' i) = mp_inc (j_mapper j i) \<longrightarrow> mp_connected (j_mapper j i) \<le> mp_connected (j_mapper j' i) \<and>
      (ms_is_wc_done (mp_state (j_mapper j i)) \<longrightarrow> ms_is_wc_done (mp_state (j_mapper j' i))))"
proof -
  have co: "coordinator_inv (j_co j)" using inv coordinator_inv_reachable by (simp add: job_inv_def)
  have coord: ?thesis if j2: "coordinate_step cl j = Some j2" "j_mapper j' = j_mapper j2" "j_co j' = j_co j2" for cl j2
  proof -
    obtain c where c: "coordinator_step (j_co j) cl = Some c" "j_co j' = c"
      "j_mapper j' = (\<lambda>i. sync_mapper (co_worker (j_co j) (mapper_name i)) (co_worker c (mapper_name i)) i (j_mapper j i))"
      by (rule coordinate_cases [OF j2(1)]) (simp add: j2(2,3))
    show ?thesis
      using sync_step [OF co c(1) known [unfolded inc_known_def], of "j_mapper j' i" i] c(2,3) by (auto simp: inc_known_def)
  qed
  show ?thesis
  proof (cases l)
    case (Coordinate cl)
    then show ?thesis using coord [of cl j'] st by simp
  next
    case (Interrupt i' m k cl)
    with st have "interrupt_step xread read_csv i' m k cl j = Some j'" by simp
    then obtain j2 f where "coordinate_step cl j = Some j2" "j' = j2\<lparr>j_reducer := f\<rparr>" by (rule interrupt_cases)
    then show ?thesis using coord [of cl j2] by simp
  next
    case (Deliver k now)
    then obtain bs where "coordinator_step (j_co j) (Receive now bs) = Some (j_co j')" "j_mapper j' = j_mapper j"
      using st by (auto simp: deliver_step_def split: if_splits option.splits)
    then show ?thesis using known worker_receive by (fastforce simp: inc_known_def)
  next
    case (MapperStep i' brk)
    then show ?thesis using st known done_kept
      by (auto simp: inc_known_def mapper_step_def Let_def split: if_splits option.splits)
  qed (use st known in \<open>auto simp: inc_known_def connect_step_def mapper_heartbeat_def reducer_heartbeat_def
      command_step_def read_step_def reducer_step_def Let_def split: if_splits option.splits prod.splits list.splits sum.splits\<close>)
qed

lemma inc_known_reachable: "job_reachable xread read_csv j \<Longrightarrow> i < NUM_MAPPERS \<Longrightarrow> inc_known j i"
proof (induction rule: job_reachable.induct)
  case (start c)
  then show ?case
    by (auto simp: two_cases inc_known_def co_worker_def mapper_name_simps coordinator_start_eq started_worker_def job_start_def)
next
  case (step j l j')
  then show ?case using inc_step [OF job_reachable_inv] by blast
qed

text \<open>A reducer that nobody sends to: no connection, no count, and the mappers have gone past it.\<close>

fun is_count :: "reducer_cmd \<Rightarrow> bool" where
  "is_count (WC k n rid) = True"
| "is_count _ = False"

definition nothing_counted :: "reducer_proc \<Rightarrow> bool" where
  "nothing_counted p \<longleftrightarrow> rp_conns p = [] \<and> rs_wc (rp_state p) = [] \<and> list_all (\<lambda>cmd. \<not> is_count cmd) (rp_queue p)"

definition cut_off :: "nat \<Rightarrow> job \<Rightarrow> bool" where
  "cut_off r j \<longleftrightarrow> nothing_counted (j_reducer j r) \<and> (\<forall>i < NUM_MAPPERS. r < mp_connected (j_mapper j i))"

lemma datagram_no_count: "list_all (\<lambda>cmd. \<not> is_count cmd) (reducer_handle_datagram bs)"
  by (auto simp: reducer_handle_datagram_def split: sum.splits if_splits prod.splits)

lemma nothing_counted_simps [simp]:
  "nothing_counted (reducer_start r)"
  "nothing_counted p \<Longrightarrow> receive_bytes key bs p = p"
  "nothing_counted p \<Longrightarrow> nothing_counted (sync_reducer old new r p)"
  "nothing_counted p \<Longrightarrow> nothing_counted (p\<lparr>rp_queue := rp_queue p @ reducer_handle_datagram bs\<rparr>)"
  using datagram_no_count [of bs]
  by (auto simp: nothing_counted_def receive_bytes_def reducer_start_def reducer_init_def sync_reducer_def split: option.split)

lemma nothing_counted_step: "nothing_counted (j_reducer j r) \<Longrightarrow> reducer_step r j = Some j' \<Longrightarrow> nothing_counted (j_reducer j' r)"
proof -
  assume n: "nothing_counted (j_reducer j r)" and st: "reducer_step r j = Some j'"
  then obtain cmd q where q: "rp_queue (j_reducer j r) = cmd # q" by (auto simp: reducer_step_def Let_def split: if_splits list.splits)
  then have "\<not> is_count cmd" using n by (simp add: nothing_counted_def)
  then show ?thesis using n st q
    by (cases cmd) (auto simp: nothing_counted_def reducer_step_def Let_def split: if_splits)
qed

lemma cut_off_step:
  assumes off: "cut_off r j" and st: "job_step xread read_csv j l = Some j'" and inv: "job_inv j"
    and known: "\<And>i. i < NUM_MAPPERS \<Longrightarrow> inc_known j i"
    and same: "\<And>i. i < NUM_MAPPERS \<Longrightarrow> mp_inc (j_mapper j' i) = mp_inc (j_mapper j i)"
  shows "cut_off r j'"
proof -
  have con: "\<forall>i < NUM_MAPPERS. r < mp_connected (j_mapper j' i)"
  proof (intro allI impI)
    fix i assume i: "i < NUM_MAPPERS"
    then show "r < mp_connected (j_mapper j' i)"
      using inc_step [OF inv known [OF i] st] same [OF i] off by (auto simp: cut_off_def)
  qed
  have n: "nothing_counted (j_reducer j r)" using off by (simp add: cut_off_def)
  have coord: "nothing_counted (j_reducer j2 r)" if "coordinate_step cl j = Some j2" for cl j2
    by (rule coordinate_cases [OF that]) (use n in simp)
  have "nothing_counted (j_reducer j' r)"
  proof (cases l)
    case (Connect i)
    then have i: "i < NUM_MAPPERS" "\<And>r'. r' \<noteq> mp_connected (j_mapper j i) \<Longrightarrow> j_reducer j' r' = j_reducer j r'"
      using st by (auto simp: connect_step_def Let_def split: if_splits)
    moreover have "r \<noteq> mp_connected (j_mapper j i)" using off i(1) by (auto simp: cut_off_def)
    ultimately show ?thesis using n by simp
  next
    case (MapperStep i brk)
    then show ?thesis using st n by (auto simp: mapper_step_def Let_def split: if_splits option.splits)
  next
    case (Coordinate cl)
    then show ?thesis using coord st by simp
  next
    case (Interrupt i m k cl)
    with st have "interrupt_step xread read_csv i m k cl j = Some j'" by simp
    then obtain j2 sent where "coordinate_step cl j = Some j2"
      "j' = j2\<lparr>j_reducer := (\<lambda>r. if r < length sent then receive_bytes (i, mp_inc (j_mapper j i)) (sent ! r) (j_reducer j2 r)
         else j_reducer j2 r)\<rparr>" by (rule interrupt_cases)
    then show ?thesis using coord [of cl j2] by simp
  next
    case (Command k)
    then show ?thesis using st n by (auto simp: command_step_def Let_def split: if_splits prod.splits)
  next
    case (ReadBlock r' key)
    then show ?thesis using st n
      by (cases "r' = r") (auto simp: read_step_def Let_def nothing_counted_def split: if_splits option.splits sum.splits)
  next
    case (ReducerStep r')
    then show ?thesis
    proof (cases "r' = r")
      case True
      then show ?thesis using nothing_counted_step [OF n] ReducerStep st by simp
    next
      case False
      then show ?thesis using ReducerStep st n by (auto simp: reducer_step_def Let_def split: if_splits list.splits sum.splits)
    qed
  qed (use st n in \<open>auto simp: mapper_heartbeat_def reducer_heartbeat_def deliver_step_def split: if_splits option.splits\<close>)
  with con show ?thesis by (simp add: cut_off_def)
qed

lemma run_inc_mono:
  assumes "job_reachable xread read_csv j" "job_run xread read_csv j ls = Some j'" "i < NUM_MAPPERS"
  shows "mp_inc (j_mapper j i) \<le> mp_inc (j_mapper j' i)"
  using assms(1,2)
proof (induction ls arbitrary: j)
  case (Cons l ls)
  then obtain j1 where j1: "job_step xread read_csv j l = Some j1" "job_run xread read_csv j1 ls = Some j'"
    by (auto split: option.splits)
  have "mp_inc (j_mapper j i) \<le> mp_inc (j_mapper j1 i)"
    using inc_step [OF job_reachable_inv [OF Cons.prems(1)] inc_known_reachable [OF Cons.prems(1) assms(3)] j1(1)] by simp
  then show ?case using Cons.IH [OF job_reachable.step [OF Cons.prems(1) j1(1)] j1(2)] by simp
qed simp

text \<open>What every step keeps that starts no mapper of \<open>I\<close> anew is kept by runs that start none anew.\<close>

lemma same_inc_run:
  assumes step: "\<And>j l j'. job_reachable xread read_csv j \<Longrightarrow> P j \<Longrightarrow> job_step xread read_csv j l = Some j' \<Longrightarrow>
      (\<And>i. i \<in> I \<Longrightarrow> mp_inc (j_mapper j' i) = mp_inc (j_mapper j i)) \<Longrightarrow> P j'"
    and I: "\<And>i. i \<in> I \<Longrightarrow> i < NUM_MAPPERS"
  shows "job_reachable xread read_csv j \<Longrightarrow> P j \<Longrightarrow> job_run xread read_csv j ls = Some j' \<Longrightarrow>
    (\<And>i. i \<in> I \<Longrightarrow> mp_inc (j_mapper j' i) = mp_inc (j_mapper j i)) \<Longrightarrow> P j'"
proof (induction ls arbitrary: j)
  case (Cons l ls)
  then obtain j1 where j1: "job_step xread read_csv j l = Some j1" "job_run xread read_csv j1 ls = Some j'"
    by (auto split: option.splits)
  note r1 = job_reachable.step [OF Cons.prems(1) j1(1)]
  have eq: "mp_inc (j_mapper j1 i) = mp_inc (j_mapper j i)" if "i \<in> I" for i
    using inc_step [OF job_reachable_inv [OF Cons.prems(1)] inc_known_reachable [OF Cons.prems(1) I [OF that]] j1(1)]
      run_inc_mono [OF r1 j1(2) I [OF that]] Cons.prems(4) [OF that] by linarith
  show ?case using step [OF Cons.prems(1,2) j1(1) eq] Cons.prems(4) eq by (intro Cons.IH [OF r1 _ j1(2)]) simp_all
qed simp

lemma cut_off_run:
  assumes "job_reachable xread read_csv j" "cut_off r j" "job_run xread read_csv j ls = Some j'"
    "\<And>i. i < NUM_MAPPERS \<Longrightarrow> mp_inc (j_mapper j' i) = mp_inc (j_mapper j i)"
  shows "cut_off r j'"
proof (rule same_inc_run [where P = "cut_off r" and I = "{..<NUM_MAPPERS}", OF _ _ assms(1-3)])
  fix j l j' assume j: "job_reachable xread read_csv j" "cut_off r j" "job_step xread read_csv j l = Some j'"
    "\<And>i. i \<in> {..<NUM_MAPPERS} \<Longrightarrow> mp_inc (j_mapper j' i) = mp_inc (j_mapper j i)"
  show "cut_off r j'"
    by (rule cut_off_step [OF j(2,3) job_reachable_inv [OF j(1)] inc_known_reachable [OF j(1)]]) (use j(4) in simp_all)
qed (use assms(4) in simp_all)

lemma empty_checkpoint: "rs_wc st = [] \<Longrightarrow> checkpoint_text st = ''{}''"
proof -
  have "dumps (JObj []) = ''{}''" by code_simp
  then show "rs_wc st = [] \<Longrightarrow> checkpoint_text st = ''{}''" by (simp add: checkpoint_text_def)
qed

text \<open>
  C27. A reducer that is started anew after the mappers have connected stays empty as long as no mapper is started anew: the
  mappers hold the connections of the killed process and never connect again, so whatever the
  job does, its counts are lost and its checkpoint is that of no word.
\<close>

theorem lost_reducer_stays_empty:
  assumes "job_reachable xread read_csv j" and "j_reducer j r = reducer_start r"
    and "\<And>i. i < NUM_MAPPERS \<Longrightarrow> r < mp_connected (j_mapper j i)"
    and "job_run xread read_csv j ls = Some j'"
    and "\<And>i. i < NUM_MAPPERS \<Longrightarrow> mp_inc (j_mapper j' i) = mp_inc (j_mapper j i)"
  shows "checkpoint_text (rp_state (j_reducer j' r)) = ''{}''"
proof -
  have "cut_off r j" using assms(2,3) by (simp add: cut_off_def)
  from cut_off_run [OF assms(1) this assms(4,5)] have "rs_wc (rp_state (j_reducer j' r)) = []" by (simp add: cut_off_def nothing_counted_def)
  then show ?thesis by (rule empty_checkpoint)
qed

text \<open>\<open>Reducer_0\<close> is silent, and is started anew after both mappers had connected.\<close>

definition quiet_reducer :: "job_label list" where
  "quiet_reducer = [Connect 1, Connect 1, Connect 0, Connect 0, MapperHeartbeat 1, MapperHeartbeat 0, ReducerHeartbeat 1,
     Deliver 0 100, Deliver 0 100, Deliver 0 100, Coordinate (Alarm 101)]"

lemma quiet_reducer_run:
  assumes c: "coordinator_start = Inr c"
  obtains j where "job_run xread read_csv (job_start c) quiet_reducer = Some j"
    "j_reducer j 0 = reducer_start 0" "rp_conns (j_reducer j 1) = [((1, 1), []), ((0, 1), [])]" "rp_alive (j_reducer j 1)"
    "\<forall>i < NUM_MAPPERS. j_mapper j i = (mapper_start i 1)\<lparr>mp_connected := 2\<rparr>"
proof -
  have n: "reducer_name 0 = ''Reducer_0''" "reducer_name (Suc 0) = ''Reducer_1''" by (simp_all add: reducer_name_def worker_digits)
  note c' = iffD1 [OF sum.inject(2) c [unfolded coordinator_start_eq], symmetric]
  note defs = c' quiet_reducer_def connect_step_def job_start_def mapper_start_def mapper_init_def reducer_start_def
    NUM_MAPPERS_def NUM_REDUCERS_def mapper_heartbeat_def reducer_heartbeat_def mapper_name_simps n deliver_step_def
    heartbeat_received worker_names_eq co_worker_def remove_nth_def set_worker_def coordinate_step_def coordinator_step_def [of _ "Alarm _"]
    monitor_health_def check_worker_def start_worker_def HEARTBEAT_TIMEOUT_def started_worker_def worker_init_def
  show ?thesis
    by (rule that, (simp add: defs)[1])
      (simp_all add: defs sync_mapper_def sync_reducer_def reducer_init_def less_2_cases_iff)
qed

theorem lost_reducer_stays_empty_witness:
  "\<exists>j j'. job_reachable demo_xread demo_csv j \<and> job_run demo_xread demo_csv j [MapperStep 0 (\<lambda>_. False)] = Some j' \<and>
     checkpoint_text (rp_state (j_reducer j' 0)) = ''{}''"
proof -
  obtain c where c: "coordinator_start = Inr c" by (simp add: coordinator_start_eq)
  obtain j where j: "job_run demo_xread demo_csv (job_start c) quiet_reducer = Some j" "j_reducer j 0 = reducer_start 0"
    "\<forall>i < NUM_MAPPERS. j_mapper j i = (mapper_start i 1)\<lparr>mp_connected := 2\<rparr>"
    by (rule quiet_reducer_run [OF c, of demo_xread demo_csv]) blast
  note r = job_run_reachable [OF job_reachable.start [OF c] j(1)]
  have m: "j_mapper j i = (mapper_start i 1)\<lparr>mp_connected := 2\<rparr>" if "i < NUM_MAPPERS" for i using j(3) that by blast
  define j' where "j' = the (job_run demo_xread demo_csv j [MapperStep 0 (\<lambda>_. False)])"
  have j': "job_run demo_xread demo_csv j [MapperStep 0 (\<lambda>_. False)] = Some j'"
    "\<And>i. mp_inc (j_mapper j' i) = mp_inc (j_mapper j i)"
    unfolding j'_def using m [of 0]
    by (simp_all add: mapper_step_def mapper_iteration_def mapper_start_def mapper_init_def NUM_MAPPERS_def NUM_REDUCERS_def Let_def)
  have con: "0 < mp_connected (j_mapper j i)" if "i < NUM_MAPPERS" for i using m [OF that] by simp
  from lost_reducer_stays_empty [OF r j(2) con j'] r j'(1) show ?thesis by blast
qed

text \<open>An iteration whose send fails at the first count for a lost reducer.\<close>

lemma word_count_broken:
  assumes "xread (ms_last_stream_id st) = Some (message_id, f)" "sendable read_csv texts (ms_id st) f"
    "length (ms_sent st) = 2" "ms_last_recovery_id st = 0"
    and "file_items (texts f) = pre @ (w, n) # post" "broken (route w)"
    and "\<And>w' n'. (w', n') \<in> set pre \<Longrightarrow> \<not> broken (route w')"
  shows "word_count xread read_csv broken st =
    st\<lparr>ms_sent := map (\<lambda>r. ms_sent st ! r @ blocks (ms_id st) 0 r pre) [0, 1]\<rparr>"
proof -
  have ok: "w' \<noteq> [] \<and> fits (wc_message (ms_id st) 0 w' n')" if "(w', n') \<in> set pre \<union> {(w, n)}" for w' n'
    using sendable_item [OF assms(2)] that by (auto simp: assms(5))
  have "send_counts broken (ms_id st) 0 (pre @ (w, n) # post) (ms_sent st) =
    (Inl (GenericException ''send''), map (\<lambda>r. ms_sent st ! r @ blocks (ms_id st) 0 r pre) [0, 1])"
    by (rule send_counts_broken) (use ok assms(3,6,7) in blast)+
  then show ?thesis using assms(1,2,4) by (simp add: word_count_def sendable_def all_text_strings assms(5) [unfolded file_items_def])
qed

text \<open>
  C28. After a reducer is lost, the first count for it that a mapper sends raises, and the mapper starts the file
  again: for every \<open>k\<close> the mapper's loop can go around \<open>k\<close> times without ever reporting DONE, and each time the counts of
  the words before the failing one are sent to the other reducer once more.
\<close>

theorem lost_reducer_recounts:
  assumes "i < NUM_MAPPERS" and "ms_alive (mp_state (j_mapper j i))" and "mp_connected (j_mapper j i) = NUM_REDUCERS"
    and "mp_queue (j_mapper j i) = []" and "\<not> ms_is_wc_done (mp_state (j_mapper j i))"
    and "length (ms_sent (mp_state (j_mapper j i))) = 2" and "ms_last_recovery_id (mp_state (j_mapper j i)) = 0"
    and "ms_id (mp_state (j_mapper j i)) = mapper_name i"
    and "xread i (ms_last_stream_id (mp_state (j_mapper j i))) = Some (message_id, f)"
    and "sendable read_csv texts (mapper_name i) f"
    and "file_items (texts f) = pre @ (w, n) # post" and "\<And>w' n'. (w', n') \<in> set pre \<Longrightarrow> route w' \<noteq> route w"
    and "dict_get (rp_conns (j_reducer j (route w))) (i, mp_inc (j_mapper j i)) = None"
    and "r < NUM_REDUCERS" and "dict_get (rp_conns (j_reducer j r)) (i, mp_inc (j_mapper j i)) = Some b"
  shows "\<exists>j'. job_run xread read_csv j (replicate k (MapperStep i (\<lambda>_. True))) = Some j' \<and>
    \<not> ms_is_wc_done (mp_state (j_mapper j' i)) \<and> j_net j' = j_net j \<and>
    dict_get (rp_conns (j_reducer j' r)) (i, mp_inc (j_mapper j i)) = Some (b @ concat (replicate k (blocks (mapper_name i) 0 r pre)))"
  using assms(2-9,13,15)
proof (induction k arbitrary: j b)
  case (Suc k)
  let ?p = "j_mapper j i" and ?key = "(i, mp_inc (j_mapper j i))"
  let ?st = "mp_state ?p" and ?bs = "\<lambda>r. blocks (mapper_name i) 0 r pre"
  let ?brk = "\<lambda>r. r < NUM_REDUCERS \<and> dict_get (rp_conns (j_reducer j r)) ?key = None"
  have "r \<noteq> route w" using Suc.prems(9,10) by auto
  then have "route w' = r" if "(w', n') \<in> set pre" for w' n'
    using assms(12) [OF that] assms(14) route_bound [of w] route_bound [of w'] by (auto simp: NUM_REDUCERS_def)
  then have ok: "\<not> ?brk (route w')" if "(w', n') \<in> set pre" for w' n' using that Suc.prems(10) by auto
  have "?brk (route w)" using Suc.prems(9) route_bound [of w] by (simp add: NUM_REDUCERS_def)
  let ?st' = "?st\<lparr>ms_sent := map (\<lambda>r. ms_sent ?st ! r @ ?bs r) [0, 1]\<rparr>"
  have "sendable read_csv texts (ms_id ?st) f" using assms(10) Suc.prems(7) by simp
  from word_count_broken [of "xread i" ?st message_id f read_csv texts pre w n post ?brk,
      OF Suc.prems(8) this Suc.prems(5,6) assms(11) \<open>?brk (route w)\<close> ok]
  have wc: "word_count (xread i) read_csv ?brk ?st = ?st'" using Suc.prems(7) by simp
  have it: "mapper_iteration (xread i) read_csv ?brk (mp_queue ?p) ?st = Some ([], ?st')"
    using wc Suc.prems(1,3,4) by (simp add: mapper_iteration_def)
  define j1 where "j1 = j\<lparr>j_mapper := (j_mapper j)(i := ?p\<lparr>mp_state := ?st', mp_queue := []\<rparr>),
      j_reducer := (\<lambda>r. receive_bytes ?key (written ?st ?st' r) (j_reducer j r)), j_net := j_net j, j_log := j_log j\<rparr>"
  have j1: "mapper_step xread read_csv i (\<lambda>_. True) j = Some j1"
    using assms(1) Suc.prems(1,2) it by (simp add: mapper_step_def j1_def Let_def)
  have "written ?st ?st' r = ?bs r" using assms(14) by (auto simp: written_def two_cases)
  then have b1: "dict_get (rp_conns (j_reducer j1 r)) (i, mp_inc (j_mapper j1 i)) = Some (b @ ?bs r)"
    using Suc.prems(10) by (simp add: j1_def receive_bytes_def dict_simps)
  have gone: "dict_get (rp_conns (j_reducer j1 (route w))) (i, mp_inc (j_mapper j1 i)) = None"
    using Suc.prems(9) by (simp add: j1_def receive_bytes_def)
  have "\<exists>j'. job_run xread read_csv j1 (replicate k (MapperStep i (\<lambda>_. True))) = Some j' \<and>
    \<not> ms_is_wc_done (mp_state (j_mapper j' i)) \<and> j_net j' = j_net j1 \<and>
    dict_get (rp_conns (j_reducer j' r)) (i, mp_inc (j_mapper j1 i)) = Some ((b @ ?bs r) @ concat (replicate k (?bs r)))"
    by (rule Suc.IH [OF _ _ _ _ _ _ _ _ gone b1]) (use Suc.prems in \<open>simp_all add: j1_def\<close>)
  then show ?case using j1 by (simp add: j1_def)
qed simp

theorem lost_reducer_recounts_witness:
  "\<exists>j j'. job_reachable demo_xread demo_csv j \<and> job_run demo_xread demo_csv j (replicate 3 (MapperStep 1 (\<lambda>_. True))) = Some j' \<and>
     dict_get (rp_conns (j_reducer j' 1)) (1, 1) = Some (concat (replicate 3 (blocks (mapper_name 1) 0 1 [(''my'', 1)])))"
proof -
  obtain c where c: "coordinator_start = Inr c" by (simp add: coordinator_start_eq)
  obtain j where j: "job_run demo_xread demo_csv (job_start c) quiet_reducer = Some j" "j_reducer j 0 = reducer_start 0"
    "rp_conns (j_reducer j 1) = [((1, 1), []), ((0, 1), [])]" "\<forall>i < NUM_MAPPERS. j_mapper j i = (mapper_start i 1)\<lparr>mp_connected := 2\<rparr>"
    by (rule quiet_reducer_run [OF c, of demo_xread demo_csv]) blast
  have i: "(1 :: nat) < NUM_MAPPERS" and r: "(1 :: nat) < NUM_REDUCERS" by (simp_all add: NUM_MAPPERS_def NUM_REDUCERS_def)
  have m: "j_mapper j 1 = (mapper_start 1 1)\<lparr>mp_connected := 2\<rparr>" using j(4) i by blast
  have x: "demo_xread 1 0 = Some (1, ''a.csv'')" and items: "file_items (demo_texts ''a.csv'') = [(''my'', 1)] @ (''cat'', 2) # []"
    and rt: "route ''my'' = 1" "route ''cat'' = 0"
    by code_simp+
  have x': "demo_xread (Suc 0) 0 = Some (1, ''a.csv'')" using x by simp
  have m': "j_mapper j (Suc 0) = (mapper_start (Suc 0) 1)\<lparr>mp_connected := 2\<rparr>" using m by simp
  have s: "sendable demo_csv demo_texts (mapper_name 1) ''a.csv''"
    using demo_deployable i by (auto simp: deployable_def demo_files_def)
  note fields = m m' x' mapper_start_def mapper_init_def mapper_name_def NUM_REDUCERS_def
  have "\<exists>j'. job_run demo_xread demo_csv j (replicate 3 (MapperStep 1 (\<lambda>_. True))) = Some j' \<and>
    \<not> ms_is_wc_done (mp_state (j_mapper j' 1)) \<and> j_net j' = j_net j \<and>
    dict_get (rp_conns (j_reducer j' 1)) (1, mp_inc (j_mapper j 1)) =
      Some ([] @ concat (replicate 3 (blocks (mapper_name 1) 0 1 [(''my'', 1)])))"
    by (rule lost_reducer_recounts [OF i _ _ _ _ _ _ _ _ s items _ _ r])
      (simp_all add: x rt j(2,3) j(3) [unfolded One_nat_def] reducer_start_def fields)
  then show ?thesis using job_run_reachable [OF job_reachable.start [OF c] j(1)] by (auto simp: fields)
qed

end
