(* ===== verification/JobEnds.thy ===== *)
theory JobEnds
  imports JobLosses
begin

text \<open>
  How a lab 2 job ends. The coordinator waits for one report of each mapper, which is one datagram, and for nothing else:
  when a report is lost it waits for ever, and when both are there it ends the reducers whatever they have still to count.
\<close>

section \<open>A report that gets lost\<close>

lemma exited_reported:
  assumes inv: "coordinator_inv c" and ex: "sy_exited c" and i: "i < NUM_MAPPERS"
  shows "reported_done (sy_received c) (mapper_name i)"
proof -
  have st: "statics (co_workers (sy_state c)) = worker_table" and al: "all_mappers_done (sy_state c)"
    using inv ex by (auto simp: coordinator_inv_def)
  have "\<exists>port. (mapper_name i, True, port) \<in> set worker_table"
    using i by (auto simp: worker_table_def two_cases mapper_name_simps)
  then obtain w where "(mapper_name i, w) \<in> set (co_workers (sy_state c))" "ws_is_mapper w"
    unfolding st [symmetric] by (auto simp: statics_def)
  then show ?thesis using inv al by (auto simp: coordinator_inv_def all_mappers_done_def list_all_iff)
qed

lemma quiet_when_done:
  "mapper_iteration xread read_csv brk q st = Some (q', st') \<Longrightarrow> ms_is_wc_done st \<Longrightarrow>
    ms_to_coordinator st' = ms_to_coordinator st"
  by (cases q; cases "hd q") (auto simp: mapper_iteration_def split: if_splits)

text \<open>No report of mapper \<open>i\<close> is left, and it will not send one.\<close>

definition unreported :: "nat \<Rightarrow> job \<Rightarrow> bool" where
  "unreported i j \<longleftrightarrow> ms_is_wc_done (mp_state (j_mapper j i)) \<and>
     block (done_message (mapper_name i)) \<notin> set (j_net j) \<union> set (sy_received (j_co j))"

lemma done_block_eq:
  assumes "i < NUM_MAPPERS"
  shows "i' < NUM_MAPPERS \<Longrightarrow> block (done_message (mapper_name i)) = block (done_message (mapper_name i')) \<longleftrightarrow> i = i'"
    and "k \<in> set worker_names \<Longrightarrow> block (done_message (mapper_name i)) \<noteq> block (heartbeat_message k)"
proof -
  have dec: "message_deserialize (block m) = Inr m" if "fits m" for m using that by (simp add: blk.dec_enc)
  note f = fits_names [OF mapper_name_member [OF assms]]
  show "block (done_message (mapper_name i)) = block (done_message (mapper_name i')) \<longleftrightarrow> i = i'" if i': "i' < NUM_MAPPERS"
  proof
    assume "block (done_message (mapper_name i)) = block (done_message (mapper_name i'))"
    then have "done_message (mapper_name i) = done_message (mapper_name i')"
      using dec f fits_names [OF mapper_name_member [OF i']] by (metis sum.inject(2))
    then show "i = i'" using assms i' by (auto simp: done_message_def two_cases mapper_name_simps)
  qed simp
  show "block (done_message (mapper_name i)) \<noteq> block (heartbeat_message k)" if k: "k \<in> set worker_names"
  proof
    assume "block (done_message (mapper_name i)) = block (heartbeat_message k)"
    then have "done_message (mapper_name i) = heartbeat_message k" using dec f fits_names [OF k] by (metis sum.inject(2))
    then show False by (simp add: done_message_def heartbeat_message_def)
  qed
qed

lemma unreported_step:
  assumes r: "job_reachable xread read_csv j" and i: "i < NUM_MAPPERS" and un: "unreported i j"
    and st: "job_step xread read_csv j l = Some j'" and same: "mp_inc (j_mapper j' i) = mp_inc (j_mapper j i)"
  shows "unreported i j'"
proof -
  let ?d = "block (done_message (mapper_name i))"
  have inv: "job_inv j" by (rule job_reachable_inv [OF r])
  have fin: "ms_is_wc_done (mp_state (j_mapper j' i))"
    using inc_step [OF inv inc_known_reachable [OF r i] st] same un by (simp add: unreported_def)
  have old: "?d \<notin> set (j_net j)" "?d \<notin> set (sy_received (j_co j))" using un by (auto simp: unreported_def)
  have coord: "?d \<notin> set (j_net j2) \<union> set (sy_received (j_co j2))" if c: "coordinate_step cl j = Some j2" for cl j2
  proof -
    obtain c' where "coordinator_step (j_co j) cl = Some c'" "j_co j2 = c'" "j_net j2 = j_net j" "\<And>now bs. cl \<noteq> Receive now bs"
      by (rule coordinate_cases [OF c]) (use c in \<open>auto simp: coordinate_step_def\<close>)
    then show ?thesis using coordinator_step_receives(1) [of "j_co j" cl c'] old by (auto split: coordinator_label.splits)
  qed
  have "?d \<notin> set (j_net j') \<union> set (sy_received (j_co j'))"
  proof (cases l)
    case (MapperStep i' brk)
    then obtain b q st' where i': "i' < NUM_MAPPERS" and it: "mapper_iteration (xread i') read_csv b (mp_queue (j_mapper j i')) (mp_state (j_mapper j i')) = Some (q, st')"
      and net: "j_net j' = j_net j @ map block (drop (length (ms_to_coordinator (mp_state (j_mapper j i')))) (ms_to_coordinator st'))"
      and co: "j_co j' = j_co j"
      using st by (auto simp: mapper_step_def Let_def split: if_splits option.splits)
    have id: "ms_id (mp_state (j_mapper j i')) = mapper_name i'" using inv by (simp add: job_inv_def)
    obtain ms where ms: "ms_to_coordinator st' = ms_to_coordinator (mp_state (j_mapper j i')) @ ms" "ms = [] \<or> ms = [done_message (mapper_name i')]"
      using mapper_iteration_messages [OF it] id by auto
    have "ms = []" if "i' = i"
      using quiet_when_done [OF it] un ms(1) that by (simp add: unreported_def)
    then show ?thesis using old net co ms done_block_eq(1) [OF i i'] by auto
  next
    case (Deliver k now)
    then obtain c' where "k < length (j_net j)" "coordinator_step (j_co j) (Receive now (j_net j ! k)) = Some c'"
      "j' = j\<lparr>j_co := c', j_net := remove_nth k (j_net j)\<rparr>"
      using st by (auto simp: deliver_step_def split: if_splits option.splits)
    then show ?thesis using coordinator_step_receives(1) [of "j_co j" "Receive now (j_net j ! k)" c'] old set_remove_nth [of k "j_net j"]
      by fastforce
  next
    case (Coordinate cl)
    then show ?thesis using coord st by simp
  next
    case (Interrupt i' m k cl)
    with st have "interrupt_step xread read_csv i' m k cl j = Some j'" by simp
    then obtain j2 f where "coordinate_step cl j = Some j2" "j' = j2\<lparr>j_reducer := f\<rparr>" by (rule interrupt_cases)
    then show ?thesis using coord [of cl j2] by simp
  next
    case (DropDatagram k)
    then show ?thesis using st old set_remove_nth [of k "j_net j"] by (auto split: if_splits)
  next
    case (MapperHeartbeat i')
    then show ?thesis using st old done_block_eq(2) [OF i mapper_name_member]
      by (auto simp: mapper_heartbeat_def split: if_splits)
  next
    case (ReducerHeartbeat r')
    then show ?thesis using st old done_block_eq(2) [OF i, of "reducer_name r'"]
      by (auto simp: reducer_heartbeat_def two_cases worker_names_def split: if_splits)
  qed (use st old in \<open>auto simp: connect_step_def command_step_def read_step_def reducer_step_def Let_def
      split: if_splits option.splits prod.splits list.splits sum.splits\<close>)
  with fin show ?thesis by (simp add: unreported_def)
qed

text \<open>
  C38. A report that gets lost is not repeated. When a mapper has read its stream and its one \<open>DONE\<close> datagram is neither on
  its way nor received, the coordinator never ends the job, whatever the threads do, unless that mapper is
  started anew.
\<close>

theorem lost_report_stops_job:
  assumes "job_reachable xread read_csv j" and "i < NUM_MAPPERS" and "ms_is_wc_done (mp_state (j_mapper j i))"
    and "block (done_message (mapper_name i)) \<notin> set (j_net j)"
    and "block (done_message (mapper_name i)) \<notin> set (sy_received (j_co j))"
    and "job_run xread read_csv j ls = Some j'" and "mp_inc (j_mapper j' i) = mp_inc (j_mapper j i)"
  shows "\<not> sy_exited (j_co j')"
proof
  assume ex: "sy_exited (j_co j')"
  have "unreported i j'"
  proof (rule same_inc_run [where P = "unreported i" and I = "{i}", OF _ _ assms(1) _ assms(6)])
    show "unreported i j" using assms(3-5) by (simp add: unreported_def)
  qed (use unreported_step assms(2,7) in simp_all)
  moreover have inv: "job_inv j'" by (rule job_reachable_inv [OF job_run_reachable [OF assms(1,6)]])
  then have "coordinator_inv (j_co j')" using coordinator_inv_reachable by (simp add: job_inv_def)
  then have "reported_done (sy_received (j_co j')) (mapper_name i)" by (rule exited_reported [OF _ ex assms(2)])
  ultimately show False using done_logged [OF inv assms(2)] by (simp add: unreported_def)
qed

theorem lost_report_stops_job_witness:
  "\<exists>j. job_reachable (\<lambda>i frm. None) demo_csv j \<and> ms_is_wc_done (mp_state (j_mapper j 0)) \<and>
     (\<forall>ls j'. job_run (\<lambda>i frm. None) demo_csv j ls = Some j' \<and> mp_inc (j_mapper j' 0) = 1 \<longrightarrow> \<not> sy_exited (j_co j'))"
proof -
  obtain c where c: "coordinator_start = Inr c" by (simp add: coordinator_start_eq)
  let ?run = "job_run (\<lambda>i frm. None) demo_csv"
  obtain j where j: "?run (job_start c) [Connect 0, Connect 0, MapperStep 0 (\<lambda>_. False), DropDatagram 0] = Some j"
    "ms_is_wc_done (mp_state (j_mapper j 0))" "j_net j = []" "j_co j = c" "mp_inc (j_mapper j 0) = 1"
    by (simp add: connect_step_def job_start_def mapper_start_def mapper_init_def reducer_start_def NUM_MAPPERS_def NUM_REDUCERS_def
        mapper_step_def mapper_iteration_def word_count_def Let_def remove_nth_def)
  have r: "job_reachable (\<lambda>i frm. None) demo_csv j" by (rule job_run_reachable [OF job_reachable.start [OF c] j(1)])
  have i: "0 < NUM_MAPPERS" by (simp add: two_cases)
  have n: "block (done_message (mapper_name 0)) \<notin> set (j_net j)" "block (done_message (mapper_name 0)) \<notin> set (sy_received (j_co j))"
    using c j(3,4) by (auto simp: coordinator_start_eq)
  have "\<not> sy_exited (j_co j')" if "?run j ls = Some j'" "mp_inc (j_mapper j' 0) = 1" for ls j'
    by (rule lost_report_stops_job [OF r i j(2) n that(1)]) (simp add: that(2) j(5))
  with r j(2) show ?thesis by blast
qed

section \<open>An exit that overtakes the counts\<close>

text \<open>A run in which nothing is lost, killed or started anew.\<close>

fun orderly :: "job_label \<Rightarrow> bool" where
  "orderly (DropDatagram k) = False"
| "orderly (DropCommand k) = False"
| "orderly (Interrupt i m k l) = False"
| "orderly (Coordinate l) = (l = Send)"
| "orderly _ = True"

text \<open>What the mappers do reaches the reducers' connections only.\<close>

lemma mapper_run_frame:
  "job_run xread read_csv j (replicate n (MapperStep i brk)) = Some j' \<Longrightarrow>
    j_co j' = j_co j \<and> j_wnet j' = j_wnet j \<and> set (j_net j) \<subseteq> set (j_net j') \<and>
    (\<forall>r. rp_state (j_reducer j' r) = rp_state (j_reducer j r) \<and> rp_queue (j_reducer j' r) = rp_queue (j_reducer j r) \<and>
       rp_alive (j_reducer j' r) = rp_alive (j_reducer j r))"
proof (induction n arbitrary: j)
  case (Suc n)
  then obtain j1 where j1: "mapper_step xread read_csv i brk j = Some j1"
    "job_run xread read_csv j1 (replicate n (MapperStep i brk)) = Some j'"
    by (auto split: option.splits)
  have "j_co j1 = j_co j \<and> j_wnet j1 = j_wnet j \<and> set (j_net j) \<subseteq> set (j_net j1) \<and>
    (\<forall>r. rp_state (j_reducer j1 r) = rp_state (j_reducer j r) \<and> rp_queue (j_reducer j1 r) = rp_queue (j_reducer j r) \<and>
       rp_alive (j_reducer j1 r) = rp_alive (j_reducer j r))"
    using j1(1) by (auto simp: mapper_step_def Let_def receive_bytes_def split: if_splits option.splits)
  then show ?case using Suc.IH [OF j1(2)] by auto
qed simp

lemma job_run_append:
  "job_run xread read_csv j ls = Some j1 \<Longrightarrow> job_run xread read_csv j (ls @ ls') = job_run xread read_csv j1 ls'"
  by (induction ls arbitrary: j) (auto split: option.splits)

lemma done_received:
  assumes "i < NUM_MAPPERS"
  shows "receive_step now (block (done_message (mapper_name i))) st =
    (case update now DoneRecv st (JStr (mapper_name i)) of
       (Inr (Some p), st') \<Rightarrow> (Inr (Some p), st'\<lparr>co_phase := p\<rparr>) | (r, st') \<Rightarrow> (r, st'))"
  using fits_names [OF mapper_name_member [OF assms]]
  by (simp add: receive_step_def take_block blk.dec_enc msg_factory_def done_message_def)

lemma coordinator_told:
  assumes "coordinator_start = Inr c"
  obtains c1 c2 c3 c4 where "coordinator_step c (Receive 0 (block (done_message (mapper_name 0)))) = Some c1"
    "coordinator_step c1 (Receive 0 (block (done_message (mapper_name 1)))) = Some c2" "coordinator_step c2 Send = Some c3"
    "coordinator_step c3 Send = Some c4" "sy_exited c4" "sy_sent c2 = []" "sy_sent c3 = []" "sy_sent c4 = map (\<lambda>port. (port, exit_msg)) [12901, 12902, 12903, 12904]"
    "\<And>k. co_worker c3 k = co_worker c2 k" "\<And>k. co_worker c4 k = co_worker c2 k"
    "\<And>k. k \<in> set worker_names \<Longrightarrow> \<exists>w. co_worker c2 k = Some w \<and> ws_running w"
proof -
  note c = iffD1 [OF sum.inject(2) assms [unfolded coordinator_start_eq], symmetric]
  have i: "0 < NUM_MAPPERS" "1 < NUM_MAPPERS" by (simp_all add: NUM_MAPPERS_def)
  let ?d = "\<lambda>ws. ws\<lparr>ws_is_done := True\<rparr>"
  define c1 where "c1 = c\<lparr>sy_state := set_worker (sy_state c) ''Mapper_0'' (?d (started_worker 0 True 12901)),
     sy_received := sy_received c @ [block (done_message ''Mapper_0'')]\<rparr>"
  define c2 where "c2 = c1\<lparr>sy_state := (set_worker (sy_state c1) ''Mapper_1'' (?d (started_worker 1 True 12902)))\<lparr>co_phase := EXITING\<rparr>,
     sy_queue := [CP, EXITING], sy_received := sy_received c1 @ [block (done_message ''Mapper_1'')]\<rparr>"
  note defs = c c1_def c2_def set_worker_def coordinator_step_def started_worker_def worker_init_def
  have "coordinator_step c (Receive 0 (block (done_message (mapper_name 0)))) = Some c1"
    using done_received [OF i(1), of 0 "sy_state c"]
    by (simp add: defs mapper_name_simps all_mappers_done_def Let_def dict_index_def)
  moreover have "coordinator_step c1 (Receive 0 (block (done_message (mapper_name 1)))) = Some c2"
    using done_received [OF i(2), of 0 "sy_state c1"]
    by (simp add: defs mapper_name_simps all_mappers_done_def Let_def dict_index_def)
  moreover have "coordinator_step c2 Send = Some (c2\<lparr>sy_queue := [EXITING]\<rparr>)"
    by (simp add: defs cp_phase_def)
  moreover have "coordinator_step (c2\<lparr>sy_queue := [EXITING]\<rparr>) Send = Some (c2\<lparr>sy_queue := [],
      sy_sent := sy_sent c2 @ map (\<lambda>port. (port, exit_msg)) [12901, 12902, 12903, 12904], sy_exited := True\<rparr>)"
    by (simp add: defs exit_phase_def)
  ultimately show ?thesis
    by (rule that) (auto simp: defs worker_names_eq co_worker_def)
qed

lemma sync_same [simp]:
  "old = Some w \<Longrightarrow> ws_running w \<Longrightarrow> sync_mapper old old i p = p"
  "old = Some w \<Longrightarrow> ws_running w \<Longrightarrow> sync_reducer old old r q = q"
  by (simp_all add: sync_mapper_def sync_reducer_def)

text \<open>A step of the send thread, and a report that is delivered, change no worker process.\<close>

lemma send_run:
  assumes "coordinator_step (j_co j) Send = Some c" "\<And>k. co_worker c k = co_worker (j_co j) k"
    "\<And>k. k \<in> set worker_names \<Longrightarrow> \<exists>w. co_worker (j_co j) k = Some w \<and> ws_running w"
  obtains j' where "job_step xread read_csv j (Coordinate Send) = Some j'" "j_co j' = c" "j_net j' = j_net j"
    "\<And>i. i < NUM_MAPPERS \<Longrightarrow> j_mapper j' i = j_mapper j i" "\<And>r. r < NUM_REDUCERS \<Longrightarrow> j_reducer j' r = j_reducer j r"
    "j_wnet j' = j_wnet j @ drop (length (sy_sent (j_co j))) (sy_sent c)"
proof -
  have m: "sync_mapper (co_worker c (mapper_name i)) (co_worker c (mapper_name i)) i p = p" if "i < NUM_MAPPERS" for i p
    using assms(3) [OF mapper_name_member [OF that]] assms(2) by auto
  have r: "sync_reducer (co_worker c (reducer_name r)) (co_worker c (reducer_name r)) r p = p" if "r < NUM_REDUCERS" for r p
    using assms(3) [of "reducer_name r"] that assms(2) by (auto simp: two_cases worker_names_def)
  obtain j' where j': "coordinate_step Send j = Some j'" using assms(1) by (simp add: coordinate_step_def)
  have "j_co j' = c" "j_net j' = j_net j" "j_wnet j' = j_wnet j @ drop (length (sy_sent (j_co j))) (sy_sent c)"
    "j_mapper j' = (\<lambda>i. sync_mapper (co_worker c (mapper_name i)) (co_worker c (mapper_name i)) i (j_mapper j i))"
    "j_reducer j' = (\<lambda>r. sync_reducer (co_worker c (reducer_name r)) (co_worker c (reducer_name r)) r (j_reducer j r))"
    by (rule coordinate_cases [OF j']; use assms(1,2) in simp)+
  then show ?thesis using that [of j'] j' m r by simp
qed

lemma deliver_run:
  assumes "bs \<in> set (j_net j)" "coordinator_step (j_co j) (Receive now bs) = Some c"
  obtains k where "k < length (j_net j)" "j_net j ! k = bs"
    "job_step xread read_csv j (Deliver k now) = Some (j\<lparr>j_co := c, j_net := remove_nth k (j_net j)\<rparr>)"
  using assms by (auto simp: in_set_conv_nth deliver_step_def)

lemma in_remove_nth: "y \<in> set xs \<Longrightarrow> k < length xs \<Longrightarrow> y \<noteq> xs ! k \<Longrightarrow> y \<in> set (remove_nth k xs)"
  using arg_cong [OF id_take_nth_drop [of k xs], of set] by (auto simp: remove_nth_def)

lemma exit_command: "reducer_handle_datagram (block exit_msg) = [RExit]"
proof -
  have "length (dumps (JObj (message_dict exit_msg))) \<le> BUFFER_SIZE - 4" by code_simp
  then have "fits exit_msg" by (simp add: fits_def wf_message_def exit_msg_def)
  then show ?thesis by (simp add: reducer_handle_datagram_def take_block blk.dec_enc) (simp add: exit_msg_def)
qed

text \<open>The commands to exit are taken and executed by both reducers at once.\<close>

lemma reducers_exit:
  assumes "j_wnet j = map (\<lambda>port. (port, exit_msg)) [12901, 12902, 12903, 12904]"
    "\<And>r. r < NUM_REDUCERS \<Longrightarrow> rp_alive (j_reducer j r) \<and> rp_queue (j_reducer j r) = []"
  obtains j' where "job_run xread read_csv j [Command 2, Command 2, ReducerStep 0, ReducerStep 1] = Some j'" "j_co j' = j_co j"
    "\<And>i. i < NUM_MAPPERS \<Longrightarrow> mp_state (j_mapper j' i) = mp_state (j_mapper j i)"
    "\<And>r. r < NUM_REDUCERS \<Longrightarrow> \<not> rp_alive (j_reducer j' r) \<and> rp_state (j_reducer j' r) = rp_state (j_reducer j r)"
proof -
  have r: "rp_alive (j_reducer j 0)" "rp_alive (j_reducer j (Suc 0))" "rp_queue (j_reducer j 0) = []" "rp_queue (j_reducer j (Suc 0)) = []"
    using assms(2) [of 0] assms(2) [of 1] by (simp_all add: NUM_REDUCERS_def)
  have p: "MAPPER_PORTS = [12901, 12902]" "REDUCER_PORTS = [12903, 12904]"
    by (simp_all add: MAPPER_PORTS_def REDUCER_PORTS_def COORDINATOR_PORT_def NUM_MAPPERS_def NUM_REDUCERS_def upt_rec numeral_2_eq_2)
  show ?thesis
    by (rule that, simp add: assms(1) command_step_def remove_nth_def p NUM_REDUCERS_def NUM_MAPPERS_def exit_command Let_def reducer_step_def r)
      (auto simp: NUM_REDUCERS_def NUM_MAPPERS_def less_2_cases_iff r p exit_command)
qed



end
