(* ===== verification/BayouClock.thy ===== *)
theory BayouClock
  imports Framing "HOL-Library.List_Lexorder" "HOL-Library.Char_ord"
begin

text \<open>
  The clocks and the storage of lab 4 (\<open>bayou/storage.py\<close>): logical times with their total
  order, vector times, and the storage with its invariant check. The two operations the lab
  leaves to the student, \<open>apply\<close> and \<open>anti_entropy\<close>, raise in the source (by calling
  \<open>NotImplemented\<close>, which is a TypeError) and do so here. The state is the application's
  string, the only \<open>State\<close> of the repository.
\<close>

section \<open>LogicalTime\<close>

datatype ltime = LogicalTime (lt_name: string) (lt_ts: int)

definition ltime_lt :: "ltime \<Rightarrow> ltime \<Rightarrow> bool" where
  "ltime_lt a b \<longleftrightarrow> (if lt_ts a < lt_ts b then True
             else if lt_ts a > lt_ts b then False
             else lt_name a < lt_name b)"

instantiation ltime :: linorder
begin

definition less_ltime :: "ltime \<Rightarrow> ltime \<Rightarrow> bool" where
  "a < b \<longleftrightarrow> ltime_lt a b"

definition less_eq_ltime :: "ltime \<Rightarrow> ltime \<Rightarrow> bool" where
  "a \<le> b \<longleftrightarrow> a < b \<or> a = (b :: ltime)"

instance
proof
  fix a b c :: ltime
  show "(a < b) = (a \<le> b \<and> \<not> b \<le> a)" by (auto simp: less_eq_ltime_def less_ltime_def ltime_lt_def split: if_splits)
  show "a \<le> a" by (simp add: less_eq_ltime_def)
  show "a \<le> b \<Longrightarrow> b \<le> c \<Longrightarrow> a \<le> c" by (auto simp: less_eq_ltime_def less_ltime_def ltime_lt_def split: if_splits)
  show "a \<le> b \<Longrightarrow> b \<le> a \<Longrightarrow> a = b" by (auto simp: less_eq_ltime_def less_ltime_def ltime_lt_def split: if_splits)
  show "a \<le> b \<or> b \<le> a" by (cases a; cases b) (auto simp: less_eq_ltime_def less_ltime_def ltime_lt_def)
qed

end

definition ltime_serialize :: "ltime \<Rightarrow> string \<times> int" where
  "ltime_serialize t = (lt_name t, lt_ts t)"

definition ltime_repr :: "ltime \<Rightarrow> string" where
  "ltime_repr t = lt_name t @ '': '' @ dumps_int (lt_ts t)"

section \<open>VectorTime\<close>

type_synonym vtime = "(string, ltime) dict"

definition vtime_init :: "ltime list \<Rightarrow> vtime" where
  "vtime_init lts = fold (\<lambda>t d. dict_set d (lt_name t) t) lts []"

definition vtime_new :: "string list \<Rightarrow> vtime" where
  "vtime_new servers = vtime_init (map (\<lambda>s. LogicalTime s 0) servers)"

definition vtime_getitem :: "vtime \<Rightarrow> string \<Rightarrow> ltime res" where
  "vtime_getitem v server = dict_index v server"

definition advance :: "vtime \<Rightarrow> ltime \<Rightarrow> vtime res" where
  "advance v t =
     (let s = lt_name t in
      rbind (dict_index v s) (\<lambda>cur.
      rbind (py_assert (lt_ts cur \<le> lt_ts t)
        (''Tried to take '' @ s @ '' clock backwards from '' @ ltime_repr cur @ '' to '' @ dumps_int (lt_ts t) @ ''!'')) (\<lambda>_.
        Inr (dict_set v s t))))"

definition is_ltime_earlier :: "vtime \<Rightarrow> ltime \<Rightarrow> bool res" where
  "is_ltime_earlier v t = rbind (dict_index v (lt_name t)) (\<lambda>cur. Inr (lt_ts t \<le> lt_ts cur))"

fun earlier_loop :: "vtime \<Rightarrow> ltime list \<Rightarrow> bool res" where
  "earlier_loop v [] = Inr True"
| "earlier_loop v (t # ts) =
     rbind (is_ltime_earlier v t) (\<lambda>b. if \<not> b then Inr False else earlier_loop v ts)"

definition is_vtime_earlier :: "vtime \<Rightarrow> vtime \<Rightarrow> bool res" where
  "is_vtime_earlier v vtime = earlier_loop v (map snd vtime)"

fun vtime_eq_loop :: "vtime \<Rightarrow> (string \<times> ltime) list \<Rightarrow> bool res" where
  "vtime_eq_loop other [] = Inr True"
| "vtime_eq_loop other ((key, t) # rest) =
     rbind (dict_index other key) (\<lambda>t'. if t' \<noteq> t then Inr False else vtime_eq_loop other rest)"

definition vtime_eq :: "vtime \<Rightarrow> vtime \<Rightarrow> bool res" where
  "vtime_eq v other = vtime_eq_loop other v"

definition vtime_to_dict :: "vtime \<Rightarrow> (string, int) dict" where
  "vtime_to_dict v = map (\<lambda>(k, t). (k, lt_ts t)) v"

section \<open>Storage\<close>

record app_log_entry =
  le_ltime :: ltime
  le_char :: json

definition entry_less :: "app_log_entry \<Rightarrow> app_log_entry \<Rightarrow> bool" where
  "entry_less a b = (le_ltime a < le_ltime b)"

record storage =
  st_c :: vtime
  st_f :: vtime
  st_committed_log :: "app_log_entry list"
  st_tentative_log :: "app_log_entry list"
  st_committed_st :: string
  st_tentative_st :: string

definition storage_init :: "string list \<Rightarrow> string \<Rightarrow> storage" where
  "storage_init servers init_state =
     \<lparr>st_c = vtime_new servers, st_f = vtime_new servers, st_committed_log = [], st_tentative_log = [],
      st_committed_st = init_state, st_tentative_st = init_state\<rparr>"

definition chk_invariants :: "storage \<Rightarrow> unit res" where
  "chk_invariants st =
     rbind (is_vtime_earlier (st_f st) (st_c st)) (\<lambda>b.
     rbind (py_assert b '''') (\<lambda>_.
       if length (st_tentative_log st) = 0 then
         rbind (vtime_eq (st_f st) (st_c st)) (\<lambda>b.
         rbind (py_assert b '''') (\<lambda>_.
           py_assert (st_committed_st st = st_tentative_st st) ''''))
       else Inr ()))"

definition storage_apply :: "app_log_entry list \<Rightarrow> app_log_entry list \<Rightarrow> storage \<Rightarrow> unit res \<times> storage" where
  "storage_apply commits tentatives st = (Inl TypeError, st)"

definition storage_anti_entropy ::
  "vtime \<Rightarrow> vtime \<Rightarrow> storage \<Rightarrow> (app_log_entry list \<times> app_log_entry list) res" where
  "storage_anti_entropy c f st = Inl TypeError"

text \<open>
  The two operations are what a submission replaces, so the code that calls them takes them as a
  parameter: \<open>starter_ops\<close> are those of the repository. \<open>apply\<close> can change the storage before it raises.
\<close>

record storage_ops =
  op_apply :: "app_log_entry list \<Rightarrow> app_log_entry list \<Rightarrow> storage \<Rightarrow> unit res \<times> storage"
  op_anti_entropy :: "vtime \<Rightarrow> vtime \<Rightarrow> storage \<Rightarrow> (app_log_entry list \<times> app_log_entry list) res"

definition starter_ops :: storage_ops where
  "starter_ops = \<lparr>op_apply = storage_apply, op_anti_entropy = storage_anti_entropy\<rparr>"

definition storage_commit :: "storage_ops \<Rightarrow> app_log_entry list \<Rightarrow> storage \<Rightarrow> unit res \<times> storage" where
  "storage_commit ops writes st = op_apply ops writes [] st"

definition storage_tentative :: "storage_ops \<Rightarrow> app_log_entry list \<Rightarrow> storage \<Rightarrow> unit res \<times> storage" where
  "storage_tentative ops writes st = op_apply ops [] writes st"

section \<open>Vector times as functions\<close>

text \<open>
  The abstract vector time gives each server its clock; a vector is well formed when every entry is
  filed under its own name, as the constructor and \<open>advance\<close> do.
\<close>

definition clocks :: "vtime \<Rightarrow> string \<Rightarrow> int option" where
  "clocks v s = map_option lt_ts (map_of v s)"

definition wf_vtime :: "vtime \<Rightarrow> bool" where
  "wf_vtime v \<longleftrightarrow> distinct (dict_keys v) \<and> list_all (\<lambda>(k, t). lt_name t = k) v"

lemma wf_vtime_get: "wf_vtime v \<Longrightarrow> map_of v k = Some t \<Longrightarrow> t = LogicalTime k (lt_ts t)"
  by (cases t) (auto simp: wf_vtime_def list_all_iff dest!: map_of_SomeD)

lemma wf_vtime_set:
  assumes "wf_vtime v" shows "wf_vtime (dict_set v (lt_name t) t)"
  using assms set_dict_set [of "lt_name t" t v]
  by (auto simp: wf_vtime_def list_all_iff AList.distinct_update split: prod.splits)

lemma wf_vtime_init: "wf_vtime (vtime_init lts)"
proof -
  have "wf_vtime v \<Longrightarrow> wf_vtime (fold (\<lambda>t d. dict_set d (lt_name t) t) lts v)" for v
    by (induction lts arbitrary: v) (simp_all add: wf_vtime_set)
  from this [of "[]"] show ?thesis by (simp add: vtime_init_def wf_vtime_def)
qed

lemma wf_vtime_new: "wf_vtime (vtime_new servers)"
  by (simp add: vtime_new_def wf_vtime_init)

lemma map_of_vtime_init:
  "map_of (vtime_init lts) k = map_of (rev (map (\<lambda>t. (lt_name t, t)) lts)) k"
proof -
  have "map_of (fold (\<lambda>t d. dict_set d (lt_name t) t) lts v) k =
      (case map_of (rev (map (\<lambda>t. (lt_name t, t)) lts)) k of None \<Rightarrow> map_of v k | Some t \<Rightarrow> Some t)" for v
    by (induction lts arbitrary: v) (auto simp: dict_simps map_add_def split: option.splits)
  from this [of "[]"] show ?thesis by (simp add: vtime_init_def split: option.splits)
qed

lemma clocks_set:
  "clocks (dict_set v (lt_name t) t) = (clocks v)(lt_name t \<mapsto> lt_ts t)"
  by (auto simp: clocks_def dict_simps)

lemma is_ltime_earlier_clocks:
  "is_ltime_earlier v t = (case clocks v (lt_name t) of None \<Rightarrow> Inl KeyError | Some n \<Rightarrow> Inr (lt_ts t \<le> n))"
  by (simp add: is_ltime_earlier_def dict_index_def clocks_def split: option.split)

lemma advance_clocks:
  "advance v t =
     (case map_of v (lt_name t) of
        None \<Rightarrow> Inl KeyError
      | Some cur \<Rightarrow> if lt_ts cur \<le> lt_ts t then Inr (dict_set v (lt_name t) t)
          else Inl (AssertionError (''Tried to take '' @ lt_name t @ '' clock backwards from '' @ ltime_repr cur @
            '' to '' @ dumps_int (lt_ts t) @ ''!'')))"
  by (simp add: advance_def dict_index_def Let_def split: option.split)

lemma earlier_loop_True:
  "earlier_loop v ts = Inr True \<longleftrightarrow>
     list_all (\<lambda>t. case clocks v (lt_name t) of None \<Rightarrow> False | Some n \<Rightarrow> lt_ts t \<le> n) ts"
  by (induction ts) (auto simp: is_ltime_earlier_clocks split: option.splits)

lemma earlier_loop_total:
  "\<forall>t \<in> set ts. clocks v (lt_name t) \<noteq> None \<Longrightarrow> \<exists>b. earlier_loop v ts = Inr b"
  by (induction ts) (auto simp: is_ltime_earlier_clocks)

text \<open>The pointwise order, on the servers that the smaller vector knows.\<close>

definition clock_le :: "(string \<Rightarrow> int option) \<Rightarrow> (string \<Rightarrow> int option) \<Rightarrow> bool" where
  "clock_le f g \<longleftrightarrow> (\<forall>s n. f s = Some n \<longrightarrow> (\<exists>m. g s = Some m \<and> n \<le> m))"

lemma is_vtime_earlier_iff:
  assumes "wf_vtime w"
  shows "is_vtime_earlier v w = Inr True \<longleftrightarrow> clock_le (clocks w) (clocks v)"
proof -
  have "list_all (\<lambda>t. case clocks v (lt_name t) of None \<Rightarrow> False | Some n \<Rightarrow> lt_ts t \<le> n) (map snd w) \<longleftrightarrow>
      (\<forall>k t. (k, t) \<in> set w \<longrightarrow> (\<exists>m. clocks v k = Some m \<and> lt_ts t \<le> m))"
    using assms by (fastforce simp: list_all_iff wf_vtime_def split: option.splits)
  also have "\<dots> \<longleftrightarrow> clock_le (clocks w) (clocks v)"
    using assms by (auto simp: clock_le_def clocks_def wf_vtime_def) blast
  finally show ?thesis by (simp add: is_vtime_earlier_def earlier_loop_True)
qed

lemma vtime_eq_loop_True:
  "vtime_eq_loop w l = Inr True \<longleftrightarrow> list_all (\<lambda>(k, t). map_of w k = Some t) l"
  by (induction l) (auto simp: rbind_eq_Inr dict_index_Inr split: if_splits)

lemma vtime_eq_True:
  assumes "wf_vtime v" "wf_vtime w"
  shows "vtime_eq v w = Inr True \<longleftrightarrow> (\<forall>s n. clocks v s = Some n \<longrightarrow> clocks w s = Some n)"
proof -
  have "vtime_eq v w = Inr True \<longleftrightarrow> (\<forall>k t. map_of v k = Some t \<longrightarrow> map_of w k = Some t)"
    using assms by (auto simp: vtime_eq_def vtime_eq_loop_True list_all_iff wf_vtime_def)
  also have "\<dots> \<longleftrightarrow> (\<forall>s n. clocks v s = Some n \<longrightarrow> clocks w s = Some n)"
    using wf_vtime_get [OF assms(1)] wf_vtime_get [OF assms(2)]
    by (auto simp: clocks_def) (metis ltime.sel(2))+
  finally show ?thesis .
qed

lemma assert_bind:
  "rbind r (\<lambda>b. rbind (py_assert b msg) (\<lambda>_. k)) = Inr u \<longleftrightarrow> r = Inr True \<and> k = Inr u"
  by (auto simp: rbind_eq_Inr py_assert_Inr)

lemma clock_le_refl: "clock_le f f"
  by (simp add: clock_le_def)

lemma clock_le_trans: "clock_le f g \<Longrightarrow> clock_le g h \<Longrightarrow> clock_le f h"
  unfolding clock_le_def by (metis order_trans)

lemma clock_le_antisym: "clock_le f g \<Longrightarrow> clock_le g f \<Longrightarrow> f = g"
proof
  fix s assume "clock_le f g" "clock_le g f"
  then show "f s = g s" unfolding clock_le_def by (cases "f s"; cases "g s") (fastforce simp: order_antisym)+
qed

lemma map_le_both: "(\<forall>s n. f s = Some n \<longrightarrow> g s = Some n) \<Longrightarrow> (\<forall>s n. g s = Some n \<longrightarrow> f s = Some n) \<Longrightarrow> f = g"
  by (metis not_None_eq ext)

section \<open>Properties\<close>

text \<open>
  Log entries are totally ordered by their times, the server's name breaking ties: of two
  entries exactly one is before the other or their times are equal, and the order is transitive.
\<close>

theorem entry_order_total:
  shows "(entry_less a b \<longleftrightarrow> \<not> (entry_less b a \<or> le_ltime a = le_ltime b)) \<and>
    (entry_less a b \<and> entry_less b c \<longrightarrow> entry_less a c)"
  by (auto simp: entry_less_def)

theorem entry_order_total_witness:
  "entry_less \<lparr>le_ltime = LogicalTime ''a'' 1, le_char = JStr ''x''\<rparr> \<lparr>le_ltime = LogicalTime ''b'' 2, le_char = JStr ''z''\<rparr>"
proof -
  have "entry_less \<lparr>le_ltime = LogicalTime ''a'' 1, le_char = JStr ''x''\<rparr> \<lparr>le_ltime = LogicalTime ''b'' 1, le_char = JStr ''y''\<rparr>"
    "entry_less \<lparr>le_ltime = LogicalTime ''b'' 1, le_char = JStr ''y''\<rparr> \<lparr>le_ltime = LogicalTime ''b'' 2, le_char = JStr ''z''\<rparr>"
    by code_simp+
  with entry_order_total show ?thesis by blast
qed

text \<open>
  C24. \<open>is_vtime_earlier\<close> is a partial order on vector times whose entries are filed under
  their names: it is reflexive and transitive, and two vectors are earlier than each other exactly
  when they are equal both ways.
\<close>

theorem vtime_partial_order:
  assumes "wf_vtime u" and "wf_vtime v" and "wf_vtime w"
  shows "is_vtime_earlier v v = Inr True \<and>
    (is_vtime_earlier v u = Inr True \<and> is_vtime_earlier w v = Inr True \<longrightarrow> is_vtime_earlier w u = Inr True) \<and>
    ((is_vtime_earlier v w = Inr True \<and> is_vtime_earlier w v = Inr True) \<longleftrightarrow>
     (vtime_eq v w = Inr True \<and> vtime_eq w v = Inr True))"
proof -
  note iff = is_vtime_earlier_iff [OF assms(1)] is_vtime_earlier_iff [OF assms(2)] is_vtime_earlier_iff [OF assms(3)]
  have "vtime_eq v w = Inr True \<and> vtime_eq w v = Inr True \<longleftrightarrow> clocks v = clocks w"
    unfolding vtime_eq_True [OF assms(2,3)] vtime_eq_True [OF assms(3,2)] using map_le_both by metis
  then show ?thesis
    unfolding iff using clock_le_refl clock_le_trans clock_le_antisym by metis
qed

definition demo_vtime :: "int \<Rightarrow> int \<Rightarrow> vtime" where
  "demo_vtime i j = vtime_init [LogicalTime ''a'' i, LogicalTime ''b'' j]"

theorem vtime_partial_order_witness:
  "is_vtime_earlier (demo_vtime 5 6) (demo_vtime 1 2) = Inr True"
proof -
  have "is_vtime_earlier (demo_vtime 3 4) (demo_vtime 1 2) = Inr True"
    "is_vtime_earlier (demo_vtime 5 6) (demo_vtime 3 4) = Inr True" by code_simp+
  moreover have "wf_vtime (demo_vtime i j)" for i j by (simp add: demo_vtime_def wf_vtime_init)
  ultimately show ?thesis using vtime_partial_order [of "demo_vtime 1 2" "demo_vtime 3 4" "demo_vtime 5 6"] by blast
qed

text \<open>
  C23. \<open>advance\<close> moves exactly one clock and never backwards: it succeeds exactly when the
  server is known and its clock is not ahead; the result has the new time for that server and the
  old ones for the others, is well formed, covers the new time, and is not earlier than before.
\<close>

theorem advance_correct:
  assumes "wf_vtime v"
  shows "case advance v t of
      Inr v' \<Rightarrow> wf_vtime v' \<and> clocks v' = (clocks v)(lt_name t \<mapsto> lt_ts t) \<and>
        is_ltime_earlier v' t = Inr True \<and> is_vtime_earlier v' v = Inr True
    | Inl e \<Rightarrow> (if clocks v (lt_name t) = None then e = KeyError
        else (\<exists>n msg. clocks v (lt_name t) = Some n \<and> lt_ts t < n \<and> e = AssertionError msg))"
proof (cases "map_of v (lt_name t)")
  case None
  then show ?thesis by (simp add: advance_clocks clocks_def)
next
  case (Some cur)
  show ?thesis
  proof (cases "lt_ts cur \<le> lt_ts t")
    case True
    let ?v = "dict_set v (lt_name t) t"
    have "clock_le (clocks v) (clocks ?v)" using Some True by (auto simp: clock_le_def clocks_set clocks_def)
    moreover have "is_ltime_earlier ?v t = Inr True" by (simp add: is_ltime_earlier_clocks clocks_set)
    ultimately show ?thesis
      using Some True assms by (simp add: advance_clocks wf_vtime_set clocks_set is_vtime_earlier_iff)
  next
    case False
    then show ?thesis using Some by (simp add: advance_clocks clocks_def)
  qed
qed

theorem advance_correct_witness:
  "\<exists>v'. advance (demo_vtime 1 2) (LogicalTime ''a'' 4) = Inr v' \<and> is_vtime_earlier v' (demo_vtime 1 2) = Inr True"
proof -
  have "\<exists>v'. advance (demo_vtime 1 2) (LogicalTime ''a'' 4) = Inr v'"
    by (simp add: advance_clocks demo_vtime_def vtime_init_def)
  then show ?thesis
    using advance_correct [of "demo_vtime 1 2" "LogicalTime ''a'' 4"] by (auto simp: demo_vtime_def wf_vtime_init)
qed

text \<open>
  Equality of vector times is not symmetric: it only visits the keys of its left side. The
  empty vector equals every vector, while the converse comparison raises KeyError.
\<close>

theorem vtime_eq_asymmetric:
  assumes "v \<noteq> []"
  shows "vtime_eq [] v = Inr True \<and> vtime_eq v [] = Inl KeyError"
  using assms by (cases v) (auto simp: vtime_eq_def dict_index_def)

theorem vtime_eq_asymmetric_witness:
  "vtime_eq [] [(''a'', LogicalTime ''a'' 0)] = Inr True \<and> vtime_eq [(''a'', LogicalTime ''a'' 0)] [] = Inl KeyError"
  by (rule vtime_eq_asymmetric) simp

text \<open>
  The invariant check accepts exactly the storages it is meant to accept: for vectors over the
  same servers it passes if and only if no committed clock is ahead of the tentative one and, when
  the tentative log is empty, the two vectors have the same clocks and the two states are the same.
\<close>

theorem chk_invariants_iff:
  assumes "wf_vtime (st_c st)" and "wf_vtime (st_f st)" and "dom (clocks (st_c st)) = dom (clocks (st_f st))"
  shows "chk_invariants st = Inr () \<longleftrightarrow>
    clock_le (clocks (st_c st)) (clocks (st_f st)) \<and>
    (st_tentative_log st = [] \<longrightarrow>
       clocks (st_f st) = clocks (st_c st) \<and> st_committed_st st = st_tentative_st st)"
proof -
  have "vtime_eq (st_f st) (st_c st) = Inr True \<longleftrightarrow> clocks (st_f st) = clocks (st_c st)"
    unfolding vtime_eq_True [OF assms(2,1)]
  proof
    assume sub: "\<forall>s n. clocks (st_f st) s = Some n \<longrightarrow> clocks (st_c st) s = Some n"
    show "clocks (st_f st) = clocks (st_c st)"
    proof
      fix s
      have "clocks (st_f st) s = None \<longleftrightarrow> clocks (st_c st) s = None" using assms(3) by (metis domIff)
      then show "clocks (st_f st) s = clocks (st_c st) s"
        using sub by (cases "clocks (st_f st) s") auto
    qed
  qed simp
  then show ?thesis
    unfolding chk_invariants_def assert_bind is_vtime_earlier_iff [OF assms(1), symmetric]
    by (cases "st_tentative_log st = []") (simp_all add: assert_bind py_assert_Inr)
qed

theorem chk_invariants_iff_witness:
  "chk_invariants (storage_init [''a'', ''b''] ''s'') = Inr ()"
  by (subst chk_invariants_iff) (simp_all add: storage_init_def wf_vtime_new clock_le_refl)

end
