(* ===== verification/BayouNode.thy ===== *)
theory BayouNode
  imports BayouClock Links
begin

text \<open>
  The servers of lab 4: the network layer with simulated disconnections
  (\<open>core/network.py\<close>, \<open>core/server.py\<close>), the control messages
  (\<open>bayou/ctrlmsg.py\<close>), the server and its anti-entropy thread (\<open>bayou/server.py\<close>),
  the application (\<open>bayou/app.py\<close>) and the client (\<open>bayou/client.py\<close>). The sorted
  list that anti-entropy builds is third-party code and a parameter, as is the answer of a peer. A
  time stamp that is not a name and a number is outside the model, which then raises an exception of
  its own.
\<close>

section \<open>Strings of values\<close>

text \<open>\<open>str(v)\<close> and \<open>repr(v)\<close> of a JSON value.\<close>

definition repr_char :: "char \<Rightarrow> char \<Rightarrow> string" where
  "repr_char q c =
     (let n = (of_char c :: nat) in
      if c = q \<or> c = CHR 0x5C then [CHR 0x5C, c]
      else if c = CHR 0x0A then [CHR 0x5C, CHR ''n'']
      else if c = CHR 0x0D then [CHR 0x5C, CHR ''r'']
      else if c = CHR 0x09 then [CHR 0x5C, CHR ''t'']
      else if n < 32 \<or> 127 \<le> n \<and> n \<le> 160 \<or> n = 173 then [CHR 0x5C, CHR ''x'', hex_digit (n div 16), hex_digit (n mod 16)]
      else [c])"

definition repr_str :: "string \<Rightarrow> string" where
  "repr_str s =
     (let q = (if CHR 0x27 \<in> set s \<and> CHR 0x22 \<notin> set s then CHR 0x22 else CHR 0x27) in
      [q] @ concat (map (repr_char q) s) @ [q])"

fun py_repr :: "json \<Rightarrow> string" where
  "py_repr JNull = ''None''"
| "py_repr (JBool b) = (if b then ''True'' else ''False'')"
| "py_repr (JInt i) = dumps_int i"
| "py_repr (JStr s) = repr_str s"
| "py_repr (JArr xs) = ''['' @ join '', '' (map py_repr xs) @ '']''"
| "py_repr (JObj d) = [CHR 0x7B] @ join '', '' (map (\<lambda>(k, v). repr_str k @ '': '' @ py_repr v) d) @ [CHR 0x7D]"

fun py_str :: "json \<Rightarrow> string" where
  "py_str (JStr s) = s"
| "py_str j = py_repr j"

section \<open>Network\<close>

text \<open>
  \<open>TcpClient.send\<close> of lab 4 opens a connection for every message; exceptions are logged. \<open>'w\<close> is what the
  calls on the socket change, the other servers included.
\<close>

definition tcp_send_once ::
  "(server_info \<Rightarrow> 'w \<Rightarrow> 's res) \<Rightarrow> ('s \<Rightarrow> json_message \<Rightarrow> 'w \<Rightarrow> unit res \<times> 's \<times> 'w) \<Rightarrow>
     ('s \<Rightarrow> (nat \<times> json_message option) res \<times> 's) \<Rightarrow> bool \<Rightarrow> server_info \<Rightarrow> json_message \<Rightarrow> 'w \<Rightarrow>
     json_message option \<times> 'w" where
  "tcp_send_once connect snd_all rcv_msg blocking info msg w =
     (case connect info w of
        Inl e \<Rightarrow> (None, w)
      | Inr s \<Rightarrow>
          (case snd_all s msg w of
             (Inl e, s', w') \<Rightarrow> (None, w')
           | (Inr _, s', w') \<Rightarrow>
               (if blocking then
                  (case fst (rcv_msg s') of
                     Inl e \<Rightarrow> None
                   | Inr (err_code, response) \<Rightarrow> response)
                else None, w')))"

record bayou_stub =
  bc_connections :: "(string, server_info) dict"
  bc_clients :: "(string, server_info) dict"
  bc_dc_servers :: "string list"

definition bayou_stub_init :: "server_info list \<Rightarrow> bayou_stub" where
  "bayou_stub_init connections =
     \<lparr>bc_connections = fold (\<lambda>si d. dict_set d (si_name si) si) connections [], bc_clients = [], bc_dc_servers = []\<rparr>"

definition bayou_initalize_connections :: "bayou_stub \<Rightarrow> bayou_stub" where
  "bayou_initalize_connections st =
     st\<lparr>bc_clients := fold (\<lambda>(_, si) d. dict_set d (si_name si) si) (bc_connections st) (bc_clients st)\<rparr>"

definition bayou_stub_send ::
  "(server_info \<Rightarrow> json_message \<Rightarrow> 'w \<Rightarrow> json_message option \<times> 'w) \<Rightarrow> bayou_stub \<Rightarrow> string \<Rightarrow> json_message \<Rightarrow>
     'w \<Rightarrow> json_message option res \<times> 'w" where
  "bayou_stub_send channel st to msg w =
     (case dict_get (bc_clients st) to of
        None \<Rightarrow> (Inl (AssertionError ''Connection doesn't exist''), w)
      | Some si \<Rightarrow>
          if to \<in> set (bc_dc_servers st) then (Inl SimulatedConnectionError, w)
          else (case channel si msg w of (r, w') \<Rightarrow> (Inr r, w')))"

definition sever_connection :: "bayou_stub \<Rightarrow> string \<Rightarrow> bayou_stub res" where
  "sever_connection st peer =
     rbind (py_assert (peer \<in> set (dict_keys (bc_connections st))) ''Tried to sever non-existing connection'') (\<lambda>_.
       Inr (st\<lparr>bc_dc_servers := (if peer \<in> set (bc_dc_servers st) then bc_dc_servers st else bc_dc_servers st @ [peer])\<rparr>))"

definition unsever_connection :: "bayou_stub \<Rightarrow> string \<Rightarrow> bayou_stub res" where
  "unsever_connection st peer =
     rbind (py_assert (peer \<in> set (dict_keys (bc_connections st))) ''Tried to unsever non-existing connection'') (\<lambda>_.
       if peer \<in> set (bc_dc_servers st) then Inr (st\<lparr>bc_dc_servers := removeAll peer (bc_dc_servers st)\<rparr>)
       else Inl KeyError)"

definition all_peer_names :: "bayou_stub \<Rightarrow> string set" where
  "all_peer_names st = set (dict_keys (bc_connections st))"

definition connected_peer_names :: "bayou_stub \<Rightarrow> string set" where
  "connected_peer_names st = all_peer_names st - set (bc_dc_servers st)"

section \<open>Control messages\<close>

definition sever_peer_name :: "json_message \<Rightarrow> string res" where
  "sever_peer_name msg =
     rbind (msg_contains msg ''peer_name'') (\<lambda>b.
     rbind (py_assert b ''peer_name is required in SeverConnRequest.'') (\<lambda>_.
     rbind (msg_getitem msg ''peer_name'') (\<lambda>v. Inr (py_str v))))"

definition unsever_peer_name :: "json_message \<Rightarrow> string res" where
  "unsever_peer_name msg =
     rbind (msg_contains msg ''peer_name'') (\<lambda>b.
     rbind (py_assert b ''peer_name is required in UnSeverConnRequest.'') (\<lambda>_.
     rbind (msg_getitem msg ''peer_name'') (\<lambda>v. Inr (py_str v))))"

record anti_entropy_req =
  ae_c :: vtime
  ae_f :: vtime

text \<open>The loop over the items of a vector; \<open>isinstance(t, int)\<close> holds of booleans too.\<close>

fun parse_clocks :: "(string \<times> json) list \<Rightarrow> ltime list res" where
  "parse_clocks [] = Inr []"
| "parse_clocks ((n, t) # items) =
     (case py_int t of
        None \<Rightarrow> Inl (AssertionError '''')
      | Some i \<Rightarrow> rbind (parse_clocks items) (\<lambda>ts. Inr (LogicalTime n i # ts)))"

definition as_dict :: "json \<Rightarrow> (string \<times> json) list res" where
  "as_dict j = (case j of JObj d \<Rightarrow> Inr d | _ \<Rightarrow> Inl (AssertionError ''''))"

definition anti_entropy_from_msg :: "json_message \<Rightarrow> anti_entropy_req res" where
  "anti_entropy_from_msg msg =
     rbind (msg_contains msg ''c'') (\<lambda>b. rbind (py_assert b ''c must be in the anti-entropy req'') (\<lambda>_.
     rbind (msg_contains msg ''f'') (\<lambda>b. rbind (py_assert b ''f must be in the anti-entropy req'') (\<lambda>_.
     rbind (rbind (msg_getitem msg ''c'') as_dict) (\<lambda>c.
     rbind (rbind (msg_getitem msg ''f'') as_dict) (\<lambda>f.
     rbind (parse_clocks c) (\<lambda>c_vector.
     rbind (parse_clocks f) (\<lambda>f_vector.
       Inr \<lparr>ae_c = vtime_init c_vector, ae_f = vtime_init f_vector\<rparr>))))))))"

definition clock_obj :: "vtime \<Rightarrow> json" where
  "clock_obj v = JObj (map (\<lambda>(k, n). (k, JInt n)) (vtime_to_dict v))"

definition anti_entropy_to_msg :: "anti_entropy_req \<Rightarrow> json_message" where
  "anti_entropy_to_msg r =
     JObj [(''type'', JStr ''ANTI_ENTROPY''), (''c'', clock_obj (ae_c r)), (''f'', clock_obj (ae_f r))]"

datatype write_state = TENTATIVE | COMMITTED | REJECTED

fun write_state_name :: "write_state \<Rightarrow> string" where
  "write_state_name TENTATIVE = ''TENTATIVE''"
| "write_state_name COMMITTED = ''COMMITTED''"
| "write_state_name REJECTED = ''REJECTED''"

definition write_state_of :: "json \<Rightarrow> write_state option" where
  "write_state_of j =
     (case filter (\<lambda>w. j = JStr (write_state_name w)) [TENTATIVE, COMMITTED, REJECTED] of
        [] \<Rightarrow> None | w # ws \<Rightarrow> Some w)"

text \<open>\<open>_status\<close> holds whatever the constructor was given: a boolean or, after parsing, a string.\<close>

record bayou_response =
  br_status_field :: json
  br_write_state :: write_state
  br_payload :: "(string, json) dict"

definition response_to_json :: "bayou_response \<Rightarrow> json_message" where
  "response_to_json r =
     JObj [(''status'', JStr (if truthy (br_status_field r) then ''OK'' else ''Err'')),
           (''write_state'', JStr (write_state_name (br_write_state r))),
           (''payload'', JObj (br_payload r))]"

definition response_from_json :: "json_message \<Rightarrow> bayou_response res" where
  "response_from_json j =
     rbind (msg_contains j ''status'') (\<lambda>b. rbind (py_assert b ''Status must be in msg'') (\<lambda>_.
     rbind (msg_getitem j ''status'') (\<lambda>st. rbind (hash_key st) (\<lambda>k.
     rbind (py_assert (k \<in> {JStr ''OK'', JStr ''Err''}) ''Status must be {OK, Err}'') (\<lambda>_.
     rbind (msg_contains j ''payload'') (\<lambda>b. rbind (py_assert b ''Payload must be present'') (\<lambda>_.
     rbind (msg_getitem j ''payload'') (\<lambda>p.
     rbind (case p of JObj d \<Rightarrow> Inr d | _ \<Rightarrow> Inl (AssertionError ''Payload must be dict'')) (\<lambda>payload.
     rbind (msg_contains j ''write_state'') (\<lambda>b. rbind (py_assert b ''write state must be in msg'') (\<lambda>_.
     rbind (msg_getitem j ''write_state'') (\<lambda>w.
       case write_state_of w of
         None \<Rightarrow> Inl (AssertionError ''write state must be ['TENTATIVE', 'COMMITTED', 'REJECTED']'')
       | Some ws \<Rightarrow> Inr \<lparr>br_status_field = st, br_write_state = ws, br_payload = payload\<rparr>))))))))))))"

definition response_status :: "bayou_response \<Rightarrow> bool" where
  "response_status r = (py_str (br_status_field r) = ''OK'')"

text \<open>\<open>__getattr__\<close>.\<close>

definition response_getattr :: "bayou_response \<Rightarrow> string \<Rightarrow> json res" where
  "response_getattr r name =
     (case dict_get (br_payload r) name of Some v \<Rightarrow> Inr v | None \<Rightarrow> Inl AttributeError)"

section \<open>The application\<close>

definition entry_to_dict :: "app_log_entry \<Rightarrow> json" where
  "entry_to_dict e =
     JObj [(''char'', le_char e),
           (''ltime'', case ltime_serialize (le_ltime e) of (name, ts) \<Rightarrow> JArr [JStr name, JInt ts]),
           (''req_type'', JStr ''APPEND_CHAR'')]"

text \<open>\<open>AppLogEntry(char, ltime)\<close> goes through the message \<open>{"ltime": [ts, name]}\<close>.\<close>

definition app_log_entry_init :: "json \<Rightarrow> ltime \<Rightarrow> app_log_entry" where
  "app_log_entry_init c t =
     (case (lt_ts t, lt_name t) of (first, second) \<Rightarrow> \<lparr>le_ltime = LogicalTime second first, le_char = c\<rparr>)"

definition entry_do :: "app_log_entry \<Rightarrow> string \<Rightarrow> string res" where
  "entry_do e st = Inl TypeError"

definition entry_undo :: "app_log_entry \<Rightarrow> string \<Rightarrow> string res" where
  "entry_undo e st = Inl TypeError"

fun ltime_of_json :: "json \<Rightarrow> ltime res" where
  "ltime_of_json (JArr (JStr n # t # ts)) =
     (case py_int t of Some i \<Rightarrow> Inr (LogicalTime n i) | None \<Rightarrow> Inl (GenericException ''untyped time stamp''))"
| "ltime_of_json (JArr (n # t # ts)) = Inl (GenericException ''untyped time stamp'')"
| "ltime_of_json (JArr _) = Inl IndexError"
| "ltime_of_json (JStr (a # b # s)) = Inl (GenericException ''untyped time stamp'')"
| "ltime_of_json (JStr _) = Inl IndexError"
| "ltime_of_json (JObj d) = Inl KeyError"
| "ltime_of_json _ = Inl TypeError"

definition app_deserialize :: "string \<Rightarrow> int \<Rightarrow> json_message \<Rightarrow> json \<Rightarrow> app_log_entry res" where
  "app_deserialize self_name monotonic_ns msg req_type =
     (if req_type = JStr ''APPEND_CHAR'' then
        rbind (msg_contains msg ''ltime'') (\<lambda>b.
        rbind (if b then rbind (msg_getitem msg ''ltime'') ltime_of_json
               else Inr (LogicalTime self_name monotonic_ns)) (\<lambda>t.
        rbind (msg_getitem msg ''char'') (\<lambda>c. Inr (app_log_entry_init c t))))
      else Inl (AssertionError ''Invalid Request''))"

section \<open>The server\<close>

record bayou_server =
  bs_name :: string
  bs_is_master :: bool
  bs_peers :: "server_info list"
  bs_state :: string
  bs_storage :: "storage option"
  bs_stub :: bayou_stub

definition bayou_server_init :: "server_info \<Rightarrow> bayou_stub \<Rightarrow> bool \<Rightarrow> server_info list \<Rightarrow> bayou_server" where
  "bayou_server_init info stub is_master peers =
     \<lparr>bs_name = si_name info, bs_is_master = is_master, bs_peers = peers, bs_state = '''', bs_storage = None, bs_stub = stub\<rparr>"

text \<open>The property \<open>storage\<close> creates the storage on first use.\<close>

definition get_storage :: "bayou_server \<Rightarrow> storage \<times> bayou_server" where
  "get_storage s =
     (case bs_storage s of
        Some st \<Rightarrow> (st, s)
      | None \<Rightarrow> let st = storage_init (map si_name (bs_peers s)) (bs_state s) in (st, s\<lparr>bs_storage := Some st\<rparr>))"

definition bayou_ok :: json_message where
  "bayou_ok = JObj [(''status'', JStr ''OK'')]"

definition respond :: "bayou_server \<Rightarrow> json_message \<Rightarrow> json \<Rightarrow> json_message option \<times> bayou_server" where
  "respond s msg req_type =
     (if req_type \<noteq> JStr ''GET_STRING'' then (None, s)
      else (case get_storage s of (st, s') \<Rightarrow>
        (Some (JObj [(''status'', JStr ''OK''), (''committed'', JStr (st_committed_st st)),
                     (''tentative'', JStr (st_tentative_st st))]), s')))"

definition process_app_req :: "storage_ops \<Rightarrow> int \<Rightarrow> bayou_server \<Rightarrow> json_message \<Rightarrow> json \<Rightarrow> json_message res \<times> bayou_server" where
  "process_app_req ops now s msg req_type =
     (case respond s msg req_type of
        (Some response, s') \<Rightarrow> (Inr response, s')
      | (None, s') \<Rightarrow>
          (case app_deserialize (bs_name s') now msg req_type of
             Inl e \<Rightarrow> (Inl e, s')
           | Inr log_entry \<Rightarrow>
               (case get_storage s' of (st, s'') \<Rightarrow>
                  (case (if bs_is_master s'' then storage_commit ops [log_entry] st
                         else storage_tentative ops [log_entry] st) of
                     (r, st') \<Rightarrow>
                       (rbind r (\<lambda>_. Inr (JObj [(''status'', JStr ''OK''),
                          (''write_state'', JStr (if bs_is_master s'' then ''COMMITTED'' else ''TENTATIVE''))])),
                        s''\<lparr>bs_storage := Some st'\<rparr>)))))"

fun msg_pop :: "json_message \<Rightarrow> string \<Rightarrow> (json \<times> json_message) res" where
  "msg_pop (JObj d) k = rbind (dict_pop d k) (\<lambda>(v, d'). Inr (v, JObj d'))"
| "msg_pop (JArr xs) k = Inl TypeError"
| "msg_pop _ k = Inl AttributeError"

definition dispatch :: "storage_ops \<Rightarrow> int \<Rightarrow> bayou_server \<Rightarrow> json \<Rightarrow> json_message \<Rightarrow> json_message res \<times> bayou_server" where
  "dispatch ops now s req_type msg =
     (if req_type = JNull then
        (Inr (JObj [(''status'', JStr ''Err''), (''error'', JStr ''Must specify type of request'')]), s)
      else if req_type = JStr ''SEVER_CONN'' then
        (case rbind (sever_peer_name msg) (sever_connection (bs_stub s)) of
           Inl e \<Rightarrow> (Inl e, s) | Inr stub \<Rightarrow> (Inr bayou_ok, s\<lparr>bs_stub := stub\<rparr>))
      else if req_type = JStr ''UNSEVER_CONN'' then
        (case rbind (unsever_peer_name msg) (unsever_connection (bs_stub s)) of
           Inl e \<Rightarrow> (Inl e, s) | Inr stub \<Rightarrow> (Inr bayou_ok, s\<lparr>bs_stub := stub\<rparr>))
      else if req_type = JStr ''ANTI_ENTROPY'' then
        (case anti_entropy_from_msg msg of
           Inl e \<Rightarrow> (Inl e, s)
         | Inr req \<Rightarrow>
             (case get_storage s of (st, s') \<Rightarrow>
                (rbind (op_anti_entropy ops (ae_c req) (ae_f req) st) (\<lambda>(committed, tentative).
                   Inr (JObj [(''committed'', JArr (map entry_to_dict committed)),
                              (''tentative'', JArr (map entry_to_dict tentative))])), s')))
      else process_app_req ops now s msg req_type)"

text \<open>The \<open>try\<close> block answers assertions only; the \<open>pop\<close> is outside of it.\<close>

definition bayou_process_req :: "storage_ops \<Rightarrow> int \<Rightarrow> bayou_server \<Rightarrow> json_message \<Rightarrow> json_message res \<times> bayou_server" where
  "bayou_process_req ops now s msg =
     (case msg_pop msg ''type'' of
        Inl e \<Rightarrow> (Inl e, s)
      | Inr (req_type, msg') \<Rightarrow>
          (case dispatch ops now s req_type msg' of
             (Inl (AssertionError text), s') \<Rightarrow> (Inr (JObj [(''status'', JStr ''Err''), (''error'', JStr text)]), s')
           | (r, s') \<Rightarrow> (r, s')))"

text \<open>
  \<open>handle_client\<close> serves one request per connection; an exception ends it without an answer,
  and \<open>with\<close> closes the socket. The result is the exception, if any, the server and what was sent.
\<close>

definition bayou_handle_client ::
  "storage_ops \<Rightarrow> int \<Rightarrow> bayou_server \<Rightarrow> (nat \<times> json_message option) res \<Rightarrow> unit res \<times> bayou_server \<times> bytes" where
  "bayou_handle_client ops now s received =
     (case received of
        Inl e \<Rightarrow> (Inl e, s, [])
      | Inr (err_code, request) \<Rightarrow>
          (case (case request of
                   None \<Rightarrow>
                     (rbind (dict_index STATUS_CODE err_code) (\<lambda>text.
                        Inr (JObj [(''error_msg'', JStr text), (''error_code'', JInt (int err_code))])), s)
                 | Some msg \<Rightarrow> bayou_process_req ops now s msg) of
             (sr, s') \<Rightarrow>
               (case rbind sr serialize of
                  Inl e \<Rightarrow> (Inl e, s', [])
                | Inr bs \<Rightarrow> (Inr (), s', bs))))"

section \<open>Anti-entropy\<close>

definition deserialize_logs :: "string \<Rightarrow> int \<Rightarrow> json \<Rightarrow> app_log_entry list res" where
  "deserialize_logs self_name now logs =
     (case logs of
        JArr es \<Rightarrow> rmap (\<lambda>e. rbind (msg_getitem e ''req_type'') (app_deserialize self_name now e)) es
      | _ \<Rightarrow> Inl TypeError)"

definition send_anti_entropy ::
  "(app_log_entry list \<Rightarrow> app_log_entry list) \<Rightarrow> (server_info \<Rightarrow> json_message \<Rightarrow> 'w \<Rightarrow> json_message option \<times> 'w) \<Rightarrow>
     int \<Rightarrow> bayou_server \<Rightarrow> string \<Rightarrow> 'w \<Rightarrow> (app_log_entry list \<times> app_log_entry list) res \<times> bayou_server \<times> 'w" where
  "send_anti_entropy sorted_list channel now s peer w =
     (case get_storage s of (st, s') \<Rightarrow>
        (case bayou_stub_send channel (bs_stub s') peer (anti_entropy_to_msg \<lparr>ae_c = st_c st, ae_f = st_f st\<rparr>) w of
           (sent, w') \<Rightarrow>
             (rbind sent (\<lambda>response.
                case response of
                  None \<Rightarrow> Inl (AssertionError '''')
                | Some r \<Rightarrow>
                    rbind (msg_getitem r ''committed'') (\<lambda>committed.
                    rbind (msg_getitem r ''tentative'') (\<lambda>tentative.
                    rbind (deserialize_logs (bs_name s') now committed) (\<lambda>cs.
                    rbind (deserialize_logs (bs_name s') now tentative) (\<lambda>ts.
                      if bs_is_master s' then Inl TypeError else Inr (cs, sorted_list ts)))))), s', w')))"

text \<open>
  One pass of the \<open>for\<close> loop over the peers. The loop survives a simulated disconnection and nothing else: the
  result is the exception that ends the thread, or none.
\<close>

fun anti_entropy_round ::
  "storage_ops \<Rightarrow> (app_log_entry list \<Rightarrow> app_log_entry list) \<Rightarrow>
     (server_info \<Rightarrow> json_message \<Rightarrow> 'w \<Rightarrow> json_message option \<times> 'w) \<Rightarrow> int \<Rightarrow>
     server_info list \<Rightarrow> bayou_server \<Rightarrow> 'w \<Rightarrow> unit res \<times> bayou_server \<times> 'w" where
  "anti_entropy_round ops sorted_list channel now [] s w = (Inr (), s, w)"
| "anti_entropy_round ops sorted_list channel now (peer # peers) s w =
     (if si_name peer \<noteq> bs_name s then
        (case send_anti_entropy sorted_list channel now s (si_name peer) w of
           (Inr (committed, tentative), s', w') \<Rightarrow>
             (case get_storage s' of (st, s'') \<Rightarrow>
                (case op_apply ops committed tentative st of
                   (Inl e, st') \<Rightarrow>
                     if e = SimulatedConnectionError
                     then anti_entropy_round ops sorted_list channel now peers (s''\<lparr>bs_storage := Some st'\<rparr>) w'
                     else (Inl e, s''\<lparr>bs_storage := Some st'\<rparr>, w')
                 | (Inr _, st') \<Rightarrow>
                     anti_entropy_round ops sorted_list channel now peers (s''\<lparr>bs_storage := Some st'\<rparr>) w'))
         | (Inl e, s', w') \<Rightarrow>
             if e = SimulatedConnectionError then anti_entropy_round ops sorted_list channel now peers s' w'
             else (Inl e, s', w'))
      else anti_entropy_round ops sorted_list channel now peers s w)"

section \<open>Client\<close>

definition client_send :: "(json_message \<Rightarrow> json_message option) \<Rightarrow> json_message \<Rightarrow> json_message res" where
  "client_send conn js = (case conn js of None \<Rightarrow> Inl (AssertionError '''') | Some r \<Rightarrow> Inr r)"

definition sever_conn_msg :: "string \<Rightarrow> json_message" where
  "sever_conn_msg peer = JObj [(''peer_name'', JStr peer), (''type'', JStr ''SEVER_CONN'')]"

definition unsever_conn_msg :: "string \<Rightarrow> json_message" where
  "unsever_conn_msg peer = JObj [(''peer_name'', JStr peer), (''type'', JStr ''UNSEVER_CONN'')]"

definition append_char_msg :: "string \<Rightarrow> json_message res" where
  "append_char_msg c =
     rbind (py_assert (length c = 1) '''') (\<lambda>_. Inr (JObj [(''type'', JStr ''APPEND_CHAR''), (''char'', JStr c)]))"

definition get_string_msg :: json_message where
  "get_string_msg = JObj [(''type'', JStr ''GET_STRING'')]"

section \<open>Cluster\<close>

text \<open>
  \<open>BayouClusterManager\<close>: the peers are the callees of the topology, without duplicates and
  sorted by name (a stable sort, so \<open>as_set\<close> is a parameter: the order in which Python iterates the
  set).
\<close>

definition bayou_peers :: "(server_info list \<Rightarrow> server_info list) \<Rightarrow> topology \<Rightarrow> server_info list" where
  "bayou_peers as_set topo = sort_key si_name (as_set (concat (map snd topo)))"

definition bayou_make_servers :: "(server_info \<Rightarrow> bayou_stub \<Rightarrow> 'srv res) \<Rightarrow> topology \<Rightarrow> (string, 'srv) dict res" where
  "bayou_make_servers create topo =
     fold (\<lambda>(_, si) r. rbind r (\<lambda>d.
         rbind (dict_index (complete_topology topo) si) (\<lambda>tos.
         rbind (create si (bayou_stub_init tos)) (\<lambda>srv. Inr (dict_set d (si_name si) srv)))))
       (server_infos topo) (Inr [])"

definition bayou_create_server :: "string \<Rightarrow> string \<Rightarrow> server_info list \<Rightarrow> server_info \<Rightarrow> bayou_stub \<Rightarrow> bayou_server res" where
  "bayou_create_server storage_type master_name peers si stub =
     (if storage_type = ''app'' then Inr (bayou_server_init si stub (si_name si = master_name) peers)
      else Inl NotImplementedError)"

section \<open>Properties\<close>

lemma parse_clocks_obj: "parse_clocks (map (\<lambda>(k, n). (k, JInt n)) d) = Inr (map (\<lambda>(k, n). LogicalTime k n) d)"
  by (induction d) auto

lemma vtime_init_entries:
  assumes "wf_vtime v"
  shows "vtime_init (map (\<lambda>(k, n). LogicalTime k n) (vtime_to_dict v)) = v"
proof -
  have "map (\<lambda>(k, n). LogicalTime k n) (vtime_to_dict v) = map snd v"
    using assms by (induction v) (auto simp: vtime_to_dict_def wf_vtime_def)
  moreover have "fold (\<lambda>t d. dict_set d (lt_name t) t) (map snd w) u = u @ w"
    if "distinct (map fst (u @ w))" "list_all (\<lambda>(k, t). lt_name t = k) w" for u w
    using that
  proof (induction w arbitrary: u)
    case (Cons p w)
    obtain k t where p: "p = (k, t)" by fastforce
    have "dict_set u k t = u @ [(k, t)]"
      using Cons.prems(1) by (induction u) (auto simp: p)
    then show ?case using Cons by (simp add: p)
  qed simp
  ultimately show ?thesis using assms by (simp add: vtime_init_def wf_vtime_def)
qed

text \<open>
  An anti-entropy request arrives as it was sent: parsing the message built from two vector
  times gives back the same two vectors, the order of their entries included.
\<close>

theorem anti_entropy_roundtrip:
  assumes "wf_vtime (ae_c r)" and "wf_vtime (ae_f r)"
  shows "anti_entropy_from_msg (anti_entropy_to_msg r) = Inr r"
  using vtime_init_entries [OF assms(1)] vtime_init_entries [OF assms(2)]
  by (simp add: anti_entropy_from_msg_def anti_entropy_to_msg_def clock_obj_def dict_index_def as_dict_def parse_clocks_obj)

theorem anti_entropy_roundtrip_witness:
  "anti_entropy_from_msg (anti_entropy_to_msg \<lparr>ae_c = vtime_new [''a'', ''b''], ae_f = demo_vtime 1 2\<rparr>) =
     Inr \<lparr>ae_c = vtime_new [''a'', ''b''], ae_f = demo_vtime 1 2\<rparr>"
  by (rule anti_entropy_roundtrip) (simp_all add: wf_vtime_new demo_vtime_def wf_vtime_init)

text \<open>
  A log entry that anti-entropy ships is the entry that the receiver builds, with the time
  it had at the sender and not the receiver's clock.
\<close>

theorem entry_roundtrip:
  "app_deserialize self_name now (entry_to_dict e) (JStr ''APPEND_CHAR'') = Inr e"
  by (cases "le_ltime e")
    (simp add: app_deserialize_def entry_to_dict_def ltime_serialize_def dict_index_def app_log_entry_init_def)

lemma write_state_of_name [simp]: "write_state_of (JStr (write_state_name w)) = Some w"
  by (cases w) (simp_all add: write_state_of_def)

text \<open>
  A response does not survive parsing and printing: a response built with a false status is
  printed as "Err", and printing what is parsed from that says "OK", because the parsed object keeps
  the text and every text but the empty one counts as true. Conversely the property
  \<open>status\<close> of a response built with a true status is false. Write state and payload survive.
\<close>

theorem response_status_flips:
  "\<exists>r. response_from_json (response_to_json \<lparr>br_status_field = JBool False, br_write_state = w, br_payload = p\<rparr>) = Inr r \<and>
     response_status r = False \<and> br_write_state r = w \<and> br_payload r = p \<and>
     msg_getitem (response_to_json r) ''status'' = Inr (JStr ''OK'') \<and>
     response_status \<lparr>br_status_field = JBool True, br_write_state = w, br_payload = p\<rparr> = False"
  by (simp add: response_from_json_def response_to_json_def dict_index_def response_status_def)

text \<open>
  Simulated disconnections do what a test of the lab relies on: after SEVER_CONN every send to
  that peer raises and sends to all others are as before; UNSEVER_CONN then restores every send.
\<close>

theorem sever_unsever:
  assumes "peer \<in> set (dict_keys (bc_connections (bs_stub s)))" and "peer \<in> set (dict_keys (bc_clients (bs_stub s)))"
    and "peer \<notin> set (bc_dc_servers (bs_stub s))"
  shows "\<exists>s1 s2. bayou_process_req ops now s (sever_conn_msg peer) = (Inr bayou_ok, s1) \<and>
    bayou_process_req ops now s1 (unsever_conn_msg peer) = (Inr bayou_ok, s2) \<and>
    bayou_stub_send channel (bs_stub s1) peer msg w = (Inl SimulatedConnectionError, w) \<and>
    (\<forall>q. q \<noteq> peer \<longrightarrow> bayou_stub_send channel (bs_stub s1) q msg w = bayou_stub_send channel (bs_stub s) q msg w) \<and>
    (\<forall>q. bayou_stub_send channel (bs_stub s2) q msg w = bayou_stub_send channel (bs_stub s) q msg w) \<and>
    connected_peer_names (bs_stub s1) = connected_peer_names (bs_stub s) - {peer} \<and>
    connected_peer_names (bs_stub s2) = connected_peer_names (bs_stub s)"
proof -
  let ?dc = "bc_dc_servers (bs_stub s)"
  let ?s1 = "s\<lparr>bs_stub := (bs_stub s)\<lparr>bc_dc_servers := ?dc @ [peer]\<rparr>\<rparr>"
  let ?s2 = "?s1\<lparr>bs_stub := (bs_stub ?s1)\<lparr>bc_dc_servers := ?dc\<rparr>\<rparr>"
  have "bayou_process_req ops now s (sever_conn_msg peer) = (Inr bayou_ok, ?s1)"
    using assms by (simp add: bayou_process_req_def sever_conn_msg_def dict_pop_def dispatch_def sever_peer_name_def
        dict_index_def sever_connection_def)
  moreover have "bayou_process_req ops now ?s1 (unsever_conn_msg peer) = (Inr bayou_ok, ?s2)"
    using assms by (simp add: bayou_process_req_def unsever_conn_msg_def dict_pop_def dispatch_def unsever_peer_name_def
        dict_index_def unsever_connection_def)
  moreover obtain si where "dict_get (bc_clients (bs_stub s)) peer = Some si"
    using assms(2) by (metis map_of_eq_None_iff not_None_eq list.set_map)
  ultimately show ?thesis
    by (intro exI [of _ ?s1] exI [of _ ?s2])
      (auto simp: bayou_stub_send_def connected_peer_names_def all_peer_names_def split: option.split)
qed

definition demo_server :: bayou_server where
  "demo_server = bayou_server_init \<lparr>si_name = ''a'', si_host = ''localhost'', si_port = 9000\<rparr>
     (bayou_initalize_connections (bayou_stub_init [\<lparr>si_name = ''b'', si_host = ''localhost'', si_port = 9001\<rparr>])) True
     [\<lparr>si_name = ''b'', si_host = ''localhost'', si_port = 9001\<rparr>]"

theorem sever_unsever_witness:
  "\<exists>s1. bayou_process_req starter_ops 0 demo_server (sever_conn_msg ''b'') = (Inr bayou_ok, s1) \<and>
    bayou_stub_send (\<lambda>si m w. (Some JNull, w)) (bs_stub s1) ''b'' JNull () = (Inl SimulatedConnectionError, ())"
  using sever_unsever [of "''b''" demo_server starter_ops 0 "\<lambda>si m w. (Some JNull, w)" JNull "()"]
  by (auto simp: demo_server_def bayou_server_init_def bayou_initalize_connections_def bayou_stub_init_def)

text \<open>
  Only assertions are answered. A request without a type, the restoring of a peer that was not
  severed, and every append raise out of the handler, so the client gets no response; the
  branch meant to report a missing type is reached only by an explicit null.
\<close>

theorem unanswered_requests:
  assumes "dict_get d ''type'' = None" and "peer \<in> set (dict_keys (bc_connections (bs_stub s)))"
    and "peer \<notin> set (bc_dc_servers (bs_stub s))"
  shows "bayou_process_req starter_ops now s (JObj d) = (Inl KeyError, s) \<and>
    bayou_process_req starter_ops now s (unsever_conn_msg peer) = (Inl KeyError, s) \<and>
    fst (bayou_process_req starter_ops now s (JObj [(''type'', JStr ''APPEND_CHAR''), (''char'', JStr c)])) = Inl TypeError \<and>
    fst (bayou_process_req starter_ops now s (JObj ((''type'', JNull) # d))) =
      Inr (JObj [(''status'', JStr ''Err''), (''error'', JStr ''Must specify type of request'')])"
  using assms
  by (simp add: bayou_process_req_def dict_pop_def unsever_conn_msg_def dispatch_def unsever_peer_name_def dict_index_def
      unsever_connection_def process_app_req_def respond_def app_deserialize_def storage_commit_def storage_tentative_def
      starter_ops_def storage_apply_def split: prod.split)

theorem unanswered_requests_witness:
  "bayou_process_req starter_ops 0 demo_server (JObj []) = (Inl KeyError, demo_server) \<and>
   bayou_process_req starter_ops 0 demo_server (unsever_conn_msg ''b'') = (Inl KeyError, demo_server)"
  using unanswered_requests [of "[]" "''b''" demo_server 0 "''x''"]
  by (auto simp: demo_server_def bayou_server_init_def bayou_initalize_connections_def bayou_stub_init_def)

text \<open>
  The anti-entropy thread survives only disconnections that are simulated: it passes over the
  severed peers, and the first other peer that gives no answer (its server is down, or its handler
  raised) ends the thread for good.
\<close>

theorem anti_entropy_dies_on_silence:
  assumes "\<And>p. p \<in> set before \<Longrightarrow> si_name p = bs_name s \<or>
      si_name p \<in> set (dict_keys (bc_clients (bs_stub s))) \<and> si_name p \<in> set (bc_dc_servers (bs_stub s))"
    and "dict_get (bc_clients (bs_stub s)) (si_name peer) = Some si" and "si_name peer \<noteq> bs_name s"
    and "si_name peer \<notin> set (bc_dc_servers (bs_stub s))" and "\<And>m w. fst (channel si m w) = None"
  shows "fst (anti_entropy_round ops sorted_list channel now (before @ peer # after) s w) = Inl (AssertionError '''')"
  using assms(1-4)
proof (induction before arbitrary: s)
  case Nil
  define next_world where "next_world m w = snd (channel si m w)" for m w
  have "channel si m w = (None, next_world m w)" for m w using assms(5) by (simp add: next_world_def prod_eq_iff)
  then show ?case
    using Nil by (auto simp: send_anti_entropy_def get_storage_def bayou_stub_send_def Let_def split: option.split)
next
  case (Cons p before)
  obtain st s' where g: "get_storage s = (st, s')" by fastforce
  then have same: "bs_name s' = bs_name s" "bs_stub s' = bs_stub s"
    by (auto simp: get_storage_def Let_def split: option.splits)
  show ?case
  proof (cases "si_name p = bs_name s")
    case True
    then show ?thesis using Cons by simp
  next
    case False
    then obtain pi where "dict_get (bc_clients (bs_stub s)) (si_name p) = Some pi"
      using Cons.prems(1) [of p] by (auto simp: map_of_eq_None_iff dest!: weak_map_of_SomeI)
    moreover have "si_name p \<in> set (bc_dc_servers (bs_stub s))" using Cons.prems(1) [of p] False by simp
    ultimately have "send_anti_entropy sorted_list channel now s (si_name p) w = (Inl SimulatedConnectionError, s', w)"
      by (simp add: send_anti_entropy_def g bayou_stub_send_def same)
    moreover have "fst (anti_entropy_round ops sorted_list channel now (before @ peer # after) s' w) = Inl (AssertionError '''')"
      using Cons.prems same by (intro Cons.IH) auto
    ultimately show ?thesis using False by simp
  qed
qed

theorem anti_entropy_dies_on_silence_witness:
  "fst (anti_entropy_round starter_ops id (\<lambda>si m w. (None, w)) 0 (bs_peers demo_server) demo_server ()) = Inl (AssertionError '''')"
  using anti_entropy_dies_on_silence [of "[]" demo_server "\<lparr>si_name = ''b'', si_host = ''localhost'', si_port = 9001\<rparr>"
      "\<lparr>si_name = ''b'', si_host = ''localhost'', si_port = 9001\<rparr>" "\<lambda>si m w. (None, w)" starter_ops id 0 "[]" "()"]
  by (simp add: demo_server_def bayou_server_init_def bayou_initalize_connections_def bayou_stub_init_def)

end
