(* ===== verification/BayouRuns.thy ===== *)
theory BayouRuns
  imports BayouNode
begin

text \<open>
  The servers of a lab 4 cluster together: \<open>Server.run\<close> (\<open>core/server.py\<close>), the anti-entropy threads
  (\<open>_anti_entropy\<close> of \<open>bayou/server.py\<close>) and clients, over connections that carry bytes. Each server is
  reached at its address; a connection carries one request, whose handling is one step. An anti-entropy
  thread takes a step to ask a peer and another to apply the answer, so that requests are handled in
  between. The storage operations that the lab leaves open are the parameter \<open>ops\<close>.
\<close>

section \<open>Servers and connections\<close>

text \<open>Where the loop of \<open>_anti_entropy\<close> stands: the peers left in this pass, and the answer to apply.\<close>

datatype ae_thread =
    Visiting "server_info list"
  | Fetched "app_log_entry list" "app_log_entry list" "server_info list"
  | Ended exc

record bayou_proc =
  bp_info :: server_info
  bp_server :: bayou_server
  bp_thread :: ae_thread

type_synonym bayou_cluster = "(string, bayou_proc) dict"

text \<open>The server that listens at an address.\<close>

fun listening :: "bayou_cluster \<Rightarrow> server_info \<Rightarrow> string option" where
  "listening [] si = None"
| "listening ((n, p) # cl) si =
     (if si_host (bp_info p) = si_host si \<and> si_port (bp_info p) = si_port si then Some n else listening cl si)"

text \<open>A connection is accepted and handled: what the server writes, and the cluster after that.\<close>

definition bayou_serve :: "storage_ops \<Rightarrow> int \<Rightarrow> string \<Rightarrow> socket \<Rightarrow> bayou_cluster \<Rightarrow> bytes \<times> bayou_cluster" where
  "bayou_serve ops now n sock cl =
     (case dict_get cl n of
        None \<Rightarrow> ([], cl)
      | Some p \<Rightarrow>
          (case bayou_handle_client ops now (bp_server p) (fst (recv_message (\<lambda>_ _. Inr ()) tcp_recv sock)) of
             (r, s', out) \<Rightarrow> (out, dict_set cl n (p\<lparr>bp_server := s'\<rparr>))))"

text \<open>
  \<open>TcpClient.send\<close> on such connections. The socket of the client is the name of the server it reached and
  the segments on their way back; \<open>segs\<close> cuts bytes into segments.
\<close>

type_synonym client_socket = "string \<times> socket"

definition bayou_connect :: "server_info \<Rightarrow> bayou_cluster \<Rightarrow> client_socket res" where
  "bayou_connect si cl = (case listening cl si of None \<Rightarrow> Inl ConnectionError | Some n \<Rightarrow> Inr (n, []))"

definition bayou_sendall ::
  "storage_ops \<Rightarrow> (bytes \<Rightarrow> socket) \<Rightarrow> int \<Rightarrow> client_socket \<Rightarrow> json_message \<Rightarrow> bayou_cluster \<Rightarrow>
     unit res \<times> client_socket \<times> bayou_cluster" where
  "bayou_sendall ops segs now sock m cl =
     (case serialize m of
        Inl e \<Rightarrow> (Inl e, sock, cl)
      | Inr bs \<Rightarrow>
          (case bayou_serve ops now (fst sock) (segs bs) cl of
             (out, cl') \<Rightarrow> (Inr (), (fst sock, snd sock @ segs out), cl')))"

definition bayou_recv :: "client_socket \<Rightarrow> (nat \<times> json_message option) res \<times> client_socket" where
  "bayou_recv sock = (case recv_message (\<lambda>_ _. Inr ()) tcp_recv (snd sock) of (r, inb) \<Rightarrow> (r, (fst sock, inb)))"

definition bayou_channel ::
  "storage_ops \<Rightarrow> (bytes \<Rightarrow> socket) \<Rightarrow> int \<Rightarrow> server_info \<Rightarrow> json_message \<Rightarrow> bayou_cluster \<Rightarrow>
     json_message option \<times> bayou_cluster" where
  "bayou_channel ops segs now = tcp_send_once bayou_connect (bayou_sendall ops segs now) bayou_recv True"

text \<open>A call of the client: \<open>BayouClient._send\<close> on such a connection.\<close>

definition bayou_call ::
  "storage_ops \<Rightarrow> (bytes \<Rightarrow> socket) \<Rightarrow> int \<Rightarrow> server_info \<Rightarrow> json_message \<Rightarrow> bayou_cluster \<Rightarrow>
     json_message res \<times> bayou_cluster" where
  "bayou_call ops segs now si m cl =
     (case bayou_channel ops segs now si m cl of (r, cl') \<Rightarrow> (client_send (\<lambda>_. r) m, cl'))"

section \<open>Steps\<close>

text \<open>One step of a server's anti-entropy thread, which the \<open>for\<close> loop starts again after every pass.\<close>

definition after_visit :: "exc \<Rightarrow> server_info list \<Rightarrow> ae_thread" where
  "after_visit e peers = (if e = SimulatedConnectionError then Visiting peers else Ended e)"

definition ae_step ::
  "storage_ops \<Rightarrow> (app_log_entry list \<Rightarrow> app_log_entry list) \<Rightarrow> (bytes \<Rightarrow> socket) \<Rightarrow> int \<Rightarrow> string \<Rightarrow>
     bayou_cluster \<Rightarrow> bayou_cluster option" where
  "ae_step ops sorted_list segs now n cl =
     (case dict_get cl n of
        None \<Rightarrow> None
      | Some p \<Rightarrow>
          (case bp_thread p of
             Ended e \<Rightarrow> None
           | Visiting [] \<Rightarrow> Some (dict_set cl n (p\<lparr>bp_thread := Visiting (bs_peers (bp_server p))\<rparr>))
           | Visiting (peer # peers) \<Rightarrow>
               if si_name peer = bs_name (bp_server p) then Some (dict_set cl n (p\<lparr>bp_thread := Visiting peers\<rparr>))
               else
                 (case send_anti_entropy sorted_list (bayou_channel ops segs now) now (bp_server p) (si_name peer) cl of
                    (r, s', cl') \<Rightarrow>
                      Some (dict_set cl' n (p\<lparr>bp_server := s', bp_thread :=
                        (case r of Inl e \<Rightarrow> after_visit e peers | Inr (cs, ts) \<Rightarrow> Fetched cs ts peers)\<rparr>)))
           | Fetched cs ts peers \<Rightarrow>
               (case get_storage (bp_server p) of
                  (st, s') \<Rightarrow>
                    (case op_apply ops cs ts st of
                       (r, st') \<Rightarrow>
                         Some (dict_set cl n (p\<lparr>bp_server := s'\<lparr>bs_storage := Some st'\<rparr>, bp_thread :=
                           (case r of Inl e \<Rightarrow> after_visit e peers | Inr _ \<Rightarrow> Visiting peers)\<rparr>))))))"

datatype bayou_label =
    ClientBytes string socket int
  | AntiEntropy string int

fun bayou_step ::
  "storage_ops \<Rightarrow> (app_log_entry list \<Rightarrow> app_log_entry list) \<Rightarrow> (bytes \<Rightarrow> socket) \<Rightarrow> bayou_cluster \<Rightarrow>
     bayou_label \<Rightarrow> bayou_cluster option" where
  "bayou_step ops sorted_list segs cl (ClientBytes n sock now) =
     (if dict_get cl n = None then None else Some (snd (bayou_serve ops now n sock cl)))"
| "bayou_step ops sorted_list segs cl (AntiEntropy n now) = ae_step ops sorted_list segs now n cl"

text \<open>
  The cluster after \<open>start_all\<close>: every process has started its anti-entropy thread, listens and has set up its
  connections, which the pauses of \<open>run\<close> and \<open>_anti_entropy\<close> order before the first visit.
\<close>

definition bayou_run_start :: "server_info \<Rightarrow> bayou_server \<Rightarrow> bayou_proc" where
  "bayou_run_start si s =
     \<lparr>bp_info = si, bp_server = s\<lparr>bs_stub := bayou_initalize_connections (bs_stub s)\<rparr>, bp_thread = Visiting []\<rparr>"

definition bayou_start :: "(server_info list \<Rightarrow> server_info list) \<Rightarrow> topology \<Rightarrow> string \<Rightarrow> bayou_cluster res" where
  "bayou_start as_set topo master =
     bayou_make_servers (\<lambda>si stub. rbind (bayou_create_server ''app'' master (bayou_peers as_set topo) si stub)
       (\<lambda>s. Inr (bayou_run_start si s))) topo"

inductive bayou_reachable ::
  "storage_ops \<Rightarrow> (app_log_entry list \<Rightarrow> app_log_entry list) \<Rightarrow> (bytes \<Rightarrow> socket) \<Rightarrow> (server_info list \<Rightarrow> server_info list) \<Rightarrow>
     topology \<Rightarrow> string \<Rightarrow> bayou_cluster \<Rightarrow> bool"
  for ops sorted_list segs as_set topo master where
  start: "bayou_start as_set topo master = Inr cl \<Longrightarrow> bayou_reachable ops sorted_list segs as_set topo master cl"
| step: "bayou_reachable ops sorted_list segs as_set topo master cl \<Longrightarrow>
    bayou_step ops sorted_list segs cl l = Some cl' \<Longrightarrow> bayou_reachable ops sorted_list segs as_set topo master cl'"

section \<open>One exchange\<close>

definition answered :: "json_message res \<Rightarrow> json_message option" where
  "answered r = (case rbind r (\<lambda>j. rbind (serialize j) (\<lambda>_. Inr j)) of Inl e \<Rightarrow> None | Inr j \<Rightarrow> Some j)"

lemma recv_nothing:
  "concat sock = [] \<Longrightarrow> \<exists>s. recv_message (\<lambda>_ _. Inr ()) tcp_recv sock = (Inr (MESSAGE_HEADER_INVALID, None), s)"
  using tcp.recvall_eof [of sock 8] by (auto simp: recv_message_def simp del: concat_eq_Nil_conv)

lemma recv_whole:
  assumes "wf_json m" "serialize m = Inr bs" "concat sock = bs"
  shows "\<exists>s. recv_message (\<lambda>_ _. Inr ()) tcp_recv sock = (Inr (MESSAGE_VALID, Some m), s)"
  using tcp.recv_message_result [OF assms(1,2), where s = sock and rest = "[]" and crit = "\<lambda>_ _. Inr ()"] assms(3) by auto

lemma serve_request:
  assumes p: "dict_get cl n = Some p" and m: "wf_json m" "serialize m = Inr bs" and sock: "concat sock = bs"
    and r: "bayou_process_req ops now (bp_server p) m = (r, s')"
  shows "bayou_serve ops now n sock cl =
    ((case rbind r serialize of Inl e \<Rightarrow> [] | Inr out \<Rightarrow> out), dict_set cl n (p\<lparr>bp_server := s'\<rparr>))"
proof -
  obtain t where "recv_message (\<lambda>_ _. Inr ()) tcp_recv sock = (Inr (MESSAGE_VALID, Some m), t)"
    using recv_whole [OF m sock] by blast
  then show ?thesis using p r by (auto simp: bayou_serve_def bayou_handle_client_def split: sum.split)
qed

text \<open>What a request gets back: the answer of the handler, or nothing when it raised.\<close>

lemma channel_request:
  assumes si: "listening cl si = Some n" and p: "dict_get cl n = Some p"
    and m: "wf_json m" "serialize m = Inr bs" and segs: "\<And>xs. concat (segs xs) = xs"
    and r: "bayou_process_req ops now (bp_server p) m = (r, s')" and wf: "\<And>j. r = Inr j \<Longrightarrow> wf_json j"
  shows "bayou_channel ops segs now si m cl = (answered r, dict_set cl n (p\<lparr>bp_server := s'\<rparr>))"
proof -
  note serve = serve_request [OF p m segs r]
  show ?thesis
  proof (cases "rbind r serialize")
    case (Inl e)
    obtain t where "recv_message (\<lambda>_ _. Inr ()) tcp_recv (segs []) = (Inr (MESSAGE_HEADER_INVALID, None), t)"
      using recv_nothing [of "segs []"] segs by blast
    then show ?thesis using si m serve Inl
      by (cases r) (auto simp: bayou_channel_def tcp_send_once_def bayou_connect_def bayou_sendall_def bayou_recv_def
          answered_def)
  next
    case (Inr out)
    then obtain j where j: "r = Inr j" "serialize j = Inr out" by (auto simp: rbind_eq_Inr)
    obtain t where "recv_message (\<lambda>_ _. Inr ()) tcp_recv (segs out) = (Inr (MESSAGE_VALID, Some j), t)"
      using recv_whole [OF wf [OF j(1)] j(2) segs] by blast
    then show ?thesis using si m serve Inr j
      by (simp add: bayou_channel_def tcp_send_once_def bayou_connect_def bayou_sendall_def bayou_recv_def answered_def)
  qed
qed

section \<open>Anti-entropy over a connection\<close>

lemma deserialize_logs_entries: "deserialize_logs self_name now (JArr (map entry_to_dict es)) = Inr es"
proof -
  have "msg_getitem (entry_to_dict e) ''req_type'' = Inr (JStr ''APPEND_CHAR'')" for e
    by (simp add: entry_to_dict_def dict_index_def)
  then have "rmap (\<lambda>e. rbind (msg_getitem e ''req_type'') (app_deserialize self_name now e)) (map entry_to_dict es) = Inr es"
    by (induction es) (simp_all add: entry_roundtrip)
  then show ?thesis by (simp add: deserialize_logs_def)
qed

definition logs_answer :: "app_log_entry list \<Rightarrow> app_log_entry list \<Rightarrow> json_message" where
  "logs_answer cs ts = JObj [(''committed'', JArr (map entry_to_dict cs)), (''tentative'', JArr (map entry_to_dict ts))]"

lemma wf_logs_answer:
  "\<forall>e \<in> set cs \<union> set ts. wf_json (le_char e) \<Longrightarrow> wf_json (logs_answer cs ts)"
  by (auto simp: logs_answer_def list_all_iff entry_to_dict_def ltime_serialize_def)

lemma wf_clock_obj: "wf_vtime v \<Longrightarrow> wf_json (clock_obj v)"
  by (auto simp: clock_obj_def vtime_to_dict_def wf_vtime_def list_all_iff comp_def case_prod_unfold)

lemma wf_anti_entropy_msg: "wf_vtime c \<Longrightarrow> wf_vtime f \<Longrightarrow> wf_json (anti_entropy_to_msg \<lparr>ae_c = c, ae_f = f\<rparr>)"
  by (simp add: anti_entropy_to_msg_def wf_clock_obj)

text \<open>The peer's side.\<close>

lemma anti_entropy_msg_dispatch:
  assumes "wf_vtime c" "wf_vtime f" "get_storage s = (st, s')"
  shows "bayou_process_req ops now s (anti_entropy_to_msg \<lparr>ae_c = c, ae_f = f\<rparr>) =
    (case op_anti_entropy ops c f st of
       Inl (AssertionError text) \<Rightarrow> (Inr (JObj [(''status'', JStr ''Err''), (''error'', JStr text)]), s')
     | Inl e \<Rightarrow> (Inl e, s')
     | Inr (cs, ts) \<Rightarrow> (Inr (logs_answer cs ts), s'))"
proof -
  have "anti_entropy_from_msg (JObj [(''c'', clock_obj c), (''f'', clock_obj f)]) = Inr \<lparr>ae_c = c, ae_f = f\<rparr>"
    using vtime_init_entries [OF assms(1)] vtime_init_entries [OF assms(2)]
    by (simp add: anti_entropy_from_msg_def clock_obj_def dict_index_def as_dict_def parse_clocks_obj)
  then show ?thesis
    using assms(3)
    by (simp add: bayou_process_req_def anti_entropy_to_msg_def dict_pop_def dict_index_def dispatch_def logs_answer_def
        split: sum.split exc.split prod.split)
qed

lemma get_storage_simps:
  assumes "get_storage s = (st, s')"
  shows "get_storage s' = (st, s')" "bs_name s' = bs_name s" "bs_stub s' = bs_stub s" "bs_is_master s' = bs_is_master s"
    "bs_peers s' = bs_peers s" "bs_state s' = bs_state s" "bs_storage s' = Some st"
  using assms by (auto simp: get_storage_def Let_def split: option.splits)

section \<open>What never changes\<close>

text \<open>The configuration of a server; the rest of its state is its storage, the severed peers and its thread.\<close>

definition bayou_config ::
  "bayou_proc \<Rightarrow> server_info \<times> string \<times> bool \<times> server_info list \<times> string \<times> (string, server_info) dict \<times> (string, server_info) dict"
where
  "bayou_config p =
     (bp_info p, bs_name (bp_server p), bs_is_master (bp_server p), bs_peers (bp_server p), bs_state (bp_server p),
      bc_connections (bs_stub (bp_server p)), bc_clients (bs_stub (bp_server p)))"

definition configs where
  "configs cl = map (\<lambda>(n, p). (n, bayou_config p)) cl"

lemma configs_set:
  "dict_get cl n = Some p \<Longrightarrow> bayou_config p' = bayou_config p \<Longrightarrow> configs (dict_set cl n p') = configs cl"
  by (induction cl) (auto simp: configs_def split: if_splits)

fun thread_peers :: "ae_thread \<Rightarrow> server_info list" where
  "thread_peers (Visiting peers) = peers"
| "thread_peers (Fetched cs ts peers) = peers"
| "thread_peers (Ended e) = []"

definition stub_ok :: "bayou_stub \<Rightarrow> bool" where
  "stub_ok st \<longleftrightarrow> set (bc_dc_servers st) \<subseteq> set (dict_keys (bc_connections st)) \<and> distinct (bc_dc_servers st)"

lemma sever_unsever_ok:
  assumes "sever_connection st peer = Inr st' \<or> unsever_connection st peer = Inr st'"
  shows "bc_connections st' = bc_connections st \<and> bc_clients st' = bc_clients st \<and> (stub_ok st \<longrightarrow> stub_ok st')"
proof -
  have "peer \<in> set (dict_keys (bc_connections st))" and
    "st' = st\<lparr>bc_dc_servers := (if peer \<in> set (bc_dc_servers st) then bc_dc_servers st else bc_dc_servers st @ [peer])\<rparr> \<or>
     st' = st\<lparr>bc_dc_servers := removeAll peer (bc_dc_servers st)\<rparr>"
    using assms by (auto simp: sever_connection_def unsever_connection_def rbind_eq_Inr py_assert_Inr split: if_splits)
  then show ?thesis
    by (elim disjE) (simp_all add: stub_ok_def distinct_removeAll, blast)
qed

lemma process_app_req_config:
  assumes "process_app_req ops now s m t = (r, s')"
  shows "bs_name s' = bs_name s \<and> bs_is_master s' = bs_is_master s \<and> bs_peers s' = bs_peers s \<and> bs_state s' = bs_state s \<and>
    bs_stub s' = bs_stub s"
  using assms
  by (auto simp: process_app_req_def respond_def get_storage_def Let_def split: if_splits sum.splits option.splits prod.splits)

lemma dispatch_config:
  assumes "dispatch ops now s t m = (r, s')"
  shows "bs_name s' = bs_name s \<and> bs_is_master s' = bs_is_master s \<and> bs_peers s' = bs_peers s \<and> bs_state s' = bs_state s \<and>
    bc_connections (bs_stub s') = bc_connections (bs_stub s) \<and> bc_clients (bs_stub s') = bc_clients (bs_stub s) \<and>
    (stub_ok (bs_stub s) \<longrightarrow> stub_ok (bs_stub s'))"
proof (cases "t = JNull \<or> t = JStr ''SEVER_CONN'' \<or> t = JStr ''UNSEVER_CONN'' \<or> t = JStr ''ANTI_ENTROPY''")
  case True
  then show ?thesis
  proof (elim disjE)
    assume "t = JNull"
    then show ?thesis using assms by (simp add: dispatch_def)
  next
    assume "t = JStr ''ANTI_ENTROPY''"
    then show ?thesis using assms
      by (auto simp: dispatch_def get_storage_def Let_def split: sum.splits prod.splits option.splits)
  next
    assume t: "t = JStr ''SEVER_CONN''"
    show ?thesis
    proof (cases "rbind (sever_peer_name m) (sever_connection (bs_stub s))")
      case (Inl e)
      then show ?thesis using assms t by (simp add: dispatch_def)
    next
      case (Inr st)
      then obtain peer where "sever_connection (bs_stub s) peer = Inr st" by (auto simp: rbind_eq_Inr)
      moreover have "s' = s\<lparr>bs_stub := st\<rparr>" using assms t Inr by (simp add: dispatch_def)
      ultimately show ?thesis using sever_unsever_ok [of "bs_stub s" peer st] by simp
    qed
  next
    assume t: "t = JStr ''UNSEVER_CONN''"
    show ?thesis
    proof (cases "rbind (unsever_peer_name m) (unsever_connection (bs_stub s))")
      case (Inl e)
      then show ?thesis using assms t by (simp add: dispatch_def)
    next
      case (Inr st)
      then obtain peer where "unsever_connection (bs_stub s) peer = Inr st" by (auto simp: rbind_eq_Inr)
      moreover have "s' = s\<lparr>bs_stub := st\<rparr>" using assms t Inr by (simp add: dispatch_def)
      ultimately show ?thesis using sever_unsever_ok [of "bs_stub s" peer st] by simp
    qed
  qed
next
  case False
  then have "process_app_req ops now s m t = (r, s')" using assms by (simp add: dispatch_def)
  from process_app_req_config [OF this] show ?thesis by simp
qed

lemma process_req_config:
  assumes "bayou_process_req ops now s m = (r, s')"
  shows "bs_name s' = bs_name s \<and> bs_is_master s' = bs_is_master s \<and> bs_peers s' = bs_peers s \<and> bs_state s' = bs_state s \<and>
    bc_connections (bs_stub s') = bc_connections (bs_stub s) \<and> bc_clients (bs_stub s') = bc_clients (bs_stub s) \<and>
    (stub_ok (bs_stub s) \<longrightarrow> stub_ok (bs_stub s'))"
proof (cases "msg_pop m ''type''")
  case (Inl e)
  then show ?thesis using assms by (simp add: bayou_process_req_def)
next
  case (Inr a)
  obtain t m' where a: "a = (t, m')" by fastforce
  obtain r0 s0 where d: "dispatch ops now s t m' = (r0, s0)" by fastforce
  then have "s' = s0" using assms Inr a by (auto simp: bayou_process_req_def split: sum.splits exc.splits)
  then show ?thesis using dispatch_config [OF d] by simp
qed

lemma handle_client_server:
  assumes "bayou_handle_client ops now s received = (r, s', out)"
  shows "s' = s \<or> (\<exists>m r. bayou_process_req ops now s m = (r, s'))"
  using assms by (auto simp: bayou_handle_client_def split: sum.splits option.splits prod.splits)

text \<open>The servers and their threads are well formed.\<close>

definition proc_ok :: "bayou_proc \<Rightarrow> bool" where
  "proc_ok p \<longleftrightarrow> stub_ok (bs_stub (bp_server p)) \<and> set (thread_peers (bp_thread p)) \<subseteq> set (bs_peers (bp_server p))"

definition cluster_ok :: "bayou_cluster \<Rightarrow> bool" where
  "cluster_ok cl \<longleftrightarrow> (\<forall>n p. dict_get cl n = Some p \<longrightarrow> proc_ok p)"

lemma serve_cases:
  assumes "bayou_serve ops now n sock cl = (out, cl')"
  obtains (refused) "cl' = cl" "dict_get cl n = None"
  | (served) p s' where "dict_get cl n = Some p" "cl' = dict_set cl n (p\<lparr>bp_server := s'\<rparr>)"
      "bayou_config (p\<lparr>bp_server := s'\<rparr>) = bayou_config p" "stub_ok (bs_stub (bp_server p)) \<longrightarrow> stub_ok (bs_stub s')"
      "s' = bp_server p \<or> (\<exists>m r. bayou_process_req ops now (bp_server p) m = (r, s'))"
proof (cases "dict_get cl n")
  case None
  then show ?thesis using assms refused by (simp add: bayou_serve_def)
next
  case (Some p)
  obtain r s' out' where h: "bayou_handle_client ops now (bp_server p) (fst (recv_message (\<lambda>_ _. Inr ()) tcp_recv sock)) = (r, s', out')"
    by (metis prod_cases3)
  have cl': "cl' = dict_set cl n (p\<lparr>bp_server := s'\<rparr>)" using assms Some h by (simp add: bayou_serve_def)
  note hs = handle_client_server [OF h]
  have same: "bs_name s' = bs_name (bp_server p) \<and> bs_is_master s' = bs_is_master (bp_server p) \<and>
      bs_peers s' = bs_peers (bp_server p) \<and> bs_state s' = bs_state (bp_server p) \<and>
      bc_connections (bs_stub s') = bc_connections (bs_stub (bp_server p)) \<and>
      bc_clients (bs_stub s') = bc_clients (bs_stub (bp_server p)) \<and> (stub_ok (bs_stub (bp_server p)) \<longrightarrow> stub_ok (bs_stub s'))"
    using hs process_req_config by blast
  show ?thesis by (rule served [OF Some cl' _ _ hs]) (use same in \<open>simp_all add: bayou_config_def\<close>)
qed

lemma cluster_ok_set: "cluster_ok cl \<Longrightarrow> proc_ok p \<Longrightarrow> cluster_ok (dict_set cl n p)"
  by (simp add: cluster_ok_def dict_simps)

lemma serve_config:
  assumes sv: "bayou_serve ops now n sock cl = (out, cl')"
  shows "configs cl' = configs cl" and "cluster_ok cl \<Longrightarrow> cluster_ok cl'"
proof -
  show "configs cl' = configs cl" using sv by (cases rule: serve_cases) (simp_all add: configs_set)
  show "cluster_ok cl'" if ok: "cluster_ok cl"
    using sv
  proof (cases rule: serve_cases)
    case (served p s')
    have "proc_ok p" using ok served(1) by (simp add: cluster_ok_def)
    then have "proc_ok (p\<lparr>bp_server := s'\<rparr>)" using served(3,4) by (simp add: proc_ok_def bayou_config_def)
    then show ?thesis using ok served(2) cluster_ok_set by simp
  qed (use ok in simp)
qed

lemma channel_cases:
  assumes "bayou_channel ops segs now si m cl = (r, cl')"
  shows "cl' = cl \<or> (\<exists>n sock out. bayou_serve ops now n sock cl = (out, cl'))"
  using assms
  by (auto simp: bayou_channel_def tcp_send_once_def bayou_connect_def bayou_sendall_def
      split: option.splits sum.splits prod.splits)

lemma channel_config:
  assumes "bayou_channel ops segs now si m cl = (r, cl')"
  shows "configs cl' = configs cl" and "cluster_ok cl \<Longrightarrow> cluster_ok cl'"
  using channel_cases [OF assms] serve_config by auto

lemma configs_get:
  "configs cl' = configs cl \<Longrightarrow> dict_get cl n = Some p \<Longrightarrow> \<exists>p'. dict_get cl' n = Some p' \<and> bayou_config p' = bayou_config p"
proof -
  have "map_of (configs c) n = map_option bayou_config (dict_get c n)" for c
    by (induction c) (auto simp: configs_def)
  then show "configs cl' = configs cl \<Longrightarrow> dict_get cl n = Some p \<Longrightarrow>
      \<exists>p'. dict_get cl' n = Some p' \<and> bayou_config p' = bayou_config p"
    by (metis map_option_eq_Some)
qed

lemma send_anti_entropy_world:
  assumes "send_anti_entropy sorted_list (bayou_channel ops segs now) now s peer cl = (r, s', cl')"
  shows "s' = snd (get_storage s) \<and> (cl' = cl \<or> (\<exists>si m r. bayou_channel ops segs now si m cl = (r, cl')))"
  using assms
  by (auto simp: send_anti_entropy_def bayou_stub_send_def split: prod.splits option.splits if_splits)

lemma get_storage_config: "bayou_config (p\<lparr>bp_server := snd (get_storage (bp_server p)), bp_thread := th\<rparr>) = bayou_config p"
  by (simp add: bayou_config_def get_storage_def Let_def split: option.split)

lemma get_storage_severed: "bs_stub (snd (get_storage s)) = bs_stub s"
  by (simp add: get_storage_def Let_def split: option.split)

lemma ae_step_config:
  assumes st: "ae_step ops sorted_list segs now n cl = Some cl'" and ok: "cluster_ok cl"
  shows "configs cl' = configs cl \<and> cluster_ok cl'"
proof -
  obtain p where p: "dict_get cl n = Some p" using st by (auto simp: ae_step_def split: option.splits)
  have okp: "proc_ok p" using ok p by (simp add: cluster_ok_def)
  have put: "configs (dict_set c n p') = configs cl \<and> cluster_ok (dict_set c n p')"
    if c: "configs c = configs cl" "cluster_ok c" "bayou_config p' = bayou_config p" "proc_ok p'" for c p'
  proof -
    obtain q where "dict_get c n = Some q" "bayou_config q = bayou_config p" using configs_get [OF c(1) p] by blast
    then show ?thesis using configs_set [of c n q p'] c cluster_ok_set by simp
  qed
  show ?thesis
  proof (cases "bp_thread p")
    case (Ended e)
    then show ?thesis using st p by (simp add: ae_step_def)
  next
    case (Fetched cs ts peers)
    obtain r st' where ap: "op_apply ops cs ts (fst (get_storage (bp_server p))) = (r, st')" by fastforce
    let ?p = "p\<lparr>bp_server := (snd (get_storage (bp_server p)))\<lparr>bs_storage := Some st'\<rparr>, bp_thread :=
      (case r of Inl e \<Rightarrow> after_visit e peers | Inr _ \<Rightarrow> Visiting peers)\<rparr>"
    have "cl' = dict_set cl n ?p" using st p Fetched ap by (simp add: ae_step_def case_prod_unfold)
    moreover have "bayou_config ?p = bayou_config p"
      by (simp add: bayou_config_def get_storage_def Let_def split: option.split)
    moreover have "proc_ok ?p" using okp Fetched
      by (auto simp: proc_ok_def get_storage_def Let_def after_visit_def split: option.split sum.split)
    ultimately show ?thesis using put [OF refl ok] by simp
  next
    case (Visiting ps)
    show ?thesis
    proof (cases ps)
      case Nil
      then have "cl' = dict_set cl n (p\<lparr>bp_thread := Visiting (bs_peers (bp_server p))\<rparr>)"
        using st p Visiting by (simp add: ae_step_def)
      then show ?thesis using put [OF refl ok] okp by (simp add: bayou_config_def proc_ok_def)
    next
      case (Cons peer peers)
      show ?thesis
      proof (cases "si_name peer = bs_name (bp_server p)")
        case True
        then have "cl' = dict_set cl n (p\<lparr>bp_thread := Visiting peers\<rparr>)"
          using st p Visiting Cons by (simp add: ae_step_def)
        then show ?thesis using put [OF refl ok] okp Visiting Cons by (simp add: bayou_config_def proc_ok_def)
      next
        case False
        obtain r s' c where sa: "send_anti_entropy sorted_list (bayou_channel ops segs now) now (bp_server p) (si_name peer) cl = (r, s', c)"
          by (metis prod_cases3)
        let ?th = "case r of Inl e \<Rightarrow> after_visit e peers | Inr (cs, ts) \<Rightarrow> Fetched cs ts peers"
        have cl': "cl' = dict_set c n (p\<lparr>bp_server := s', bp_thread := ?th\<rparr>)"
          using st p Visiting Cons False sa by (simp add: ae_step_def)
        note w = send_anti_entropy_world [OF sa]
        have "configs c = configs cl" "cluster_ok c" using w channel_config ok by auto
        moreover have "bayou_config (p\<lparr>bp_server := s', bp_thread := ?th\<rparr>) = bayou_config p"
          using w get_storage_config by simp
        moreover have "proc_ok (p\<lparr>bp_server := s', bp_thread := ?th\<rparr>)"
        proof -
          have "bs_peers s' = bs_peers (bp_server p)" using w by (simp add: get_storage_def Let_def split: option.split)
          then show ?thesis using okp Visiting Cons w get_storage_severed
            by (auto simp: proc_ok_def after_visit_def split: sum.split)
        qed
        ultimately show ?thesis using put cl' by simp
      qed
    qed
  qed
qed

lemma bayou_step_config:
  assumes "bayou_step ops sorted_list segs cl l = Some cl'" "cluster_ok cl"
  shows "configs cl' = configs cl \<and> cluster_ok cl'"
proof (cases l)
  case (ClientBytes n sock now)
  then obtain out where "bayou_serve ops now n sock cl = (out, cl')"
    using assms(1) by (cases "bayou_serve ops now n sock cl") (auto split: if_splits)
  then show ?thesis using serve_config assms(2) by blast
next
  case (AntiEntropy n now)
  then show ?thesis using ae_step_config assms by simp
qed

section \<open>The start\<close>

lemma make_servers_entry:
  assumes "bayou_make_servers create topo = Inr cl" "dict_get cl n = Some srv"
  shows "\<exists>si tos. create si (bayou_stub_init tos) = Inr srv \<and> si_name si = n"
proof -
  let ?step = "\<lambda>(_ :: string, si) r. rbind r (\<lambda>d. rbind (dict_index (complete_topology topo) si) (\<lambda>tos.
      rbind (create si (bayou_stub_init tos)) (\<lambda>srv. Inr (dict_set d (si_name si) srv))))"
  define Q where "Q r \<longleftrightarrow> (\<forall>d n srv. r = Inr d \<longrightarrow> dict_get d n = Some srv \<longrightarrow>
      (\<exists>si tos. create si (bayou_stub_init tos) = Inr srv \<and> si_name si = n))" for r :: "(string, 'a) dict res"
  have step: "Q r \<Longrightarrow> Q (?step x r)" for x :: "string \<times> server_info" and r
    by (cases r) (auto simp: Q_def rbind_eq_Inr dict_simps split: prod.splits if_splits, blast)
  have "Q r \<Longrightarrow> Q (fold ?step xs r)" for xs r
  proof (induction xs arbitrary: r)
    case (Cons x xs)
    then show ?case using step [of r x] by simp
  qed simp
  moreover have "Q (Inr [])" by (simp add: Q_def)
  ultimately have "Q (bayou_make_servers create topo)" by (simp add: bayou_make_servers_def)
  then show ?thesis using assms by (simp add: Q_def)
qed

lemma entries_fold:
  "\<forall>p \<in> set d. fst p = si_name (snd p) \<Longrightarrow>
   \<forall>p \<in> set (fold (\<lambda>si d. dict_set d (si_name si) si) xs d). fst p = si_name (snd p)"
proof (induction xs arbitrary: d)
  case (Cons x xs)
  have "\<forall>p \<in> set (dict_set d (si_name x) x). fst p = si_name (snd p)"
    using Cons.prems set_dict_set [of "si_name x" x d] by fastforce
  then show ?case using Cons.IH by simp
qed simp

lemma distinct_fold: "distinct (map fst d) \<Longrightarrow> distinct (map fst (fold (\<lambda>si d. dict_set d (si_name si) si) xs d))"
  by (induction xs arbitrary: d) (simp_all add: AList.distinct_update)

lemma clients_are_connections:
  "bc_clients (bayou_initalize_connections (bayou_stub_init tos)) = bc_connections (bayou_stub_init tos)"
proof -
  let ?d = "fold (\<lambda>si d. dict_set d (si_name si) si) tos []"
  have app: "fold (\<lambda>(_, si) d. dict_set d (si_name si) si) w u = u @ w"
    if "distinct (map fst (u @ w))" "\<forall>p \<in> set w. fst p = si_name (snd p)" for u w :: "(string, server_info) dict"
    using that
  proof (induction w arbitrary: u)
    case (Cons p w)
    obtain k si where p: "p = (k, si)" by fastforce
    have "dict_set u k si = u @ [(k, si)]" using Cons.prems(1) by (induction u) (auto simp: p)
    then show ?case using Cons p by auto
  qed simp
  have "distinct (map fst ?d)" "\<forall>p \<in> set ?d. fst p = si_name (snd p)"
    using distinct_fold [of "[]"] entries_fold [of "[]"] by simp_all
  then show ?thesis using app [of "[]" ?d] by (simp add: bayou_initalize_connections_def bayou_stub_init_def)
qed

text \<open>How a server and its thread begin.\<close>

definition fresh_proc :: "(server_info list \<Rightarrow> server_info list) \<Rightarrow> topology \<Rightarrow> string \<Rightarrow> string \<Rightarrow> bayou_proc \<Rightarrow> bool" where
  "fresh_proc as_set topo master n p \<longleftrightarrow>
     si_name (bp_info p) = n \<and> bs_name (bp_server p) = n \<and> bs_is_master (bp_server p) = (n = master) \<and>
     bs_peers (bp_server p) = bayou_peers as_set topo \<and> bs_state (bp_server p) = '''' \<and>
     bc_clients (bs_stub (bp_server p)) = bc_connections (bs_stub (bp_server p)) \<and>
     bs_storage (bp_server p) = None \<and> bc_dc_servers (bs_stub (bp_server p)) = [] \<and> bp_thread p = Visiting []"

lemma start_fresh:
  assumes "bayou_start as_set topo master = Inr cl" "dict_get cl n = Some p"
  shows "fresh_proc as_set topo master n p"
proof -
  have ms: "bayou_make_servers (\<lambda>si stub. rbind (bayou_create_server ''app'' master (bayou_peers as_set topo) si stub)
      (\<lambda>s. Inr (bayou_run_start si s))) topo = Inr cl"
    using assms(1) by (simp add: bayou_start_def)
  obtain si tos where si: "si_name si = n" and
    p: "rbind (bayou_create_server ''app'' master (bayou_peers as_set topo) si (bayou_stub_init tos))
      (\<lambda>s. Inr (bayou_run_start si s)) = Inr p"
    using make_servers_entry [OF ms assms(2)] by blast
  have "p = bayou_run_start si (bayou_server_init si (bayou_stub_init tos) (n = master) (bayou_peers as_set topo))"
    using p si by (simp add: bayou_create_server_def)
  moreover have "bc_connections (bayou_initalize_connections st) = bc_connections st"
    "bc_dc_servers (bayou_initalize_connections st) = bc_dc_servers st" for st
    by (simp_all add: bayou_initalize_connections_def)
  ultimately show ?thesis
    by (simp add: fresh_proc_def bayou_run_start_def bayou_server_init_def si clients_are_connections)
      (simp add: bayou_stub_init_def)
qed

lemma fresh_ok: "fresh_proc as_set topo master n p \<Longrightarrow> proc_ok p"
  by (simp add: fresh_proc_def proc_ok_def stub_ok_def)

lemma bayou_reachable_config:
  assumes "bayou_reachable ops sorted_list segs as_set topo master cl"
  shows "cluster_ok cl \<and> (\<exists>cl0. bayou_start as_set topo master = Inr cl0 \<and> configs cl = configs cl0)"
  using assms
proof induction
  case (start cl)
  then show ?case using start_fresh fresh_ok by (fastforce simp: cluster_ok_def)
next
  case (step cl l cl')
  then show ?case using bayou_step_config [OF step(2)] by metis
qed

lemma server_config:
  assumes "bayou_reachable ops sorted_list segs as_set topo master cl" and "dict_get cl n = Some p"
  shows "si_name (bp_info p) = n \<and> bs_name (bp_server p) = n \<and> bs_is_master (bp_server p) = (n = master) \<and>
    bs_peers (bp_server p) = bayou_peers as_set topo \<and> bs_state (bp_server p) = '''' \<and>
    bc_clients (bs_stub (bp_server p)) = bc_connections (bs_stub (bp_server p)) \<and> proc_ok p"
proof -
  obtain cl0 where cl0: "bayou_start as_set topo master = Inr cl0" and same: "configs cl = configs cl0" and ok: "cluster_ok cl"
    using bayou_reachable_config [OF assms(1)] by blast
  obtain q where q: "dict_get cl0 n = Some q" and eq: "bayou_config q = bayou_config p"
    using configs_get [OF same [symmetric] assms(2)] by blast
  have "fresh_proc as_set topo master n q" by (rule start_fresh [OF cl0 q])
  moreover have "proc_ok p" using ok assms(2) by (simp add: cluster_ok_def)
  ultimately show ?thesis using eq by (auto simp: fresh_proc_def bayou_config_def)
qed

lemma chk_invariants_init: "chk_invariants (storage_init servers st) = Inr ()"
proof -
  have "is_vtime_earlier (vtime_new servers) (vtime_new servers) = Inr True"
    by (simp add: is_vtime_earlier_iff wf_vtime_new clock_le_refl)
  moreover have "vtime_eq (vtime_new servers) (vtime_new servers) = Inr True"
    by (simp add: vtime_eq_True wf_vtime_new)
  ultimately show ?thesis by (simp add: chk_invariants_def storage_init_def)
qed

section \<open>The storage of the repository\<close>

definition untouched :: "bayou_server \<Rightarrow> bool" where
  "untouched s \<longleftrightarrow> (\<forall>st. bs_storage s = Some st \<longrightarrow> st = storage_init (map si_name (bs_peers s)) (bs_state s))"

lemma untouched_storage:
  assumes "untouched s" "get_storage s = (st, s')"
  shows "st = storage_init (map si_name (bs_peers s)) (bs_state s)" "untouched s'" "untouched (s'\<lparr>bs_storage := Some st\<rparr>)"
  using assms by (auto simp: untouched_def get_storage_def Let_def split: option.splits)

lemma untouched_respond: "untouched s \<Longrightarrow> respond s m t = (r, s') \<Longrightarrow> untouched s'"
  using untouched_storage (2) [of s] by (auto simp: respond_def split: if_splits prod.splits)

lemma starter_write:
  "(if b then storage_commit starter_ops [e] st else storage_tentative starter_ops [e] st) = (Inl TypeError, st)"
  by (simp add: storage_commit_def storage_tentative_def starter_ops_def storage_apply_def)

lemma untouched_app_req:
  assumes "process_app_req starter_ops now s m t = (r, s')" "untouched s"
  shows "untouched s'"
proof -
  obtain r0 s0 where s0: "respond s m t = (r0, s0)" by fastforce
  have u0: "untouched s0" by (rule untouched_respond [OF assms(2) s0])
  obtain st s1 where g: "get_storage s0 = (st, s1)" by fastforce
  have "s' = s0 \<or> s' = s1\<lparr>bs_storage := Some st\<rparr>"
    using assms(1) s0 g
    by (auto simp: process_app_req_def starter_write split: option.splits sum.splits)
  then show ?thesis using u0 untouched_storage(3) [OF u0 g] by auto
qed

lemma untouched_dispatch:
  assumes "dispatch starter_ops now s t m = (r, s')" "untouched s"
  shows "untouched s'"
proof (cases "t = JNull \<or> t = JStr ''SEVER_CONN'' \<or> t = JStr ''UNSEVER_CONN'' \<or> t = JStr ''ANTI_ENTROPY''")
  case True
  have stub: "untouched (s\<lparr>bs_stub := x\<rparr>)" for x using assms(2) by (simp add: untouched_def)
  obtain st s1 where g: "get_storage s = (st, s1)" by fastforce
  have "s' = s \<or> s' = s1 \<or> (\<exists>x. s' = s\<lparr>bs_stub := x\<rparr>)"
    using assms(1) True g by (elim disjE) (auto simp: dispatch_def split: sum.splits)
  then show ?thesis using assms(2) stub untouched_storage(2) [OF assms(2) g] by auto
next
  case False
  then have "process_app_req starter_ops now s m t = (r, s')" using assms(1) by (simp add: dispatch_def)
  then show ?thesis using untouched_app_req assms(2) by blast
qed

lemma untouched_process_req:
  assumes "bayou_process_req starter_ops now s m = (r, s')" "untouched s"
  shows "untouched s'"
proof (cases "msg_pop m ''type''")
  case (Inl e)
  then show ?thesis using assms by (simp add: bayou_process_req_def)
next
  case (Inr a)
  obtain t m' where a: "a = (t, m')" by fastforce
  obtain r0 s0 where d: "dispatch starter_ops now s t m' = (r0, s0)" by fastforce
  then have "s' = s0" using assms(1) Inr a by (auto simp: bayou_process_req_def split: sum.splits exc.splits)
  then show ?thesis using untouched_dispatch [OF d assms(2)] by simp
qed

text \<open>No storage is ever changed and no thread ever has an answer to apply.\<close>

definition silent :: "bayou_proc \<Rightarrow> bool" where
  "silent p \<longleftrightarrow> untouched (bp_server p) \<and> (case bp_thread p of Fetched cs ts peers \<Rightarrow> False | _ \<Rightarrow> True)"

definition all_silent :: "bayou_cluster \<Rightarrow> bool" where
  "all_silent cl \<longleftrightarrow> (\<forall>n p. dict_get cl n = Some p \<longrightarrow> silent p)"

lemma all_silent_set: "all_silent cl \<Longrightarrow> silent p \<Longrightarrow> all_silent (dict_set cl n p)"
  by (simp add: all_silent_def dict_simps)

lemma silent_serve:
  assumes sv: "bayou_serve starter_ops now n sock cl = (out, cl')" and si: "all_silent cl"
  shows "all_silent cl'"
  using sv
proof (cases rule: serve_cases)
  case (served p s')
  have p: "silent p" using si served(1) by (simp add: all_silent_def)
  have "untouched s'" using served(5) p untouched_process_req by (auto simp: silent_def)
  then have "silent (p\<lparr>bp_server := s'\<rparr>)" using p by (simp add: silent_def)
  then show ?thesis using si served(2) all_silent_set by simp
qed (use si in simp)

lemma silent_channel: "bayou_channel starter_ops segs now si m cl = (r, cl') \<Longrightarrow> all_silent cl \<Longrightarrow> all_silent cl'"
  using channel_cases silent_serve by blast

text \<open>What a request for anti-entropy gets back.\<close>

lemma listening_get: "listening cl si = Some n \<Longrightarrow> \<exists>p. dict_get cl n = Some p"
  by (induction cl) (auto split: if_splits)

lemma listening_set:
  assumes "listening cl si = Some n" "dict_get cl n = Some p" "bp_info p' = bp_info p"
  shows "listening (dict_set cl n p') si = Some n"
  using assms by (induction cl) (auto split: if_splits)

lemma starter_anti_entropy_request:
  assumes wf: "wf_vtime c" "wf_vtime f" and segs: "\<And>xs. concat (segs xs) = xs"
    and ch: "bayou_channel starter_ops segs now si (anti_entropy_to_msg \<lparr>ae_c = c, ae_f = f\<rparr>) cl = (r, cl')"
  shows "r = None"
proof (cases "listening cl si")
  case None
  then show ?thesis using ch by (simp add: bayou_channel_def tcp_send_once_def bayou_connect_def)
next
  case (Some n)
  then obtain p where p: "dict_get cl n = Some p" using listening_get by blast
  let ?m = "anti_entropy_to_msg \<lparr>ae_c = c, ae_f = f\<rparr>"
  show ?thesis
  proof (cases "serialize ?m")
    case (Inl e)
    then show ?thesis using ch Some by (simp add: bayou_channel_def tcp_send_once_def bayou_connect_def bayou_sendall_def)
  next
    case (Inr bs)
    obtain st s1 where g: "get_storage (bp_server p) = (st, s1)" by fastforce
    have "op_anti_entropy starter_ops c f st = Inl TypeError" by (simp add: starter_ops_def storage_anti_entropy_def)
    then have "bayou_process_req starter_ops now (bp_server p) ?m = (Inl TypeError, s1)"
      using anti_entropy_msg_dispatch [OF wf g] by simp
    from channel_request [where segs = segs, OF Some p wf_anti_entropy_msg [OF wf] Inr segs this]
    show ?thesis using ch by (simp add: answered_def)
  qed
qed

text \<open>One visit of a peer.\<close>

lemma starter_visit:
  assumes segs: "\<And>xs. concat (segs xs) = xs" and u: "untouched s"
    and sa: "send_anti_entropy sorted_list (bayou_channel starter_ops segs now) now s peer cl = (r, s', cl')"
  shows "r = Inl SimulatedConnectionError \<and> peer \<in> set (bc_dc_servers (bs_stub s)) \<or>
    peer \<notin> set (bc_dc_servers (bs_stub s)) \<and> (\<exists>text. r = Inl (AssertionError text)) \<or>
    dict_get (bc_clients (bs_stub s)) peer = None \<and> (\<exists>text. r = Inl (AssertionError text))"
proof -
  obtain st s1 where g: "get_storage s = (st, s1)" by fastforce
  have wf: "wf_vtime (st_c st)" "wf_vtime (st_f st)"
    using untouched_storage(1) [OF u g] by (simp_all add: storage_init_def wf_vtime_new)
  have s1: "bs_stub s1 = bs_stub s" using get_storage_simps [OF g] by simp
  show ?thesis
  proof (cases "dict_get (bc_clients (bs_stub s)) peer")
    case None
    then show ?thesis using sa by (auto simp: send_anti_entropy_def g s1 bayou_stub_send_def)
  next
    case (Some si)
    show ?thesis
    proof (cases "peer \<in> set (bc_dc_servers (bs_stub s))")
      case True
      then show ?thesis using sa Some by (auto simp: send_anti_entropy_def g s1 bayou_stub_send_def)
    next
      case False
      obtain a c where ch: "bayou_channel starter_ops segs now si (anti_entropy_to_msg \<lparr>ae_c = st_c st, ae_f = st_f st\<rparr>) cl = (a, c)"
        by fastforce
      then have "a = None" using starter_anti_entropy_request [where segs = segs, OF wf segs ch] by simp
      then show ?thesis using sa ch Some False by (auto simp: send_anti_entropy_def g s1 bayou_stub_send_def)
    qed
  qed
qed

lemma silent_ae_step:
  assumes segs: "\<And>xs. concat (segs xs) = xs" and st: "ae_step starter_ops sorted_list segs now n cl = Some cl'"
    and si: "all_silent cl"
  shows "all_silent cl'"
proof -
  obtain p where p: "dict_get cl n = Some p" using st by (auto simp: ae_step_def split: option.splits)
  have sp: "silent p" using si p by (simp add: all_silent_def)
  show ?thesis
  proof (cases "bp_thread p")
    case (Visiting ps)
    show ?thesis
    proof (cases "ps = [] \<or> si_name (hd ps) = bs_name (bp_server p)")
      case True
      then obtain ps' where "cl' = dict_set cl n (p\<lparr>bp_thread := Visiting ps'\<rparr>)"
        using st p Visiting by (cases ps) (auto simp: ae_step_def)
      then show ?thesis using si sp by (simp add: all_silent_set silent_def)
    next
      case False
      then obtain peer peers where ps: "ps = peer # peers" "si_name peer \<noteq> bs_name (bp_server p)" by (cases ps) auto
      obtain r s' c where sa: "send_anti_entropy sorted_list (bayou_channel starter_ops segs now) now (bp_server p) (si_name peer) cl = (r, s', c)"
        by (metis prod_cases3)
      have u: "untouched (bp_server p)" using sp by (simp add: silent_def)
      obtain e where r: "r = Inl e" using starter_visit [where segs = segs, OF segs u sa] by auto
      have cl': "cl' = dict_set c n (p\<lparr>bp_server := s', bp_thread := after_visit e peers\<rparr>)"
        using st p Visiting ps sa r by (simp add: ae_step_def)
      note w = send_anti_entropy_world [OF sa]
      have "all_silent c" using w si silent_channel by auto
      moreover have "untouched s'" using w u untouched_storage(2) [of "bp_server p"] by (metis prod.collapse)
      ultimately show ?thesis using cl' by (simp add: all_silent_set silent_def after_visit_def)
    qed
  qed (use st p sp in \<open>simp_all add: ae_step_def silent_def\<close>)
qed

lemma silent_reachable:
  assumes segs: "\<And>xs. concat (segs xs) = xs"
    and "bayou_reachable starter_ops sorted_list segs as_set topo master cl"
  shows "all_silent cl"
  using assms(2)
proof induction
  case (start cl)
  then show ?case using start_fresh by (fastforce simp: all_silent_def silent_def untouched_def fresh_proc_def)
next
  case (step cl l cl')
  show ?case
  proof (cases l)
    case (ClientBytes n sock now)
    then obtain out where "bayou_serve starter_ops now n sock cl = (out, cl')"
      using step(2) by (cases "bayou_serve starter_ops now n sock cl") (auto split: if_splits)
    then show ?thesis using silent_serve step.IH by blast
  next
    case (AntiEntropy n now)
    then show ?thesis using silent_ae_step [where segs = segs, OF segs] step by simp
  qed
qed

section \<open>A cluster of two\<close>

definition demo_a :: server_info where "demo_a = \<lparr>si_name = ''a'', si_host = ''localhost'', si_port = 9000\<rparr>"
definition demo_b :: server_info where "demo_b = \<lparr>si_name = ''b'', si_host = ''localhost'', si_port = 9001\<rparr>"

definition demo_topology :: topology where
  "demo_topology = [(demo_a, [demo_b]), (demo_b, [demo_a])]"

definition demo_proc :: "server_info \<Rightarrow> server_info \<Rightarrow> storage option \<Rightarrow> ae_thread \<Rightarrow> bayou_proc" where
  "demo_proc si peer st th =
     \<lparr>bp_info = si,
      bp_server = \<lparr>bs_name = si_name si, bs_is_master = (si_name si = ''a''), bs_peers = [demo_a, demo_b], bs_state = '''',
        bs_storage = st,
        bs_stub = \<lparr>bc_connections = [(si_name peer, peer)], bc_clients = [(si_name peer, peer)], bc_dc_servers = []\<rparr>\<rparr>,
      bp_thread = th\<rparr>"

text \<open>A log for the storage, and operations that ship and append whole logs.\<close>

definition demo_storage :: "string \<Rightarrow> storage" where
  "demo_storage w = (storage_init [''a'', ''b''] '''')\<lparr>st_committed_log :=
     map (\<lambda>c. \<lparr>le_ltime = LogicalTime ''a'' 1, le_char = JStr [c]\<rparr>) w, st_committed_st := w\<rparr>"

definition demo_ops :: storage_ops where
  "demo_ops =
     \<lparr>op_apply = (\<lambda>cs ts st. (Inr (), st\<lparr>st_committed_log := st_committed_log st @ cs, st_tentative_log := ts,
        st_committed_st := concat (map (\<lambda>e. py_str (le_char e)) (st_committed_log st @ cs))\<rparr>)),
      op_anti_entropy = (\<lambda>c f st. Inr (st_committed_log st, st_tentative_log st))\<rparr>"

lemma demo_start: "bayou_start id demo_topology ''a'' =
    Inr [(''a'', demo_proc demo_a demo_b None (Visiting [])), (''b'', demo_proc demo_b demo_a None (Visiting []))]"
  by code_simp

section \<open>Properties\<close>

text \<open>
  C12. In every reachable state of a cluster, whatever clients send and whatever the storage operations do, every
  server has the name it was created with, only the master is the master, all have the same peers in the same order, a
  client for every connection, only peers of its own severed and none of them twice, and its thread visits peers only.
\<close>

theorem bayou_typed:
  assumes "bayou_reachable ops sorted_list segs as_set topo master cl" and "dict_get cl n = Some p"
  shows "si_name (bp_info p) = n \<and> bs_name (bp_server p) = n \<and> bs_is_master (bp_server p) = (n = master) \<and>
    bs_peers (bp_server p) = bayou_peers as_set topo \<and>
    bc_clients (bs_stub (bp_server p)) = bc_connections (bs_stub (bp_server p)) \<and>
    set (bc_dc_servers (bs_stub (bp_server p))) \<subseteq> all_peer_names (bs_stub (bp_server p)) \<and>
    distinct (bc_dc_servers (bs_stub (bp_server p))) \<and>
    set (thread_peers (bp_thread p)) \<subseteq> set (bayou_peers as_set topo)"
  using server_config [OF assms] by (auto simp: proc_ok_def stub_ok_def all_peer_names_def)

theorem bayou_typed_witness:
  "\<exists>cl' p. bayou_step demo_ops id (\<lambda>xs. [xs])
      [(''a'', demo_proc demo_a demo_b None (Visiting [])), (''b'', demo_proc demo_b demo_a None (Visiting []))]
      (AntiEntropy ''b'' 0) = Some cl' \<and> dict_get cl' ''b'' = Some p \<and>
    bs_is_master (bp_server p) = False \<and> thread_peers (bp_thread p) = [demo_a, demo_b]"
proof -
  let ?cl = "[(''a'', demo_proc demo_a demo_b None (Visiting [])), (''b'', demo_proc demo_b demo_a None (Visiting []))]"
  let ?p = "demo_proc demo_b demo_a None (Visiting [demo_a, demo_b])"
  have st: "bayou_step demo_ops id (\<lambda>xs. [xs]) ?cl (AntiEntropy ''b'' 0) =
      Some [(''a'', demo_proc demo_a demo_b None (Visiting [])), (''b'', ?p)]"
    by (simp add: ae_step_def demo_proc_def)
  have "bayou_reachable demo_ops id (\<lambda>xs. [xs]) id demo_topology ''a''
      [(''a'', demo_proc demo_a demo_b None (Visiting [])), (''b'', ?p)]"
    by (rule bayou_reachable.step [OF bayou_reachable.start [OF demo_start] st])
  from bayou_typed [OF this, of "''b''" ?p] st show ?thesis by (simp add: demo_proc_def)
qed





text \<open>
  C35. With the storage that the repository ships no cluster ever shows a write: in every reachable state every
  storage is as it was created and passes the invariant check, no thread has an answer to apply, and the visit of
  any peer that is not severed ends the anti-entropy thread with an assertion error, whoever listens there.
\<close>

theorem starter_never_writes:
  assumes segs: "\<And>xs. concat (segs xs) = xs"
    and reach: "bayou_reachable starter_ops sorted_list segs as_set topo master cl" and p: "dict_get cl n = Some p"
  shows "fst (get_storage (bp_server p)) = storage_init (map si_name (bayou_peers as_set topo)) '''' \<and>
    chk_invariants (fst (get_storage (bp_server p))) = Inr () \<and>
    (case bp_thread p of Fetched cs ts peers \<Rightarrow> False | Ended e \<Rightarrow> True
     | Visiting [] \<Rightarrow> True
     | Visiting (peer # peers) \<Rightarrow>
         si_name peer \<noteq> n \<and> si_name peer \<notin> set (bc_dc_servers (bs_stub (bp_server p))) \<longrightarrow>
         (\<exists>cl' q text. bayou_step starter_ops sorted_list segs cl (AntiEntropy n now) = Some cl' \<and>
            dict_get cl' n = Some q \<and> bp_thread q = Ended (AssertionError text)))"
proof -
  have sp: "silent p" using silent_reachable [where segs = segs, OF segs reach] p by (simp add: all_silent_def)
  have cfg: "bs_name (bp_server p) = n" "bs_peers (bp_server p) = bayou_peers as_set topo" "bs_state (bp_server p) = ''''"
    using server_config [OF reach p] by simp_all
  obtain st s1 where g: "get_storage (bp_server p) = (st, s1)" by fastforce
  have st: "st = storage_init (map si_name (bayou_peers as_set topo)) ''''"
    using untouched_storage(1) [OF _ g] sp cfg by (simp add: silent_def)
  have "chk_invariants st = Inr ()"
    using chk_invariants_init st by simp
  moreover have "\<exists>cl' q text. bayou_step starter_ops sorted_list segs cl (AntiEntropy n now) = Some cl' \<and>
      dict_get cl' n = Some q \<and> bp_thread q = Ended (AssertionError text)"
    if v: "bp_thread p = Visiting (peer # peers)" "si_name peer \<noteq> n"
      "si_name peer \<notin> set (bc_dc_servers (bs_stub (bp_server p)))" for peer peers
  proof -
    obtain r s' c where sa: "send_anti_entropy sorted_list (bayou_channel starter_ops segs now) now (bp_server p) (si_name peer) cl = (r, s', c)"
      by (metis prod_cases3)
    obtain why where "r = Inl (AssertionError why)"
      using starter_visit [where segs = segs, OF segs _ sa] sp v by (auto simp: silent_def)
    then show ?thesis using sa p v cfg by (simp add: ae_step_def after_visit_def dict_simps)
  qed
  ultimately show ?thesis
    using sp g st by (auto simp: silent_def split: ae_thread.split list.split)
qed

theorem starter_never_writes_witness:
  "\<exists>cl' q why. bayou_step starter_ops id (\<lambda>xs. [xs])
      [(''a'', demo_proc demo_a demo_b None (Visiting [])), (''b'', demo_proc demo_b demo_a None (Visiting [demo_a, demo_b]))]
      (AntiEntropy ''b'' 0) = Some cl' \<and> dict_get cl' ''b'' = Some q \<and> bp_thread q = Ended (AssertionError why)"
proof -
  let ?cl = "[(''a'', demo_proc demo_a demo_b None (Visiting [])), (''b'', demo_proc demo_b demo_a None (Visiting []))]"
  let ?p = "demo_proc demo_b demo_a None (Visiting [demo_a, demo_b])"
  have st: "bayou_step starter_ops id (\<lambda>xs. [xs]) ?cl (AntiEntropy ''b'' 0) =
      Some [(''a'', demo_proc demo_a demo_b None (Visiting [])), (''b'', ?p)]"
    by (simp add: ae_step_def demo_proc_def)
  have "bayou_reachable starter_ops id (\<lambda>xs. [xs]) id demo_topology ''a''
      [(''a'', demo_proc demo_a demo_b None (Visiting [])), (''b'', ?p)]"
    by (rule bayou_reachable.step [OF bayou_reachable.start [OF demo_start] st])
  from starter_never_writes [OF _ this, of "''b''" ?p 0] show ?thesis by (simp add: demo_proc_def demo_a_def)
qed


lemma length_dumps_char: "length (dumps_char c) \<le> 6"
  by (simp add: dumps_char_def Let_def)

lemma append_sent: "\<exists>bs. serialize (JObj [(''type'', JStr ''APPEND_CHAR''), (''char'', JStr [c])]) = Inr bs"
proof -
  have pre: "length (dumps_str ''APPEND_CHAR'') = 13" "length (dumps_str ''type'') = 6" "length (dumps_str ''char'') = 6"
    by code_simp+
  have "length (dumps_str [c]) \<le> 8" using length_dumps_char [of c] by (simp add: dumps_str_def)
  then have "length (dumps (JObj [(''type'', JStr ''APPEND_CHAR''), (''char'', JStr [c])])) < 256" by (simp add: pre)
  from serialize_short [OF this] show ?thesis by blast
qed

lemma write_answer_sent:
  "\<exists>bs. serialize (JObj [(''status'', JStr ''OK''), (''write_state'', JStr (if b then ''COMMITTED'' else ''TENTATIVE''))]) = Inr bs"
proof -
  have "length (dumps (JObj [(''status'', JStr ''OK''), (''write_state'', JStr ''COMMITTED'')])) < 256"
    "length (dumps (JObj [(''status'', JStr ''OK''), (''write_state'', JStr ''TENTATIVE'')])) < 256" by code_simp+
  from this [THEN serialize_short] show ?thesis by auto
qed

lemma get_sent: "\<exists>bs. serialize get_string_msg = Inr bs"
proof -
  have "length (dumps get_string_msg) < 256" by code_simp
  from serialize_short [OF this] show ?thesis by blast
qed

text \<open>What the handler of an append does.\<close>

lemma process_append:
  assumes g: "get_storage s = (st, s')"
    and ap: "op_apply ops (if bs_is_master s then [e] else []) (if bs_is_master s then [] else [e]) st = (r, st')"
    and e: "e = \<lparr>le_ltime = LogicalTime (bs_name s) now, le_char = JStr [c]\<rparr>"
    and r: "\<And>why. r \<noteq> Inl (AssertionError why)"
  shows "bayou_process_req ops now s (JObj [(''type'', JStr ''APPEND_CHAR''), (''char'', JStr [c])]) =
    (rbind r (\<lambda>_. Inr (JObj [(''status'', JStr ''OK''),
       (''write_state'', JStr (if bs_is_master s then ''COMMITTED'' else ''TENTATIVE''))])),
     s'\<lparr>bs_storage := Some st'\<rparr>)"
proof -
  note g' = get_storage_simps [OF g]
  have "process_app_req ops now s (JObj [(''char'', JStr [c])]) (JStr ''APPEND_CHAR'') =
    (rbind r (\<lambda>_. Inr (JObj [(''status'', JStr ''OK''),
       (''write_state'', JStr (if bs_is_master s then ''COMMITTED'' else ''TENTATIVE''))])),
     s'\<lparr>bs_storage := Some st'\<rparr>)"
    using ap g' by (simp add: process_app_req_def respond_def app_deserialize_def app_log_entry_init_def dict_index_def g
        storage_commit_def storage_tentative_def e split: if_splits)
  then show ?thesis using r
    by (cases r) (auto simp: bayou_process_req_def dict_pop_def dict_index_def dispatch_def split: exc.split)
qed

lemma process_get_string:
  assumes g: "get_storage s = (st, s')"
  shows "bayou_process_req ops now s get_string_msg =
    (Inr (JObj [(''status'', JStr ''OK''), (''committed'', JStr (st_committed_st st)), (''tentative'', JStr (st_tentative_st st))]), s')"
  by (simp add: bayou_process_req_def get_string_msg_def dict_pop_def dict_index_def dispatch_def process_app_req_def respond_def g)




end
