(* ===== verification/Lab4Grade.thy ===== *)
theory Lab4Grade
  imports Json
begin

text \<open>
  The grading of lab 4 (\<open>labs/lab4/evaluation/evaluate.py\<close>): the submission is unpacked over the
  base code, installed and tested, and the names of the tests that passed are written to a file. What a zip file
  holds, whether pip can uninstall and install, the outcome of the test suite, which depends on the installed package, and
  the order in which a set is iterated are parameters.
\<close>

section \<open>Which tests pass\<close>

text \<open>What unittest reports: the methods of each test class, and the methods of the tests in its three lists.\<close>

record suite_result =
  sr_suite :: "string list list"
  sr_failures :: "string list"
  sr_errors :: "string list"
  sr_skipped :: "string list"

definition passing_tests :: "suite_result \<Rightarrow> string list" where
  "passing_tests r =
     filter (\<lambda>t. t \<notin> set (sr_failures r) \<and> t \<notin> set (sr_errors r) \<and> t \<notin> set (sr_skipped r)) (concat (sr_suite r))"

section \<open>Evaluation of a submission\<close>

type_synonym tree = "(string, string) dict"

record grader =
  gr_dirs :: "(string, tree) dict"
  gr_installed :: "tree option"
  gr_scores :: "(string, string) dict"

record tools =
  to_base :: tree
  to_uninstalls :: bool
  to_installs :: "tree \<Rightarrow> bool"
  to_test :: "tree \<Rightarrow> suite_result"
  to_listed :: "string list \<Rightarrow> string list"

definition copy_base :: "tools \<Rightarrow> string \<Rightarrow> grader \<Rightarrow> grader" where
  "copy_base kit to g =
     (let dirs = (if dict_get (gr_dirs g) to \<noteq> None then AList.delete to (gr_dirs g) else gr_dirs g)
      in g\<lparr>gr_dirs := dict_set dirs to (to_base kit)\<rparr>)"

definition score_text :: "string list \<Rightarrow> string" where
  "score_text passing =
     ''TestName, Output'' @ [CHR 0x0A] @ concat (map (\<lambda>test. test @ '', '' @ [CHR 0x27] @ ''Passed'' @ [CHR 0x27, CHR 0x0A]) passing)"

text \<open>The two calls of pip; a failure ends the script with \<open>sys.exit(1)\<close>.\<close>

definition pip_install :: "tools \<Rightarrow> tree \<Rightarrow> grader \<Rightarrow> unit res \<times> grader" where
  "pip_install kit dir g =
     (if \<not> to_uninstalls kit then (Inl (GenericException ''exit''), g)
      else let g1 = g\<lparr>gr_installed := None\<rparr> in
        if \<not> to_installs kit dir then (Inl (GenericException ''exit''), g1)
        else (Inr (), g1\<lparr>gr_installed := Some dir\<rparr>))"

text \<open>\<open>extracted\<close> is what the zip file holds, \<open>None\<close> for a bad zip file.\<close>

definition evaluate :: "tools \<Rightarrow> tree option \<Rightarrow> string \<Rightarrow> grader \<Rightarrow> unit res \<times> grader" where
  "evaluate kit extracted name g =
     (let entry_num = take (length name - 4) name;
          extract_dir = ''/tmp/eval_l4_'' @ entry_num;
          g1 = copy_base kit extract_dir g
      in (case extracted of
           None \<Rightarrow> (Inr (), g1)
         | Some files \<Rightarrow>
             (let base = (case dict_get (gr_dirs g1) extract_dir of None \<Rightarrow> [] | Some t \<Rightarrow> t);
                  dir = dict_union base files;
                  g2 = g1\<lparr>gr_dirs := dict_set (gr_dirs g1) extract_dir dir\<rparr>
              in (case pip_install kit dir g2 of
                   (Inl e, g3) \<Rightarrow> (Inl e, g3)
                 | (Inr _, g3) \<Rightarrow>
                     (case gr_installed g3 of
                        None \<Rightarrow> (Inl (GenericException ''import''), g3)
                      | Some package \<Rightarrow>
                          (Inr (), g3\<lparr>gr_scores := dict_set (gr_scores g3) entry_num
                            (score_text (to_listed kit (passing_tests (to_test kit package))))\<rparr>))))))"

lemma copied:
  "dict_get (gr_dirs (copy_base kit to g)) to = Some (to_base kit)" "gr_scores (copy_base kit to g) = gr_scores g"
  by (simp_all add: copy_base_def Let_def dict_simps)

section \<open>Properties\<close>


definition demo_tools :: tools where
  "demo_tools = \<lparr>to_base = [(''pyproject.toml'', ''base'')], to_uninstalls = True, to_installs = (\<lambda>dir. True),
     to_test = (\<lambda>dir. \<lparr>sr_suite = [[''test1'', ''test2''], [''test1'', ''test3'']], sr_failures = [''test2''],
       sr_errors = [], sr_skipped = []\<rparr>),
     to_listed = remdups\<rparr>"


end
