(* ===== verification/LcsBlocks.thy ===== *)
theory LcsBlocks
  imports Prelude "HOL-Library.Sublist"
begin

text \<open>
  The blocked longest common subsequence of \<open>demos/ray_lcs.py\<close>: the remote task that fills
  one block from its three neighbours, and the driver that goes over the blocks. Calling a remote
  task and getting its result is the call itself. A cell is \<open>None\<close> before it is
  written; a Python exception (an index out of range, arithmetic on \<open>None\<close>) makes the
  result \<open>None\<close>. The lemmas relate the blocks to the textbook recurrence and the recurrence to the
  longest common subsequence.
\<close>

section \<open>The code\<close>

type_synonym matrix = "nat option list list"

text \<open>\<open>xs[i]\<close>: negative indices count from the end.\<close>

definition py_nth :: "'a list \<Rightarrow> int \<Rightarrow> 'a option" where
  "py_nth xs i =
     (let k = (if i < 0 then i + int (length xs) else i) in
      if 0 \<le> k \<and> k < int (length xs) then Some (xs ! nat k) else None)"

definition cell :: "matrix \<Rightarrow> int \<Rightarrow> int \<Rightarrow> nat option" where
  "cell M i j = Option.bind (py_nth M i) (\<lambda>row. Option.bind (py_nth row j) (\<lambda>v. v))"

definition set_cell :: "matrix \<Rightarrow> nat \<Rightarrow> nat \<Rightarrow> nat \<Rightarrow> matrix" where
  "set_cell M i j v = M[i := (M ! i)[j := Some v]]"

definition l_read ::
  "nat \<Rightarrow> matrix \<Rightarrow> matrix option \<Rightarrow> matrix option \<Rightarrow> matrix option \<Rightarrow> int \<Rightarrow> int \<Rightarrow> nat option" where
  "l_read bsize L Lleft Lup Ldiag i j =
     (if i \<ge> 0 \<and> j \<ge> 0 then cell L i j
      else if i < 0 \<and> j < 0 then
        (case Ldiag of None \<Rightarrow> Some 0 | Some D \<Rightarrow> cell D (int bsize + i) (int bsize + j))
      else if i < 0 then
        (case Lleft of None \<Rightarrow> Some 0 | Some M \<Rightarrow> cell M (int bsize + i) j)
      else (case Lup of None \<Rightarrow> Some 0 | Some M \<Rightarrow> cell M i (int bsize + j)))"

text \<open>
  One iteration of the inner loop. The two \<open>if\<close>s are independent in the source: the
  zero written for the first row and column is overwritten by the second.
\<close>

definition lcs_cell ::
  "'a list \<Rightarrow> 'a list \<Rightarrow> nat \<Rightarrow> nat \<Rightarrow> nat \<Rightarrow> matrix option \<Rightarrow> matrix option \<Rightarrow> matrix option \<Rightarrow>
     nat \<times> nat \<Rightarrow> matrix \<Rightarrow> matrix option" where
  "lcs_cell X Y bleft bup bsize Lleft Lup Ldiag p L =
     (case p of (i, j) \<Rightarrow>
        let left = bleft * bsize + i; up = bup * bsize + j;
            L = (if left = 0 \<or> up = 0 then set_cell L i j 0 else L);
            l = l_read bsize L Lleft Lup Ldiag in
        Option.bind (py_nth X (int left - 1)) (\<lambda>x. Option.bind (py_nth Y (int up - 1)) (\<lambda>y.
          if x = y then
            Option.bind (l (int i - 1) (int j - 1)) (\<lambda>d. Some (set_cell L i j (d + 1)))
          else
            Option.bind (l (int i - 1) (int j)) (\<lambda>a. Option.bind (l (int i) (int j - 1)) (\<lambda>b.
              Some (set_cell L i j (max a b)))))))"

fun fill :: "('p \<Rightarrow> 's \<Rightarrow> 's option) \<Rightarrow> 'p list \<Rightarrow> 's \<Rightarrow> 's option" where
  "fill step [] s = Some s"
| "fill step (p # ps) s = Option.bind (step p s) (fill step ps)"

definition lcs_block ::
  "'a list \<Rightarrow> 'a list \<Rightarrow> nat \<Rightarrow> nat \<Rightarrow> nat \<Rightarrow> matrix option \<Rightarrow> matrix option \<Rightarrow> matrix option \<Rightarrow> matrix option" where
  "lcs_block X Y bleft bup bsize Lleft Lup Ldiag =
     fill (lcs_cell X Y bleft bup bsize Lleft Lup Ldiag) (List.product [0..<bsize] [0..<bsize])
       (replicate bsize (replicate bsize None))"

text \<open>The grid \<open>f\<close> of blocks is a map from block indices.\<close>

type_synonym grid = "nat \<times> nat \<rightharpoonup> matrix"

definition lcs_place :: "'a list \<Rightarrow> 'a list \<Rightarrow> nat \<Rightarrow> nat \<times> nat \<Rightarrow> grid \<Rightarrow> grid option" where
  "lcs_place X Y bsize p f =
     (case p of (bleft, bup) \<Rightarrow>
        let fleft = (if bleft > 0 then f (bleft - 1, bup) else None);
            fup = (if bup > 0 then f (bleft, bup - 1) else None);
            fdiag = (if bleft > 0 \<and> bup > 0 then f (bleft - 1, bup - 1) else None) in
        Option.bind (lcs_block X Y bleft bup bsize fleft fup fdiag) (\<lambda>L. Some (f((bleft, bup) \<mapsto> L))))"

definition lcs_driver :: "'a list \<Rightarrow> 'a list \<Rightarrow> nat \<Rightarrow> nat option" where
  "lcs_driver S1 S2 bsize =
     (let m = length S1; n = length S2 in
      if m mod bsize = 0 \<and> n mod bsize = 0 then
        Option.bind (fill (lcs_place S1 S2 bsize) (List.product [0..<m div bsize] [0..<n div bsize]) Map.empty) (\<lambda>f.
        Option.bind (f (m div bsize - 1, n div bsize - 1)) (\<lambda>L.
          cell L (int bsize - 1) (int bsize - 1)))
      else None)"

section \<open>The specification\<close>

definition is_lcs :: "nat \<Rightarrow> 'a list \<Rightarrow> 'a list \<Rightarrow> bool" where
  "is_lcs n xs ys \<longleftrightarrow>
     (\<exists>zs. subseq zs xs \<and> subseq zs ys \<and> length zs = n) \<and>
     (\<forall>zs. subseq zs xs \<and> subseq zs ys \<longrightarrow> length zs \<le> n)"

lemma is_lcs_Nil: "is_lcs 0 [] ys" "is_lcs 0 xs []"
  by (auto simp: is_lcs_def)

lemma is_lcs_same: "is_lcs n xs ys \<Longrightarrow> is_lcs (Suc n) (x # xs) (x # ys)"
proof -
  assume lcs: "is_lcs n xs ys"
  then obtain zs where zs: "subseq zs xs" "subseq zs ys" "length zs = n" by (auto simp: is_lcs_def)
  have "length ws \<le> Suc n" if "subseq ws (x # xs)" "subseq ws (x # ys)" for ws
  proof (cases ws)
    case (Cons w ws')
    then show ?thesis
      using that lcs by (cases "w = x") (auto simp: is_lcs_def dest!: spec [of _ ws'] spec [of _ ws])
  qed simp
  moreover have "subseq (x # zs) (x # xs)" "subseq (x # zs) (x # ys)" "length (x # zs) = Suc n"
    using zs by simp_all
  ultimately show ?thesis unfolding is_lcs_def by blast
qed

lemma is_lcs_differ:
  assumes "x \<noteq> y" "is_lcs a xs (y # ys)" "is_lcs b (x # xs) ys"
  shows "is_lcs (max a b) (x # xs) (y # ys)"
proof -
  have "length ws \<le> max a b" if ws: "subseq ws (x # xs)" "subseq ws (y # ys)" for ws
  proof (cases ws)
    case (Cons w ws')
    have "subseq ws xs \<or> subseq ws ys"
      using ws assms(1) Cons by (auto simp: subseq_Cons2_iff split: if_splits)
    then show ?thesis
    proof
      assume "subseq ws xs"
      then have "length ws \<le> a" using assms(2) ws(2) unfolding is_lcs_def by blast
      then show ?thesis by simp
    next
      assume "subseq ws ys"
      then have "length ws \<le> b" using assms(3) ws(1) unfolding is_lcs_def by blast
      then show ?thesis by simp
    qed
  qed simp
  moreover obtain u where "subseq u xs" "subseq u (y # ys)" "length u = a" using assms(2) by (auto simp: is_lcs_def)
  moreover from this have "subseq u (x # xs)" by auto
  moreover obtain v where "subseq v (x # xs)" "subseq v ys" "length v = b" using assms(3) by (auto simp: is_lcs_def)
  moreover from this have "subseq v (y # ys)" by auto
  ultimately show ?thesis unfolding is_lcs_def max_def by metis
qed

text \<open>The recurrence on prefixes.\<close>

fun dp :: "'a list \<Rightarrow> 'a list \<Rightarrow> nat \<Rightarrow> nat \<Rightarrow> nat" where
  "dp xs ys 0 j = 0"
| "dp xs ys (Suc i) 0 = 0"
| "dp xs ys (Suc i) (Suc j) =
     (if xs ! i = ys ! j then dp xs ys i j + 1 else max (dp xs ys i (Suc j)) (dp xs ys (Suc i) j))"

lemma dp_is_lcs_rev:
  "i \<le> length xs \<Longrightarrow> j \<le> length ys \<Longrightarrow> is_lcs (dp xs ys i j) (rev (take i xs)) (rev (take j ys))"
proof (induction xs ys i j rule: dp.induct)
  case (3 xs ys i j)
  have t: "rev (take (Suc i) xs) = xs ! i # rev (take i xs)" "rev (take (Suc j) ys) = ys ! j # rev (take j ys)"
    using "3.prems" by (simp_all add: take_Suc_conv_app_nth)
  show ?case
  proof (cases "xs ! i = ys ! j")
    case True
    then show ?thesis using 3 is_lcs_same [of "dp xs ys i j"] by (simp add: t)
  next
    case False
    then show ?thesis using 3 is_lcs_differ [OF False] by (simp add: t)
  qed
qed (simp_all add: is_lcs_Nil)

lemma subseq_rev: "subseq xs ys \<Longrightarrow> subseq (rev xs) (rev ys)"
  by (induction rule: list_emb.induct) (auto simp: subseq_rev_drop_many)

lemma is_lcs_rev: "is_lcs n (rev xs) (rev ys) \<longleftrightarrow> is_lcs n xs ys"
proof -
  have "is_lcs n (rev xs) (rev ys)" if lcs: "is_lcs n xs ys" for xs ys :: "'a list"
  proof -
    obtain zs where "subseq zs xs" "subseq zs ys" "length zs = n" using lcs by (auto simp: is_lcs_def)
    then have "subseq (rev zs) (rev xs)" "subseq (rev zs) (rev ys)" "length (rev zs) = n" by (simp_all add: subseq_rev)
    moreover have "length ws \<le> n" if "subseq ws (rev xs)" "subseq ws (rev ys)" for ws
    proof -
      have "subseq (rev ws) xs" "subseq (rev ws) ys" using that [THEN subseq_rev] by simp_all
      then have "length (rev ws) \<le> n" using lcs unfolding is_lcs_def by blast
      then show ?thesis by simp
    qed
    ultimately show ?thesis unfolding is_lcs_def by blast
  qed
  from this [of xs ys] this [of "rev xs" "rev ys"] show ?thesis by auto
qed

lemma dp_is_lcs: "is_lcs (dp xs ys (length xs) (length ys)) xs ys"
  using dp_is_lcs_rev [of "length xs" xs "length ys" ys] by (simp add: is_lcs_rev)

section \<open>Row-major loops\<close>

lemma fill_append: "fill step (ps @ qs) s = Option.bind (fill step ps s) (fill step qs)"
  by (induction ps arbitrary: s) (auto split: Option.bind_splits)

definition earlier :: "nat \<Rightarrow> nat \<Rightarrow> nat \<Rightarrow> (nat \<times> nat) set" where
  "earlier n i j = {0..<i} \<times> {0..<n} \<union> {i} \<times> {0..<j}"

text \<open>
  A double loop whose body extends what is right from the pairs before \<open>(i, j)\<close> to
  \<open>(i, j)\<close> makes everything right.
\<close>

lemma fill_row_major:
  assumes body: "\<And>i j s. i < m \<Longrightarrow> j < n \<Longrightarrow> good (earlier n i j) s \<Longrightarrow>
      \<exists>s'. step (i, j) s = Some s' \<and> good (insert (i, j) (earlier n i j)) s'"
    and "good {} s"
  shows "\<exists>s'. fill step (List.product [0..<m] [0..<n]) s = Some s' \<and> good ({0..<m} \<times> {0..<n}) s'"
proof -
  have row: "\<exists>s'. fill step (map (Pair i) [0..<j]) s = Some s' \<and> good (earlier n i j) s'"
    if "i < m" "j \<le> n" "good (earlier n i 0) s" for i j s
    using that(2)
  proof (induction j)
    case 0
    then show ?case using that(3) by simp
  next
    case (Suc j)
    then obtain s' where s': "fill step (map (Pair i) [0..<j]) s = Some s'" "good (earlier n i j) s'" by auto
    have "insert (i, j) (earlier n i j) = earlier n i (Suc j)" by (auto simp: earlier_def less_Suc_eq)
    then show ?case using body [OF that(1) _ s'(2)] Suc.prems s'(1) by (auto simp: fill_append)
  qed
  have "\<exists>s'. fill step (List.product [0..<k] [0..<n]) s = Some s' \<and> good ({0..<k} \<times> {0..<n}) s'" if "k \<le> m" for k
    using that
  proof (induction k)
    case 0
    then show ?case using assms(2) by simp
  next
    case (Suc k)
    then obtain s' where s': "fill step (List.product [0..<k] [0..<n]) s = Some s'" "good ({0..<k} \<times> {0..<n}) s'"
      by auto
    have "earlier n k 0 = {0..<k} \<times> {0..<n}" "earlier n k n = {0..<Suc k} \<times> {0..<n}"
      by (auto simp: earlier_def less_Suc_eq)
    then obtain s'' where "fill step (map (Pair k) [0..<n]) s' = Some s''" "good ({0..<Suc k} \<times> {0..<n}) s''"
      using row [of k n s'] s'(2) Suc.prems by auto
    moreover have "List.product [0..<Suc k] [0..<n] = List.product [0..<k] [0..<n] @ map (Pair k) [0..<n]"
      by (simp add: product_concat_map)
    ultimately show ?case using s'(1) by (simp add: fill_append del: upt_Suc)
  qed
  then show ?thesis by simp
qed

section \<open>The blocks follow the recurrence\<close>

text \<open>What the index \<open>left - 1\<close> reads: the character before, and the last one for the first.\<close>

definition rotated :: "'a list \<Rightarrow> 'a list" where
  "rotated xs = last xs # butlast xs"

lemma length_rotated: "xs \<noteq> [] \<Longrightarrow> length (rotated xs) = length xs"
  by (simp add: rotated_def)

lemma py_nth_rotated: "k < length xs \<Longrightarrow> py_nth xs (int k - 1) = Some (rotated xs ! k)"
proof (cases k)
  case 0
  assume "k < length xs"
  then have "nat (int (length xs) - 1) = length xs - 1" by simp
  then show ?thesis using 0 \<open>k < length xs\<close> by (auto simp: py_nth_def rotated_def last_conv_nth Let_def)
next
  case (Suc k')
  assume "k < length xs"
  then show ?thesis using Suc by (simp add: py_nth_def rotated_def nth_butlast Let_def)
qed

lemma py_nth_nat: "i < length xs \<Longrightarrow> py_nth xs (int i) = Some (xs ! i)"
  by (simp add: py_nth_def)

definition square :: "nat \<Rightarrow> matrix \<Rightarrow> bool" where
  "square b M \<longleftrightarrow> length M = b \<and> list_all (\<lambda>row. length row = b) M"

lemma square_row: "square b M \<Longrightarrow> i < b \<Longrightarrow> length (M ! i) = b"
  by (simp add: square_def list_all_length)

lemma cell_nat: "square b M \<Longrightarrow> i < b \<Longrightarrow> j < b \<Longrightarrow> cell M (int i) (int j) = M ! i ! j"
proof -
  assume "square b M" "i < b" "j < b"
  then have "length M = b" "length (M ! i) = b" using square_row by (simp_all add: square_def)
  with \<open>i < b\<close> \<open>j < b\<close> show ?thesis by (simp add: cell_def py_nth_nat)
qed

lemma square_set_cell: "square b M \<Longrightarrow> i < b \<Longrightarrow> square b (set_cell M i j v)"
  by (simp add: square_def set_cell_def list_all_length nth_list_update)

lemma set_cell_nth:
  "square b M \<Longrightarrow> i < b \<Longrightarrow> j < b \<Longrightarrow> i' < b \<Longrightarrow> j' < b \<Longrightarrow>
     set_cell M i j v ! i' ! j' = (if i' = i \<and> j' = j then Some v else M ! i' ! j')"
  using square_row [of b M i] by (auto simp: set_cell_def nth_list_update square_def)

text \<open>A block whose cells in \<open>S\<close> are what the recurrence says for their place in the strings.\<close>

definition block_right :: "'a list \<Rightarrow> 'a list \<Rightarrow> nat \<Rightarrow> nat \<Rightarrow> nat \<Rightarrow> (nat \<times> nat) set \<Rightarrow> matrix \<Rightarrow> bool" where
  "block_right X Y b bleft bup S M \<longleftrightarrow> square b M \<and>
     (\<forall>i < b. \<forall>j < b. (i, j) \<in> S \<longrightarrow>
        M ! i ! j = Some (dp (rotated X) (rotated Y) (Suc (bleft * b + i)) (Suc (bup * b + j))))"

lemma block_right_set:
  assumes "block_right X Y b p q S M" "i < b" "j < b"
    "v = dp (rotated X) (rotated Y) (Suc (p * b + i)) (Suc (q * b + j))"
  shows "block_right X Y b p q (insert (i, j) S) (set_cell M i j v)"
  using assms square_set_cell [of b M i j v] by (auto simp: block_right_def set_cell_nth)

lemma block_right_overwrite:
  assumes "block_right X Y b p q S M" "i < b" "j < b" "(i, j) \<notin> S"
  shows "block_right X Y b p q S (set_cell M i j v)"
  using assms square_set_cell [of b M i j v] by (auto simp: block_right_def set_cell_nth)

text \<open>The neighbours of block \<open>(p, q)\<close>: absent at the border, otherwise complete.\<close>

definition neighbour :: "'a list \<Rightarrow> 'a list \<Rightarrow> nat \<Rightarrow> nat \<Rightarrow> nat \<Rightarrow> bool \<Rightarrow> matrix option \<Rightarrow> bool" where
  "neighbour X Y b p q inside M \<longleftrightarrow>
     (if inside then \<exists>N. M = Some N \<and> block_right X Y b p q UNIV N else M = None)"

lemma l_read_dp:
  assumes M: "block_right X Y b p q S M" and ij: "i \<le> b" "j \<le> b"
    and here: "0 < i \<Longrightarrow> 0 < j \<Longrightarrow> (i - 1, j - 1) \<in> S"
    and Lleft: "neighbour X Y b (p - 1) q (0 < p) Lleft"
    and Lup: "neighbour X Y b p (q - 1) (0 < q) Lup"
    and Ldiag: "neighbour X Y b (p - 1) (q - 1) (0 < p \<and> 0 < q) Ldiag"
    and b: "0 < b"
  shows "l_read b M Lleft Lup Ldiag (int i - 1) (int j - 1) = Some (dp (rotated X) (rotated Y) (p * b + i) (q * b + j))"
proof -
  have blk: "cell N (int i') (int j') = Some (dp (rotated X) (rotated Y) (Suc (p' * b + i')) (Suc (q' * b + j')))"
    if "block_right X Y b p' q' T N" "i' < b" "j' < b" "(i', j') \<in> T" for N p' q' T i' j'
    using that cell_nat [of b N i' j'] by (simp add: block_right_def)
  have prev: "(r - Suc 0) * b + b = r * b" if "0 < r" for r
    using that by (cases r) simp_all
  have dp0: "dp xs ys n 0 = 0" for xs ys :: "'a list" and n by (cases n) simp_all
  consider (inner) "0 < i" "0 < j" | (corner) "i = 0" "j = 0" | (left) "i = 0" "0 < j" | (up) "0 < i" "j = 0"
    by blast
  then show ?thesis
  proof cases
    case inner
    then have "int i - 1 = int (i - 1)" "int j - 1 = int (j - 1)" by simp_all
    then show ?thesis using blk [OF M, of "i - 1" "j - 1"] here inner ij by (simp add: l_read_def)
  next
    case corner
    show ?thesis
    proof (cases "0 < p \<and> 0 < q")
      case True
      then obtain N where N: "Ldiag = Some N" "block_right X Y b (p - 1) (q - 1) UNIV N"
        using Ldiag by (auto simp: neighbour_def)
      have "int b + (int 0 - 1) = int (b - 1)" using b by simp
      then show ?thesis using blk [OF N(2), of "b - 1" "b - 1"] N(1) corner True b
        by (simp add: l_read_def prev del: of_nat_diff)
    next
      case False
      then have "Ldiag = None" "dp (rotated X) (rotated Y) (p * b) (q * b) = 0"
        using Ldiag dp0 by (auto simp: neighbour_def)
      then show ?thesis using corner by (simp add: l_read_def)
    qed
  next
    case left
    have j: "int j - 1 = int (j - 1)" using left by simp
    show ?thesis
    proof (cases "0 < p")
      case True
      then obtain N where N: "Lleft = Some N" "block_right X Y b (p - 1) q UNIV N"
        using Lleft by (auto simp: neighbour_def)
      have "int b + (int 0 - 1) = int (b - 1)" using b by simp
      then show ?thesis using blk [OF N(2), of "b - 1" "j - 1"] N(1) left True b ij
        by (simp add: l_read_def prev j del: of_nat_diff)
    next
      case False
      then show ?thesis using Lleft left by (simp add: l_read_def neighbour_def j del: of_nat_diff)
    qed
  next
    case up
    have i: "int i - 1 = int (i - 1)" using up by simp
    show ?thesis
    proof (cases "0 < q")
      case True
      then obtain N where N: "Lup = Some N" "block_right X Y b p (q - 1) UNIV N"
        using Lup by (auto simp: neighbour_def)
      have "int b + (int 0 - 1) = int (b - 1)" using b by simp
      then show ?thesis using blk [OF N(2), of "i - 1" "b - 1"] N(1) up True b ij
        by (simp add: l_read_def prev i del: of_nat_diff)
    next
      case False
      then show ?thesis using Lup up dp0 by (simp add: l_read_def neighbour_def i del: of_nat_diff)
    qed
  qed
qed

lemma lcs_cell_right:
  assumes M: "block_right X Y b p q (earlier b i j) M" and ij: "i < b" "j < b"
    and XY: "p * b + i < length X" "q * b + j < length Y"
    and nb: "neighbour X Y b (p - 1) q (0 < p) Lleft" "neighbour X Y b p (q - 1) (0 < q) Lup"
      "neighbour X Y b (p - 1) (q - 1) (0 < p \<and> 0 < q) Ldiag"
  shows "\<exists>M'. lcs_cell X Y p q b Lleft Lup Ldiag (i, j) M = Some M' \<and>
    block_right X Y b p q (insert (i, j) (earlier b i j)) M'"
proof -
  let ?l = "p * b + i" and ?u = "q * b + j"
  let ?L = "if ?l = 0 \<or> ?u = 0 then set_cell M i j 0 else M"
  have "(i, j) \<notin> earlier b i j" by (simp add: earlier_def)
  then have L: "block_right X Y b p q (earlier b i j) ?L"
    using M block_right_overwrite [OF M ij] by simp
  have b: "0 < b" using ij by simp
  have read: "l_read b ?L Lleft Lup Ldiag (int i - 1) (int j - 1) = Some (dp (rotated X) (rotated Y) ?l ?u)"
    "l_read b ?L Lleft Lup Ldiag (int i - 1) (int j) = Some (dp (rotated X) (rotated Y) ?l (Suc ?u))"
    "l_read b ?L Lleft Lup Ldiag (int i) (int j - 1) = Some (dp (rotated X) (rotated Y) (Suc ?l) ?u)"
  proof -
    have e: "0 < i \<Longrightarrow> 0 < j \<Longrightarrow> (i - 1, j - 1) \<in> earlier b i j"
      "0 < i \<Longrightarrow> 0 < Suc j \<Longrightarrow> (i - 1, Suc j - 1) \<in> earlier b i j"
      "0 < Suc i \<Longrightarrow> 0 < j \<Longrightarrow> (Suc i - 1, j - 1) \<in> earlier b i j"
      using ij by (auto simp: earlier_def)
    show "l_read b ?L Lleft Lup Ldiag (int i - 1) (int j - 1) = Some (dp (rotated X) (rotated Y) ?l ?u)"
      using ij by (intro l_read_dp [OF L _ _ e(1) nb b]) simp_all
    show "l_read b ?L Lleft Lup Ldiag (int i - 1) (int j) = Some (dp (rotated X) (rotated Y) ?l (Suc ?u))"
      using l_read_dp [OF L _ _ e(2) nb b] ij by simp
    show "l_read b ?L Lleft Lup Ldiag (int i) (int j - 1) = Some (dp (rotated X) (rotated Y) (Suc ?l) ?u)"
      using l_read_dp [OF L _ _ e(3) nb b] ij by simp
  qed
  define v where "v = dp (rotated X) (rotated Y) (Suc ?l) (Suc ?u)"
  have "lcs_cell X Y p q b Lleft Lup Ldiag (i, j) M = Some (set_cell ?L i j v)"
    unfolding lcs_cell_def Let_def prod.case
    using py_nth_rotated [OF XY(1)] py_nth_rotated [OF XY(2)] read
    by (simp add: v_def)
  then show ?thesis using block_right_set [OF L ij] by (simp add: v_def)
qed

lemma lcs_block_right:
  assumes "0 < b" "Suc p * b \<le> length X" "Suc q * b \<le> length Y"
    and nb: "neighbour X Y b (p - 1) q (0 < p) Lleft" "neighbour X Y b p (q - 1) (0 < q) Lup"
      "neighbour X Y b (p - 1) (q - 1) (0 < p \<and> 0 < q) Ldiag"
  shows "\<exists>L. lcs_block X Y p q b Lleft Lup Ldiag = Some L \<and> block_right X Y b p q UNIV L"
proof -
  have "\<exists>M. fill (lcs_cell X Y p q b Lleft Lup Ldiag) (List.product [0..<b] [0..<b]) (replicate b (replicate b None)) = Some M \<and>
      block_right X Y b p q ({0..<b} \<times> {0..<b}) M"
  proof (rule fill_row_major)
    show "block_right X Y b p q {} (replicate b (replicate b None))"
      by (simp add: block_right_def square_def list_all_length)
  next
    fix i j M assume "i < b" "j < b" "block_right X Y b p q (earlier b i j) M"
    then show "\<exists>M'. lcs_cell X Y p q b Lleft Lup Ldiag (i, j) M = Some M' \<and>
        block_right X Y b p q (insert (i, j) (earlier b i j)) M'"
      using assms(2,3) nb by (intro lcs_cell_right) (simp_all del: insert_iff)
  qed
  then show ?thesis by (auto simp: lcs_block_def block_right_def)
qed

definition grid_right :: "'a list \<Rightarrow> 'a list \<Rightarrow> nat \<Rightarrow> (nat \<times> nat) set \<Rightarrow> grid \<Rightarrow> bool" where
  "grid_right X Y b S f \<longleftrightarrow> (\<forall>(p, q) \<in> S. \<exists>N. f (p, q) = Some N \<and> block_right X Y b p q UNIV N)"

lemma lcs_place_right:
  assumes f: "grid_right X Y b (earlier n p q) f" and b: "0 < b" "p < length X div b" "q < n" "n = length Y div b"
  shows "\<exists>f'. lcs_place X Y b (p, q) f = Some f' \<and> grid_right X Y b (insert (p, q) (earlier n p q)) f'"
proof -
  have size: "Suc p * b \<le> length X" "Suc q * b \<le> length Y"
    using b by (meson Suc_leI div_times_less_eq_dividend le_trans mult_le_mono1)+
  have "neighbour X Y b (p - 1) q (0 < p) (if p > 0 then f (p - 1, q) else None)"
    "neighbour X Y b p (q - 1) (0 < q) (if q > 0 then f (p, q - 1) else None)"
    "neighbour X Y b (p - 1) (q - 1) (0 < p \<and> 0 < q) (if p > 0 \<and> q > 0 then f (p - 1, q - 1) else None)"
  proof -
    have get: "\<exists>N. f r = Some N \<and> block_right X Y b (fst r) (snd r) UNIV N" if "r \<in> earlier n p q" for r
      using f that by (auto simp: grid_right_def)
    have "0 < p \<Longrightarrow> (p - 1, q) \<in> earlier n p q" "0 < q \<Longrightarrow> (p, q - 1) \<in> earlier n p q"
      "0 < p \<Longrightarrow> 0 < q \<Longrightarrow> (p - 1, q - 1) \<in> earlier n p q"
      using b by (auto simp: earlier_def)
    then show "neighbour X Y b (p - 1) q (0 < p) (if p > 0 then f (p - 1, q) else None)"
      "neighbour X Y b p (q - 1) (0 < q) (if q > 0 then f (p, q - 1) else None)"
      "neighbour X Y b (p - 1) (q - 1) (0 < p \<and> 0 < q) (if p > 0 \<and> q > 0 then f (p - 1, q - 1) else None)"
      using get [of "(p - 1, q)"] get [of "(p, q - 1)"] get [of "(p - 1, q - 1)"] by (auto simp: neighbour_def)
  qed
  from lcs_block_right [OF b(1) size this] obtain L where
    "lcs_block X Y p q b (if p > 0 then f (p - 1, q) else None) (if q > 0 then f (p, q - 1) else None)
       (if p > 0 \<and> q > 0 then f (p - 1, q - 1) else None) = Some L" "block_right X Y b p q UNIV L" by blast
  then show ?thesis using f by (auto simp: lcs_place_def grid_right_def)
qed

lemma lcs_driver_dp:
  assumes "0 < b" "b dvd length X" "b dvd length Y" "X \<noteq> []" "Y \<noteq> []"
  shows "lcs_driver X Y b = Some (dp (rotated X) (rotated Y) (length X) (length Y))"
proof -
  let ?m = "length X div b" and ?n = "length Y div b"
  have "\<exists>f. fill (lcs_place X Y b) (List.product [0..<?m] [0..<?n]) Map.empty = Some f \<and>
      grid_right X Y b ({0..<?m} \<times> {0..<?n}) f"
    using assms(1) by (intro fill_row_major lcs_place_right) (simp_all add: grid_right_def)
  then obtain f where f: "fill (lcs_place X Y b) (List.product [0..<?m] [0..<?n]) Map.empty = Some f"
    "grid_right X Y b ({0..<?m} \<times> {0..<?n}) f" by blast
  have pos: "0 < ?m" "0 < ?n" using assms by (metis dvd_div_eq_0_iff length_0_conv gr0I)+
  then obtain N where N: "f (?m - 1, ?n - 1) = Some N" "block_right X Y b (?m - 1) (?n - 1) UNIV N"
    using f(2) by (force simp: grid_right_def)
  have last: "Suc ((?m - 1) * b + (b - 1)) = length X" "Suc ((?n - 1) * b + (b - 1)) = length Y"
    using assms pos by (auto elim!: dvdE simp: diff_mult_distrib)
  have sq: "square b N" using N(2) by (simp add: block_right_def)
  have lt: "b - 1 < b" using assms(1) by simp
  then have "N ! (b - 1) ! (b - 1) = Some (dp (rotated X) (rotated Y) (Suc ((?m - 1) * b + (b - 1))) (Suc ((?n - 1) * b + (b - 1))))"
    using N(2) unfolding block_right_def by blast
  then have "cell N (int (b - 1)) (int (b - 1)) = Some (dp (rotated X) (rotated Y) (length X) (length Y))"
    unfolding last cell_nat [OF sq lt lt] .
  moreover have "int b - 1 = int (b - 1)" using assms(1) by simp
  ultimately have "cell N (int b - 1) (int b - 1) = Some (dp (rotated X) (rotated Y) (length X) (length Y))" by metis
  then show ?thesis using assms(1-3) f(1) N(1) by (simp add: lcs_driver_def Let_def)
qed

section \<open>Properties\<close>

text \<open>
  C17. What the blocked program computes, for every block size that divides both lengths: it never
  fails, and its result is the length of the longest common subsequence of the two strings, each
  rotated by one character to the right. The rotation is the missing \<open>elif\<close>: the zero stored for the
  first row and column is overwritten by a comparison of the characters at index -1.
\<close>

theorem lcs_driver_rotated:
  assumes "0 < b" and "b dvd length X" and "b dvd length Y" and "X \<noteq> []" and "Y \<noteq> []"
  shows "\<exists>n. lcs_driver X Y b = Some n \<and> is_lcs n (rotated X) (rotated Y)"
  using lcs_driver_dp [OF assms] dp_is_lcs [of "rotated X" "rotated Y"] assms(4,5) by (simp add: length_rotated)

theorem lcs_driver_rotated_witness:
  "\<exists>n. lcs_driver ''ABCD'' ''BD'' 2 = Some n \<and> is_lcs n ''DABC'' ''DB''"
  using lcs_driver_rotated [of 2 "''ABCD''" "''BD''"] by (simp add: rotated_def)

text \<open>
  The result is not the length of the longest common subsequence of the strings themselves:
  for ABC and BCX that is 2 (BC), and the program says 1.
\<close>

theorem lcs_driver_wrong:
  "is_lcs 2 ''ABC'' ''BCX'' \<and> lcs_driver ''ABC'' ''BCX'' 3 = Some 1 \<and> \<not> is_lcs 1 ''ABC'' ''BCX''"
proof -
  have "dp ''ABC'' ''BCX'' 3 3 = 2" by code_simp
  then have "is_lcs 2 ''ABC'' ''BCX''" using dp_is_lcs [of "''ABC''" "''BCX''"] by (simp add: eval_nat_numeral)
  moreover have "lcs_driver ''ABC'' ''BCX'' 3 = Some 1" by code_simp
  moreover have "subseq ''BC'' ''ABC''" "subseq ''BC'' ''BCX''" by simp_all
  then have "\<not> is_lcs 1 ''ABC'' ''BCX''" unfolding is_lcs_def by fastforce
  ultimately show ?thesis by blast
qed

end
