(* ===== verification/EvalDag.thy ===== *)
theory EvalDag
  imports Complex_Main Json
begin

text \<open>
  The grading of lab 2 submissions (\<open>labs/lab2/evaluation/lab2_eval.py\<close>): the test cases form a
  graph that is explored from \<open>none\<close>, the children of a test are queued when it scores, and the
  scores are summed up by \<open>pivot.py\<close>. What the checker prints for a test case is a parameter
  (\<open>out\<close>, the standard output of a subprocess), and so is whether a zip file can be extracted.
  Running times are not modelled. The locale \<open>test_graph\<close> states what the exploration needs of the
  graph and of the marks, and proves that it runs exactly the tests it should.
\<close>

section \<open>The code\<close>

definition test_case_dag :: "(string, string list) dict" where
  "test_case_dag =
     [(''none'', [''reducer_once'', ''mapper_once'']),
      (''reducer_once'', [''test_reducer'']),
      (''mapper_once'', [''test_mapper'']),
      (''test_reducer'', [''test_both'']),
      (''test_mapper'', [''test_both'']),
      (''test_both'', [''test_all'']),
      (''test_all'', [])]"

definition marks :: "(string, rat) dict" where
  "marks = [(''none'', 10), (''reducer_once'', 5 / 2), (''mapper_once'', 5 / 2), (''test_mapper'', 5),
     (''test_reducer'', 5), (''test_both'', 5), (''test_all'', 10)]"

text \<open>The end of \<open>run_test\<close>: from the checker's output to the score.\<close>

definition run_test :: "(string, rat) dict \<Rightarrow> (string \<Rightarrow> string) \<Rightarrow> string \<Rightarrow> rat res" where
  "run_test mk out test_case =
     (let output = strip (out test_case) in
      if output = ''CORRECT'' then dict_index mk test_case
      else if output = ''INCORRECT'' then Inr 0
      else if output = ''NOSEQ'' then Inr (- 1)
      else Inr 0)"

lemma filter_less:
  "x \<in> set xs \<Longrightarrow> P x \<Longrightarrow> \<not> Q x \<Longrightarrow> (\<And>y. Q y \<Longrightarrow> P y) \<Longrightarrow> length (filter Q xs) < length (filter P xs)"
proof (induction xs)
  case (Cons y ys)
  have "length (filter Q ys) \<le> length (filter P ys)" using Cons.prems(4) by (induction ys) auto
  then show ?case using Cons by auto
qed simp

lemma filter_le: "(\<And>y. Q y \<Longrightarrow> P y) \<Longrightarrow> length (filter Q xs) \<le> length (filter P xs)"
  by (induction xs) auto

lemma keys_dict_set: "fst ` set (dict_set d k v) = insert k (fst ` set d)"
  by (simp add: dom_update)

text \<open>The exploration. It ends: a node that is new leaves fewer nodes of the graph to run, any other step shortens the queue.\<close>

function eval_loop ::
  "(string, string list) dict \<Rightarrow> (string, rat) dict \<Rightarrow> (string \<Rightarrow> string) \<Rightarrow> string list \<Rightarrow>
     (string, rat) dict \<Rightarrow> (string, rat) dict res" where
  "eval_loop dag mk out [] test_results = Inr test_results"
| "eval_loop dag mk out (node # queue) test_results =
     (if node \<in> set (dict_keys test_results) then eval_loop dag mk out queue test_results
      else rbind (run_test mk out node) (\<lambda>score.
        if score = 0 then eval_loop dag mk out queue (dict_set test_results node score)
        else rbind (dict_index dag node) (\<lambda>children.
          eval_loop dag mk out
            (queue @ filter (\<lambda>child. child \<notin> set (dict_keys (dict_set test_results node score))) children)
            (dict_set test_results node score))))"
  by pat_completeness auto

termination
proof (relation "measures [\<lambda>(dag, mk, out, queue, res). length (filter (\<lambda>n. n \<notin> set (dict_keys res)) (dict_keys dag)),
    \<lambda>(dag, mk, out, queue, res). length queue]", goal_cases)
  case (3 dag mk out node queue res score)
  have "length (filter (\<lambda>n. n \<notin> set (dict_keys (dict_set res node score))) (dict_keys dag)) \<le>
      length (filter (\<lambda>n. n \<notin> set (dict_keys res)) (dict_keys dag))"
    by (rule filter_le) (simp add: keys_dict_set)
  then show ?case by (simp add: le_less)
next
  case (4 dag mk out node queue res score children)
  then have "node \<in> set (dict_keys dag)" by (auto simp: dict_index_Inr dest: map_of_SomeD intro: rev_image_eqI)
  then have "length (filter (\<lambda>n. n \<notin> set (dict_keys (dict_set res node score))) (dict_keys dag)) <
      length (filter (\<lambda>n. n \<notin> set (dict_keys res)) (dict_keys dag))"
    using 4 by (intro filter_less [of node]) (auto simp: keys_dict_set)
  then show ?case by simp
qed auto

definition eval_submission :: "(string \<Rightarrow> string) \<Rightarrow> (string, rat) dict res" where
  "eval_submission out = eval_loop test_case_dag marks out [''none''] []"

text \<open>
  The loop over the submissions; the rows written so far and, if one ends it, the exception.
\<close>

fun eval_all ::
  "(string \<Rightarrow> bool) \<Rightarrow> (string \<Rightarrow> string \<Rightarrow> string) \<Rightarrow> string list \<Rightarrow> (string \<times> string \<times> rat) list \<Rightarrow>
     (string \<times> string \<times> rat) list \<times> unit res" where
  "eval_all unzips out [] rows = (rows, Inr ())"
| "eval_all unzips out (file_name # files) rows =
     (if \<not> (4 \<le> length file_name \<and> drop (length file_name - 4) file_name = ''.zip'') \<or> \<not> unzips file_name
      then eval_all unzips out files rows
      else
        (case eval_submission (out file_name) of
           Inl e \<Rightarrow> (rows, Inl e)
         | Inr test_results \<Rightarrow>
             eval_all unzips out files
               (rows @ map (\<lambda>(test_name, result). (take (length file_name - 4) file_name, test_name, result)) test_results)))"

text \<open>
  \<open>pivot.py\<close>: a test that a submission has no row of counts as 0 (\<open>fillna\<close>), but a column exists only if
  some submission has a row of it. \<open>index\<close> is pandas' index of the pivoted table, the entries without repetition in order.
\<close>

definition score_columns :: "string list" where
  "score_columns = [''none'', ''reducer_once'', ''mapper_once'', ''test_all'', ''test_both'', ''test_mapper'', ''test_reducer'']"

definition total_score :: "(string, rat) dict \<Rightarrow> rat" where
  "total_score test_results =
     sum_list (map (\<lambda>col. case dict_get test_results col of None \<Rightarrow> 0 | Some score \<Rightarrow> score) score_columns)"

definition pivot_totals ::
  "(string list \<Rightarrow> string list) \<Rightarrow> (string \<times> string \<times> rat) list \<Rightarrow> (string \<times> rat) list res" where
  "pivot_totals index rows =
     (if \<not> distinct (map (\<lambda>(entry, test, score). (entry, test)) rows) then Inl ValueError
      else if \<not> list_all (\<lambda>col. col \<in> set (map (\<lambda>(entry, test, score). test) rows)) score_columns then Inl KeyError
      else Inr (map (\<lambda>entry. (entry, total_score (map snd (filter (\<lambda>row. fst row = entry) rows))))
        (index (map fst rows))))"

text \<open>
  The coordinator that the tests run (\<open>assets/_coordinator.py\<close>) takes the name of the test case as its mode; the
  modes differ in the workers they kill in one round, \<open>r\<close> and \<open>m\<close> being the random draws. The modes ending in
  ONCE have a single round.
\<close>

datatype recovery_test_mode =
  MODE_NONE | MODE_MAPPER_ONCE | MODE_REDUCER_ONCE | MODE_MAPPER | MODE_REDUCER | MODE_BOTH | MODE_ALL

fun mode_value :: "recovery_test_mode \<Rightarrow> string" where
  "mode_value MODE_NONE = ''none''"
| "mode_value MODE_MAPPER_ONCE = ''mapper_once''"
| "mode_value MODE_REDUCER_ONCE = ''reducer_once''"
| "mode_value MODE_MAPPER = ''test_mapper''"
| "mode_value MODE_REDUCER = ''test_reducer''"
| "mode_value MODE_BOTH = ''test_both''"
| "mode_value MODE_ALL = ''test_all''"

definition all_modes :: "recovery_test_mode list" where
  "all_modes = [MODE_NONE, MODE_MAPPER_ONCE, MODE_REDUCER_ONCE, MODE_MAPPER, MODE_REDUCER, MODE_BOTH, MODE_ALL]"

definition parse_mode :: "string \<Rightarrow> recovery_test_mode option" where
  "parse_mode s = find (\<lambda>m. mode_value m = s) all_modes"

fun mode_kills :: "recovery_test_mode \<Rightarrow> nat \<Rightarrow> nat \<Rightarrow> string list" where
  "mode_kills MODE_NONE r m = []"
| "mode_kills MODE_MAPPER_ONCE r m = [''Mapper_0'']"
| "mode_kills MODE_REDUCER_ONCE r m = [''Reducer_0'']"
| "mode_kills MODE_REDUCER r m = [''Reducer_'' @ digits r]"
| "mode_kills MODE_MAPPER r m = [''Mapper_'' @ digits m]"
| "mode_kills MODE_BOTH r m = [''Mapper_'' @ digits m, ''Reducer_'' @ digits r]"
| "mode_kills MODE_ALL r m = [''Mapper_0'', ''Mapper_1'', ''Reducer_0'', ''Reducer_1'']"

text \<open>Every node of the graph is a mode of the coordinator and every mode is tested.\<close>

lemma test_cases_are_modes:
  "list_all (\<lambda>t. parse_mode t \<noteq> None) (dict_keys test_case_dag)"
  "list_all (\<lambda>m. mode_value m \<in> set (dict_keys test_case_dag)) all_modes"
  by code_simp+

section \<open>Which tests are run\<close>

text \<open>A test is to be run when it is the first one or a parent of it that is run scores.\<close>

inductive runnable :: "(string, string list) dict \<Rightarrow> (string \<Rightarrow> rat) \<Rightarrow> string \<Rightarrow> string \<Rightarrow> bool"
  for dag score first where
  first: "runnable dag score first first"
| child: "runnable dag score first n \<Longrightarrow> score n \<noteq> 0 \<Longrightarrow> map_of dag n = Some cs \<Longrightarrow> c \<in> set cs \<Longrightarrow>
    runnable dag score first c"

definition score_of :: "(string, rat) dict \<Rightarrow> (string \<Rightarrow> string) \<Rightarrow> string \<Rightarrow> rat" where
  "score_of mk out t = (case run_test mk out t of Inr s \<Rightarrow> s | Inl e \<Rightarrow> 0)"

text \<open>
  The state of the exploration: what is recorded is runnable and has its score, and the
  children of what scored are recorded or queued.
\<close>

definition grading ::
  "(string, string list) dict \<Rightarrow> (string, rat) dict \<Rightarrow> (string \<Rightarrow> string) \<Rightarrow> string \<Rightarrow> string list \<Rightarrow>
     (string, rat) dict \<Rightarrow> bool" where
  "grading dag mk out first queue res \<longleftrightarrow>
     distinct (dict_keys res) \<and>
     (\<forall>n \<in> set queue \<union> fst ` set res. runnable dag (score_of mk out) first n \<and> n \<in> fst ` set dag) \<and>
     (\<forall>(n, s) \<in> set res. s = score_of mk out n) \<and>
     (\<forall>n cs. n \<in> fst ` set res \<longrightarrow> score_of mk out n \<noteq> 0 \<longrightarrow> map_of dag n = Some cs \<longrightarrow>
        set cs \<subseteq> fst ` set res \<union> set queue)"

locale test_graph =
  fixes dag :: "(string, string list) dict" and mk :: "(string, rat) dict" and first :: string
  assumes first_known: "first \<in> set (dict_keys dag)"
    and children_known: "map_of dag n = Some cs \<Longrightarrow> c \<in> set cs \<Longrightarrow> c \<in> set (dict_keys dag)"
    and marked: "n \<in> set (dict_keys dag) \<Longrightarrow> \<exists>m. map_of mk n = Some m"
begin

lemma run_test_known:
  "n \<in> set (dict_keys dag) \<Longrightarrow> run_test mk out n = Inr (score_of mk out n)"
  using marked [of n] by (auto simp: run_test_def score_of_def dict_index_def Let_def)

lemma child_list: "n \<in> set (dict_keys dag) \<Longrightarrow> \<exists>cs. map_of dag n = Some cs \<and> dict_index dag n = Inr cs"
  by (auto simp: dict_index_def dest: weak_map_of_SomeI split: option.split)

lemma grading_step:
  assumes g: "grading dag mk out first (n # q) res" and new: "n \<notin> fst ` set res"
  shows "grading dag mk out first (if score_of mk out n = 0 then q else
      q @ filter (\<lambda>c. c \<notin> set (dict_keys (dict_set res n (score_of mk out n)))) (the (map_of dag n)))
    (dict_set res n (score_of mk out n))" (is "grading _ _ _ _ ?q ?res")
proof -
  have n: "runnable dag (score_of mk out) first n" "n \<in> fst ` set dag" using g by (auto simp: grading_def)
  obtain cs where cs: "map_of dag n = Some cs" using child_list [of n] n(2) by auto
  have keys: "fst ` set ?res = insert n (fst ` set res)" by (simp add: keys_dict_set)
  have "set ?res \<subseteq> insert (n, score_of mk out n) (set res)" by (rule set_dict_set)
  then have scores: "\<forall>(m, s) \<in> set ?res. s = score_of mk out m" using g by (auto simp: grading_def)
  have known: "\<forall>m \<in> set ?q \<union> fst ` set ?res. runnable dag (score_of mk out) first m \<and> m \<in> fst ` set dag"
  proof
    fix m assume m: "m \<in> set ?q \<union> fst ` set ?res"
    show "runnable dag (score_of mk out) first m \<and> m \<in> fst ` set dag"
    proof (cases "m \<in> set cs \<and> score_of mk out n \<noteq> 0")
      case True
      then show ?thesis using runnable.child [OF n(1) _ cs] children_known [OF cs] by auto
    next
      case False
      then have "m \<in> set (n # q) \<union> fst ` set res" using m cs unfolding keys by (auto split: if_splits)
      then show ?thesis using g unfolding grading_def by blast
    qed
  qed
  have closed: "set ds \<subseteq> fst ` set ?res \<union> set ?q"
    if "m \<in> fst ` set ?res" "score_of mk out m \<noteq> 0" "map_of dag m = Some ds" for m ds
  proof (cases "m = n")
    case True
    then show ?thesis using that cs by (auto simp: keys_dict_set)
  next
    case False
    then have "set ds \<subseteq> fst ` set res \<union> set (n # q)" using that g unfolding keys grading_def by blast
    then show ?thesis unfolding keys by auto
  qed
  then have closed: "\<forall>m ds. m \<in> fst ` set ?res \<longrightarrow> score_of mk out m \<noteq> 0 \<longrightarrow> map_of dag m = Some ds \<longrightarrow>
      set ds \<subseteq> fst ` set ?res \<union> set ?q" by blast
  have "distinct (dict_keys ?res)" using g by (simp add: grading_def distinct_update)
  from conjI [OF this conjI [OF known conjI [OF scores closed]]] show ?thesis unfolding grading_def .
qed

lemma eval_loop_grades:
  "dag' = dag \<Longrightarrow> mk' = mk \<Longrightarrow> grading dag mk out first queue res \<Longrightarrow>
     \<exists>res'. eval_loop dag mk out queue res = Inr res' \<and> grading dag mk out first [] res' \<and>
       fst ` set res \<union> set queue \<subseteq> fst ` set res'"
proof (induction dag' mk' out queue res rule: eval_loop.induct)
  case (2 dag' mk' out n q res)
  note g = 2(6)
  show ?case
  proof (cases "n \<in> fst ` set res")
    case True
    then have same: "fst ` set res \<union> set (n # q) = fst ` set res \<union> set q" "set q \<subseteq> set (n # q)" by auto
    have "grading dag mk out first q res" using g unfolding grading_def same(1) using same(2) by blast
    from 2(1) [OF _ 2(4,5) this] True obtain res' where "eval_loop dag mk out q res = Inr res'"
      "grading dag mk out first [] res'" "fst ` set res \<union> set q \<subseteq> fst ` set res'" using 2(4,5) by auto
    then show ?thesis unfolding 2(4,5) same(1) using True by (intro exI [of _ res']) simp
  next
    case False
    have n: "n \<in> set (dict_keys dag)" using g by (auto simp: grading_def)
    note run = run_test_known [OF n, of out]
    obtain cs where cs: "map_of dag n = Some cs" "dict_index dag n = Inr cs" using child_list [OF n] by blast
    note step = grading_step [OF g False]
    show ?thesis
    proof (cases "score_of mk out n = 0")
      case True
      from 2(2) [of 0] step True False run 2(4,5) show ?thesis by (auto simp: keys_dict_set)
    next
      case nz: False
      from 2(3) [of "score_of mk out n" cs] step nz False run cs 2(4,5) show ?thesis by (auto simp: keys_dict_set)
    qed
  qed
qed simp

text \<open>Run from the first test, the exploration records exactly the tests to be run, with their scores.\<close>

lemma graded:
  "\<exists>res. eval_loop dag mk out [first] [] = Inr res \<and> distinct (dict_keys res) \<and>
    (\<forall>t. map_of res t = (if runnable dag (score_of mk out) first t then Some (score_of mk out t) else None))"
proof -
  have "grading dag mk out first [first] []" using first_known by (auto simp: grading_def intro: runnable.first)
  from eval_loop_grades [OF refl refl this]
  obtain res where res: "eval_loop dag mk out [first] [] = Inr res" "grading dag mk out first [] res"
    "first \<in> fst ` set res" by (elim exE conjE) simp
  have "t \<in> fst ` set res" if "runnable dag (score_of mk out) first t" for t
    using that
  proof (induction rule: runnable.induct)
    case (child n cs c)
    then have "set cs \<subseteq> fst ` set res \<union> set []" using res(2) unfolding grading_def by blast
    then show ?case using child by auto
  qed (rule res(3))
  moreover have "runnable dag (score_of mk out) first t" if "t \<in> fst ` set res" for t
    using that res(2) by (auto simp: grading_def)
  moreover have "s = score_of mk out t" if "map_of res t = Some s" for t s
    using map_of_SomeD [OF that] res(2) by (auto simp: grading_def)
  ultimately have iff: "t \<in> fst ` set res \<longleftrightarrow> runnable dag (score_of mk out) first t"
    and val: "map_of res t = Some s \<Longrightarrow> s = score_of mk out t" for t s
    by blast+
  have "map_of res t = (if runnable dag (score_of mk out) first t then Some (score_of mk out t) else None)" for t
  proof (cases "map_of res t")
    case None
    then show ?thesis using iff [of t] by (simp add: map_of_eq_None_iff)
  next
    case (Some s)
    then have "t \<in> fst ` set res" by (metis domI dom_map_of_conv_image_fst)
    then show ?thesis using Some val iff by simp
  qed
  moreover have "distinct (dict_keys res)" using res(2) by (simp add: grading_def)
  ultimately show ?thesis using res(1) by blast
qed

end

interpretation lab2: test_graph test_case_dag marks "''none''"
proof
  fix n cs c
  assume "map_of test_case_dag n = Some cs" "c \<in> set cs"
  then have "c \<in> (\<Union>(n, cs) \<in> set test_case_dag. set cs)" by (auto dest: map_of_SomeD)
  also have "\<dots> \<subseteq> set (dict_keys test_case_dag)" by (simp add: test_case_dag_def)
  finally show "c \<in> set (dict_keys test_case_dag)" .
next
  fix n
  assume "n \<in> set (dict_keys test_case_dag)"
  moreover have "set (dict_keys test_case_dag) \<subseteq> set (dict_keys marks)"
    by (simp add: test_case_dag_def marks_def)
  ultimately have "n \<in> dom (map_of marks)" by (auto simp only: dom_map_of_conv_image_fst set_map)
  then show "\<exists>m. map_of marks n = Some m" by (rule domD)
qed (simp add: test_case_dag_def)

section \<open>The tests of lab 2\<close>

definition parents :: "(string, string list) dict \<Rightarrow> string \<Rightarrow> string list" where
  "parents dag t = map fst (filter (\<lambda>(n, cs). t \<in> set cs) dag)"

inductive_cases runnable_cases: "runnable dag score first t"

lemma runnable_iff:
  assumes "distinct (dict_keys dag)"
  shows "runnable dag score first t \<longleftrightarrow>
    t = first \<or> (\<exists>n \<in> set (parents dag t). runnable dag score first n \<and> score n \<noteq> 0)"
proof
  assume "runnable dag score first t"
  then show "t = first \<or> (\<exists>n \<in> set (parents dag t). runnable dag score first n \<and> score n \<noteq> 0)"
    by (cases rule: runnable_cases) (force simp: parents_def dest: map_of_SomeD)+
next
  assume "t = first \<or> (\<exists>n \<in> set (parents dag t). runnable dag score first n \<and> score n \<noteq> 0)"
  then show "runnable dag score first t"
  proof
    assume "\<exists>n \<in> set (parents dag t). runnable dag score first n \<and> score n \<noteq> 0"
    then obtain n cs where "runnable dag score first n" "score n \<noteq> 0" "(n, cs) \<in> set dag" "t \<in> set cs"
      by (auto simp: parents_def)
    then show ?thesis using runnable.child map_of_is_SomeI [OF assms] by metis
  qed (simp add: runnable.first)
qed

lemma parents_tests:
  "parents test_case_dag ''reducer_once'' = [''none'']"
  "parents test_case_dag ''mapper_once'' = [''none'']"
  "parents test_case_dag ''test_reducer'' = [''reducer_once'']"
  "parents test_case_dag ''test_mapper'' = [''mapper_once'']"
  "parents test_case_dag ''test_both'' = [''test_reducer'', ''test_mapper'']"
  "parents test_case_dag ''test_all'' = [''test_both'']"
  by code_simp+

text \<open>When each test is run, in terms of the tests before it.\<close>

lemma runnable_tests:
  fixes score
  defines "runs \<equiv> runnable test_case_dag score ''none''"
  shows "runs ''none''"
    and "runs ''reducer_once'' \<longleftrightarrow> score ''none'' \<noteq> 0"
    and "runs ''mapper_once'' \<longleftrightarrow> score ''none'' \<noteq> 0"
    and "runs ''test_reducer'' \<longleftrightarrow> runs ''reducer_once'' \<and> score ''reducer_once'' \<noteq> 0"
    and "runs ''test_mapper'' \<longleftrightarrow> runs ''mapper_once'' \<and> score ''mapper_once'' \<noteq> 0"
    and "runs ''test_both'' \<longleftrightarrow>
      runs ''test_reducer'' \<and> score ''test_reducer'' \<noteq> 0 \<or> runs ''test_mapper'' \<and> score ''test_mapper'' \<noteq> 0"
    and "runs ''test_all'' \<longleftrightarrow> runs ''test_both'' \<and> score ''test_both'' \<noteq> 0"
proof -
  have d: "distinct (dict_keys test_case_dag)" by (simp add: test_case_dag_def)
  note iff = runnable_iff [OF d, of score "''none''", folded runs_def]
  have step: "runs t \<longleftrightarrow> (\<exists>n \<in> set ps. runs n \<and> score n \<noteq> 0)" if "t \<noteq> ''none''" "parents test_case_dag t = ps" for t ps
    using iff [of t] that by simp
  show none: "runs ''none''" unfolding runs_def by (rule runnable.first)
  show "runs ''reducer_once'' \<longleftrightarrow> score ''none'' \<noteq> 0" using step [OF _ parents_tests(1)] none by simp
  show "runs ''mapper_once'' \<longleftrightarrow> score ''none'' \<noteq> 0" using step [OF _ parents_tests(2)] none by simp
  show "runs ''test_reducer'' \<longleftrightarrow> runs ''reducer_once'' \<and> score ''reducer_once'' \<noteq> 0"
    using step [OF _ parents_tests(3)] by simp
  show "runs ''test_mapper'' \<longleftrightarrow> runs ''mapper_once'' \<and> score ''mapper_once'' \<noteq> 0"
    using step [OF _ parents_tests(4)] by simp
  show "runs ''test_both'' \<longleftrightarrow>
      runs ''test_reducer'' \<and> score ''test_reducer'' \<noteq> 0 \<or> runs ''test_mapper'' \<and> score ''test_mapper'' \<noteq> 0"
    using step [OF _ parents_tests(5)] by simp
  show "runs ''test_all'' \<longleftrightarrow> runs ''test_both'' \<and> score ''test_both'' \<noteq> 0"
    using step [OF _ parents_tests(6)] by simp
qed

lemma score_cases:
  assumes "map_of mk t = Some m"
  shows "score_of mk out t = (if strip (out t) = ''CORRECT'' then m else if strip (out t) = ''NOSEQ'' then - 1 else 0)"
  using assms by (simp add: score_of_def run_test_def dict_index_def Let_def)

lemma marks_positive:
  assumes "map_of marks t = Some m"
  shows "0 < m"
proof -
  have "list_all (\<lambda>(t, m). 0 < m) marks" by (simp add: marks_def)
  then show ?thesis using map_of_SomeD [OF assms] by (auto simp: list_all_iff)
qed

lemma sum_range:
  fixes a b c d e f g :: rat
  assumes "a \<le> 10" "b \<le> 5 / 2" "c \<le> 5 / 2" "d \<le> 5" "e \<le> 5" "f \<le> 5" "g \<le> 10"
    and "- 1 \<le> a" "- 1 \<le> b" "- 1 \<le> c" "- 1 \<le> d" "- 1 \<le> e" "- 1 \<le> f" "- 1 \<le> g"
  shows "- 7 \<le> a + b + c + g + f + d + e" "a + b + c + g + f + d + e \<le> 40"
  using assms by linarith+

lemma sum_of_maxima:
  fixes a b c d e f g :: rat
  assumes "a \<le> 10" "b \<le> 5 / 2" "c \<le> 5 / 2" "d \<le> 5" "e \<le> 5" "f \<le> 5" "g \<le> 10"
  shows "a + b + c + g + f + d + e = 40 \<longleftrightarrow> a = 10 \<and> b = 5 / 2 \<and> c = 5 / 2 \<and> d = 5 \<and> e = 5 \<and> f = 5 \<and> g = 10"
  using assms by auto

section \<open>Properties\<close>

text \<open>
  C20. Grading one submission terminates without an exception, whatever the checker prints: every
  test to be run, and no other, is recorded exactly once, with the score of its output. A test is to be
  run when it is \<open>none\<close> or a parent of it in the graph is run with a score that is not 0.
\<close>

theorem grading_exact:
  "\<exists>res. eval_submission out = Inr res \<and> distinct (dict_keys res) \<and>
    (\<forall>t. dict_get res t =
      (if runnable test_case_dag (score_of marks out) ''none'' t then Some (score_of marks out t) else None))"
  unfolding eval_submission_def by (rule lab2.graded)

text \<open>
  C31. The total that \<open>pivot.py\<close> adds up is between -7 and 40, and it is 40 exactly when the
  checker printed CORRECT for all seven test cases.
\<close>

theorem total_score_bounds:
  "\<exists>res. eval_submission out = Inr res \<and> - 7 \<le> total_score res \<and> total_score res \<le> 40 \<and>
    (total_score res = 40 \<longleftrightarrow> list_all (\<lambda>t. strip (out t) = ''CORRECT'') score_columns)"
proof -
  obtain res where res: "eval_submission out = Inr res"
    "\<And>t. dict_get res t =
      (if runnable test_case_dag (score_of marks out) ''none'' t then Some (score_of marks out t) else None)"
    using lab2.graded [of out] unfolding eval_submission_def by blast
  let ?runs = "runnable test_case_dag (score_of marks out) ''none''"
  let ?v = "\<lambda>t. if ?runs t then score_of marks out t else 0"
  have total: "total_score res = sum_list (map ?v score_columns)"
    unfolding total_score_def by (rule arg_cong [where f = sum_list], rule map_cong) (simp_all add: res(2))
  have range: "- 1 \<le> ?v t \<and> ?v t \<le> m \<and> (?v t = m \<longleftrightarrow> ?runs t \<and> strip (out t) = ''CORRECT'')"
    if "map_of marks t = Some m" for t m
    using score_cases [OF that, of out] marks_positive [OF that] by auto
  define ok where "ok t \<longleftrightarrow> strip (out t) = ''CORRECT''" for t
  note range = range [folded ok_def]
  have ms: "map_of marks ''none'' = Some 10" "map_of marks ''reducer_once'' = Some (5 / 2)"
    "map_of marks ''mapper_once'' = Some (5 / 2)" "map_of marks ''test_mapper'' = Some 5"
    "map_of marks ''test_reducer'' = Some 5" "map_of marks ''test_both'' = Some 5" "map_of marks ''test_all'' = Some 10"
    by (simp_all add: marks_def)
  note r = ms [THEN range]
  have sum: "total_score res = ?v ''none'' + ?v ''reducer_once'' + ?v ''mapper_once'' + ?v ''test_all'' + ?v ''test_both'' +
      ?v ''test_mapper'' + ?v ''test_reducer''"
    by (simp only: total score_columns_def list.map sum_list.Cons sum_list.Nil add.assoc add_0_right)
  have all: "list_all ok score_columns \<longleftrightarrow> ok ''none'' \<and> ok ''reducer_once'' \<and> ok ''mapper_once'' \<and> ok ''test_all'' \<and>
      ok ''test_both'' \<and> ok ''test_mapper'' \<and> ok ''test_reducer''"
    by (simp add: score_columns_def)
  have scored: "ok t \<Longrightarrow> map_of marks t = Some m \<Longrightarrow> score_of marks out t \<noteq> 0" for t m
    using marks_positive [of t m] by (simp add: score_cases ok_def)
  have "list_all ok score_columns \<Longrightarrow> ?runs ''none'' \<and> ?runs ''reducer_once'' \<and> ?runs ''mapper_once'' \<and>
      ?runs ''test_reducer'' \<and> ?runs ''test_mapper'' \<and> ?runs ''test_both'' \<and> ?runs ''test_all''"
    using runnable_tests [of "score_of marks out"] ms [THEN scored [rotated]] unfolding all by simp
  then have runs: "list_all ok score_columns \<longleftrightarrow> (?runs ''none'' \<and> ok ''none'') \<and>
      (?runs ''reducer_once'' \<and> ok ''reducer_once'') \<and> (?runs ''mapper_once'' \<and> ok ''mapper_once'') \<and>
      (?runs ''test_mapper'' \<and> ok ''test_mapper'') \<and> (?runs ''test_reducer'' \<and> ok ''test_reducer'') \<and>
      (?runs ''test_both'' \<and> ok ''test_both'') \<and> (?runs ''test_all'' \<and> ok ''test_all'')"
    unfolding all by satx
  note le = r [THEN conjunct2, THEN conjunct1] and eq = r [THEN conjunct2, THEN conjunct2]
  have "total_score res = 40 \<longleftrightarrow> list_all ok score_columns"
    unfolding sum runs sum_of_maxima [OF le] eq ..
  moreover have "- 7 \<le> total_score res" "total_score res \<le> 40" 
    unfolding sum by (rule sum_range [OF le], (rule r [THEN conjunct1])+)+
  moreover have "ok = (\<lambda>t. strip (out t) = ''CORRECT'')" by (simp add: ok_def fun_eq_iff)
  ultimately show ?thesis using res(1) by auto
qed

text \<open>
  What opens the later tests: \<open>test_both\<close> is run as soon as one of the two chains before it scored,
  whatever happened on the other, and a checker that prints NOSEQ does not stop the exploration, because its
  -1 is not 0.
\<close>

theorem test_both_opened:
  "\<exists>res. eval_submission out = Inr res \<and>
    ((\<exists>s. dict_get res ''test_both'' = Some s) \<longleftrightarrow>
       strip (out ''none'') \<in> {''CORRECT'', ''NOSEQ''} \<and>
       (strip (out ''reducer_once'') \<in> {''CORRECT'', ''NOSEQ''} \<and> strip (out ''test_reducer'') \<in> {''CORRECT'', ''NOSEQ''} \<or>
        strip (out ''mapper_once'') \<in> {''CORRECT'', ''NOSEQ''} \<and> strip (out ''test_mapper'') \<in> {''CORRECT'', ''NOSEQ''}))"
proof -
  obtain res where res: "eval_submission out = Inr res"
    "\<And>t. dict_get res t =
      (if runnable test_case_dag (score_of marks out) ''none'' t then Some (score_of marks out t) else None)"
    using lab2.graded [of out] unfolding eval_submission_def by blast
  have opens: "score_of marks out t \<noteq> 0 \<longleftrightarrow> strip (out t) \<in> {''CORRECT'', ''NOSEQ''}" if "map_of marks t = Some m" for t m
    using score_cases [OF that, of out] marks_positive [OF that] by auto
  have ms: "map_of marks ''none'' = Some 10" "map_of marks ''reducer_once'' = Some (5 / 2)"
    "map_of marks ''mapper_once'' = Some (5 / 2)" "map_of marks ''test_mapper'' = Some 5"
    "map_of marks ''test_reducer'' = Some 5"
    by (simp_all add: marks_def)
  have "(\<exists>s. dict_get res ''test_both'' = Some s) \<longleftrightarrow> runnable test_case_dag (score_of marks out) ''none'' ''test_both''"
    by (simp add: res(2))
  then show ?thesis
    using res(1) unfolding runnable_tests(2-6) ms [THEN opens] by auto
qed

lemma eval_submission_fails:
  assumes "strip (out ''none'') = ''INCORRECT''"
  shows "eval_submission out = Inr [(''none'', 0)]"
  using assms by (simp add: eval_submission_def run_test_def)

lemma failing_rows:
  assumes "\<And>f. strip (out f ''none'') = ''INCORRECT''"
  shows "list_all (\<lambda>(entry, test, score). test = ''none'') rows \<Longrightarrow>
    list_all (\<lambda>(entry, test, score). test = ''none'') (fst (eval_all unzips out files rows))"
  by (induction files arbitrary: rows) (simp_all add: eval_submission_fails assms)

text \<open>
  The totals need every test to have been run by somebody: when the first test fails for all submissions,
  their rows name no other test, and \<open>pivot.py\<close> raises instead of printing the totals 0.
\<close>

theorem pivot_needs_every_test:
  assumes "\<And>f. strip (out f ''none'') = ''INCORRECT''" and "eval_all unzips out files [] = (rows, r)"
  shows "r = Inr () \<and> (pivot_totals index rows = Inl KeyError \<or> pivot_totals index rows = Inl ValueError)"
proof -
  have none: "list_all (\<lambda>(entry, test, score). test = ''none'') rows"
    using failing_rows [of out "[]" unzips files] assms by simp
  then have "set (map (\<lambda>(entry, test, score). test) rows) \<subseteq> {''none''}" by (auto simp: list_all_iff)
  then have "''test_all'' \<notin> set (map (\<lambda>(entry, test, score). test) rows)" by (rule contra_subsetD) simp
  then have "\<not> list_all (\<lambda>col. col \<in> set (map (\<lambda>(entry, test, score). test) rows)) score_columns"
    unfolding score_columns_def list.pred_inject by blast
  moreover have "snd (eval_all unzips out files rows0) = Inr ()" for rows0
    by (induction files arbitrary: rows0) (simp_all add: eval_submission_fails assms(1))
  then have "r = Inr ()" using assms(2) by (metis snd_conv)
  ultimately show ?thesis by (simp add: pivot_totals_def)
qed

theorem pivot_needs_every_test_witness:
  "pivot_totals remdups (fst (eval_all (\<lambda>_. True) (\<lambda>_ _. ''INCORRECT'') [''a.zip'', ''b.zip''] [])) = Inl KeyError"
proof -
  obtain rows r where e: "eval_all (\<lambda>_. True) (\<lambda>_ _. ''INCORRECT'') [''a.zip'', ''b.zip''] [] = (rows, r)"
    by fastforce
  have "strip ''INCORRECT'' = ''INCORRECT''" by code_simp
  from pivot_needs_every_test [where out = "\<lambda>_ _. ''INCORRECT''", OF this e, of remdups]
  have "pivot_totals remdups rows = Inl KeyError \<or> pivot_totals remdups rows = Inl ValueError" ..
  moreover have "rows = [(''a'', ''none'', 0), (''b'', ''none'', 0)]"
    using e \<open>strip ''INCORRECT'' = ''INCORRECT''\<close> by (simp add: eval_submission_fails)
  ultimately show ?thesis using e by (simp add: pivot_totals_def split: if_splits)
qed

end
