(* ===== verification/EvalRuns.thy ===== *)
theory EvalRuns
  imports EvalDag WordCount
begin

text \<open>
  The whole grading script of lab 2 (\<open>lab2_eval.py\<close>) on the machine it runs on: the processes it kills, the
  checkpoint directory and the Redis server that all tests share, and the folders of the submissions. What
  \<open>main.py\<close> of a submission does to the processes, the checkpoints and Redis within the time limit
  is a parameter, as are the contents of zip files and assets. That the checker script and Redis are there is assumed.
\<close>

section \<open>The machine\<close>

type_synonym files = "(string, string) dict"

record shared =
  sh_procs :: "(nat \<times> string) list"
  sh_checkpoints :: files
  sh_redis :: "(string, string list) dict"

record eval_env =
  ev_self :: nat
  ev_can_kill :: "nat \<Rightarrow> bool"
  ev_seq :: "string option"

definition timeouts :: "(string, nat) dict" where
  "timeouts = [(''none'', 50), (''reducer_once'', 50), (''mapper_once'', 50), (''test_mapper'', 200),
     (''test_reducer'', 200), (''test_both'', 200), (''test_all'', 200)]"

text \<open>Python's \<open>in\<close> on strings.\<close>

fun has_substring :: "string \<Rightarrow> string \<Rightarrow> bool" where
  "has_substring p [] = (p = [])"
| "has_substring p (c # cs) = (take (length p) (c # cs) = p \<or> has_substring p cs)"

definition kill_all :: "eval_env \<Rightarrow> shared \<Rightarrow> shared res" where
  "kill_all env sh =
     (let p_2_kill = map fst (filter (\<lambda>(pid, name). has_substring ''python'' name) (sh_procs sh)) in
      if ev_self env \<notin> set p_2_kill then Inl KeyError
      else Inr (sh\<lparr>sh_procs := filter (\<lambda>(pid, name).
        \<not> (pid \<in> set p_2_kill \<and> pid \<noteq> ev_self env \<and> ev_can_kill env pid)) (sh_procs sh)\<rparr>))"

text \<open>
  \<open>run_test\<close>. Every exception of the run, a missing timeout included, is caught. The checker is a process of its own,
  whose exceptions leave the standard output empty.
\<close>

type_synonym submission = "string \<Rightarrow> nat \<Rightarrow> shared \<Rightarrow> shared"

definition run_main :: "submission \<Rightarrow> string \<Rightarrow> shared \<Rightarrow> shared" where
  "run_main sub test_case sh =
     (case dict_get timeouts test_case of None \<Rightarrow> sh | Some t \<Rightarrow> sub test_case t sh)"

definition checker_output :: "eval_env \<Rightarrow> shared \<Rightarrow> string" where
  "checker_output env sh =
     (case checker (dict_get (sh_checkpoints sh) ''Reducer_0_0.txt'') (dict_get (sh_checkpoints sh) ''Reducer_1_0.txt'') (ev_seq env) of
        Inl e \<Rightarrow> '''' | Inr s \<Rightarrow> s @ [CHR 0x0A])"

definition run_test_on :: "eval_env \<Rightarrow> submission \<Rightarrow> string \<Rightarrow> shared \<Rightarrow> rat res \<times> shared" where
  "run_test_on env sub test_case sh =
     (let sh1 = sh\<lparr>sh_checkpoints := [], sh_redis := []\<rparr>;
          sh2 = run_main sub test_case sh1;
          output = checker_output env sh2
      in (run_test marks (\<lambda>_. output) test_case, sh2\<lparr>sh_checkpoints := []\<rparr>))"

section \<open>The loops\<close>

function grade_loop ::
  "eval_env \<Rightarrow> submission \<Rightarrow> (string, string list) dict \<Rightarrow> string list \<Rightarrow> (string, rat) dict \<Rightarrow> shared \<Rightarrow>
     (string, rat) dict res \<times> shared" where
  "grade_loop env sub dag [] test_results sh = (Inr test_results, sh)"
| "grade_loop env sub dag (node # queue) test_results sh =
     (if node \<in> set (dict_keys test_results) then grade_loop env sub dag queue test_results sh
      else case kill_all env sh of
        Inl e \<Rightarrow> (Inl e, sh)
      | Inr sh1 \<Rightarrow>
          (case run_test_on env sub node sh1 of
             (Inl e, sh2) \<Rightarrow> (Inl e, sh2)
           | (Inr score, sh2) \<Rightarrow>
               if score = 0 then grade_loop env sub dag queue (dict_set test_results node score) sh2
               else (case dict_index dag node of
                 Inl e \<Rightarrow> (Inl e, sh2)
               | Inr children \<Rightarrow>
                   grade_loop env sub dag
                     (queue @ filter (\<lambda>child. child \<notin> set (dict_keys (dict_set test_results node score))) children)
                     (dict_set test_results node score) sh2)))"
  by pat_completeness auto

termination
proof (relation "measures [\<lambda>(env, sub, dag, queue, res, sh). length (filter (\<lambda>n. n \<notin> set (dict_keys res)) (dict_keys dag)),
    \<lambda>(env, sub, dag, queue, res, sh). length queue]", goal_cases)
  case (3 env sub dag node queue res sh sh1 r sh2 score)
  have "length (filter (\<lambda>n. n \<notin> set (dict_keys (dict_set res node score))) (dict_keys dag)) \<le>
      length (filter (\<lambda>n. n \<notin> set (dict_keys res)) (dict_keys dag))"
    by (rule filter_le) (simp add: keys_dict_set)
  then show ?case by (simp add: le_less)
next
  case (4 env sub dag node queue res sh sh1 r sh2 score children)
  then have "node \<in> set (dict_keys dag)" by (auto simp: dict_index_Inr dest: map_of_SomeD intro: rev_image_eqI)
  then have "length (filter (\<lambda>n. n \<notin> set (dict_keys (dict_set res node score))) (dict_keys dag)) <
      length (filter (\<lambda>n. n \<notin> set (dict_keys res)) (dict_keys dag))"
    using 4 by (intro filter_less [of node]) (auto simp: keys_dict_set)
  then show ?case by simp
qed auto

record eval_state =
  es_shared :: shared
  es_folders :: "(string, files) dict"
  es_rows :: "(string \<times> string \<times> rat) list"

text \<open>The files injected into a submission.\<close>

definition injected :: "(string \<Rightarrow> string) \<Rightarrow> files" where
  "injected assets =
     map (\<lambda>name. (name, assets name))
       [''_coordinator.py'', ''constants.py'', ''checker.py'', ''main.py'', ''seq.txt'', ''locations.py'', ''mylog.py'']"

definition write_scores :: "string \<Rightarrow> (string, rat) dict \<Rightarrow> eval_state \<Rightarrow> eval_state" where
  "write_scores entry_num test_results st =
     st\<lparr>es_rows := es_rows st @ map (\<lambda>(test_name, result). (entry_num, test_name, result)) test_results\<rparr>"

text \<open>One submission. \<open>extracted\<close> is what its zip file holds, \<open>None\<close> for a bad zip file.\<close>

definition evaluate_zip ::
  "eval_env \<Rightarrow> (string \<Rightarrow> string) \<Rightarrow> (files \<Rightarrow> submission) \<Rightarrow> files option \<Rightarrow> string \<Rightarrow> eval_state \<Rightarrow> unit res \<times> eval_state" where
  "evaluate_zip env assets main extracted file_name st =
     (let folder = ''/tmp/eval_'' @ take (length file_name - 3) file_name;
          old = (case dict_get (es_folders st) folder of None \<Rightarrow> [] | Some files \<Rightarrow> files)
      in (case extracted of
           None \<Rightarrow> (Inr (), st\<lparr>es_folders := dict_set (es_folders st) folder old\<rparr>)
         | Some contents \<Rightarrow>
             (let files = dict_union (dict_union old contents) (injected assets);
                  st1 = st\<lparr>es_folders := dict_set (es_folders st) folder files\<rparr>
              in if dict_get files ''main.py'' = None then (Inl (GenericException ''exit''), st1)
                 else (case grade_loop env (main files) test_case_dag [''none''] [] (es_shared st1) of
                    (Inl e, sh) \<Rightarrow> (Inl e, st1\<lparr>es_shared := sh\<rparr>)
                  | (Inr test_results, sh) \<Rightarrow>
                      (Inr (), write_scores (take (length file_name - 4) file_name) test_results (st1\<lparr>es_shared := sh\<rparr>))))))"

fun evaluate_all ::
  "eval_env \<Rightarrow> (string \<Rightarrow> string) \<Rightarrow> (files \<Rightarrow> submission) \<Rightarrow> (string \<Rightarrow> files option) \<Rightarrow> string list \<Rightarrow> eval_state \<Rightarrow>
     unit res \<times> eval_state" where
  "evaluate_all env assets main zips [] st = (Inr (), st)"
| "evaluate_all env assets main zips (file_name # file_names) st =
     (case kill_all env (es_shared st) of
        Inl e \<Rightarrow> (Inl e, st)
      | Inr sh \<Rightarrow>
          let st1 = st\<lparr>es_shared := sh\<rparr> in
          if \<not> (4 \<le> length file_name \<and> drop (length file_name - 4) file_name = ''.zip'')
          then evaluate_all env assets main zips file_names st1
          else (case evaluate_zip env assets main (zips file_name) file_name st1 of
                  (Inl e, st2) \<Rightarrow> (Inl e, st2)
                | (Inr _, st2) \<Rightarrow> evaluate_all env assets main zips file_names st2))"

section \<open>What a test starts from\<close>

text \<open>The processes that the grading never kills; a killed machine has no others.\<close>

definition lasting :: "eval_env \<Rightarrow> shared \<Rightarrow> (nat \<times> string) list" where
  "lasting env sh = filter (\<lambda>(pid, name). \<not> has_substring ''python'' name \<or> pid = ev_self env) (sh_procs sh)"

definition clean :: "eval_env \<Rightarrow> shared \<Rightarrow> shared" where
  "clean env sh = \<lparr>sh_procs = lasting env sh, sh_checkpoints = [], sh_redis = []\<rparr>"

text \<open>The process of the grader is a python process and has its process id for itself, all others can be killed.\<close>

definition grader_runs :: "eval_env \<Rightarrow> shared \<Rightarrow> bool" where
  "grader_runs env sh \<longleftrightarrow>
     (\<exists>name. (ev_self env, name) \<in> set (sh_procs sh) \<and> has_substring ''python'' name)"

lemma grader_runs_lasting: "grader_runs env sh \<longleftrightarrow> (\<exists>name. (ev_self env, name) \<in> set (lasting env sh) \<and> has_substring ''python'' name)"
  by (auto simp: grader_runs_def lasting_def)

lemma kill_all_clean:
  assumes runs: "grader_runs env sh" and kill: "\<forall>pid. pid \<noteq> ev_self env \<longrightarrow> ev_can_kill env pid"
    and pids: "distinct (map fst (sh_procs sh))"
  shows "kill_all env sh = Inr (sh\<lparr>sh_procs := lasting env sh\<rparr>)"
proof -
  define py where "py = has_substring ''python''"
  define doomed where "doomed = fst ` {x \<in> set (sh_procs sh). case x of (pid, name) \<Rightarrow> py name}"
  have iff: "pid \<in> doomed \<longleftrightarrow> py name" if pn: "(pid, name) \<in> set (sh_procs sh)" for pid name
  proof
    assume "pid \<in> doomed"
    then obtain name' where "(pid, name') \<in> set (sh_procs sh)" "py name'" by (auto simp: doomed_def)
    then show "py name" using eq_key_imp_eq_value [OF pids pn] by blast
  qed (use pn in \<open>force simp: doomed_def\<close>)
  obtain name where "(ev_self env, name) \<in> set (sh_procs sh)" "py name" using runs by (auto simp: grader_runs_def py_def)
  then have self: "ev_self env \<in> doomed" using iff by blast
  have "filter (\<lambda>(pid, name). \<not> (pid \<in> doomed \<and> pid \<noteq> ev_self env \<and> ev_can_kill env pid)) (sh_procs sh) = lasting env sh"
    unfolding lasting_def py_def [symmetric] using kill iff by (intro filter_cong refl) auto
  then show ?thesis using self by (simp add: kill_all_def py_def [symmetric] doomed_def)
qed

lemma distinct_lasting: "distinct (map fst (sh_procs sh)) \<Longrightarrow> distinct (map fst (lasting env sh))"
  by (simp add: lasting_def distinct_map_filter)

lemma lasting_idem: "lasting env (sh\<lparr>sh_procs := lasting env sh\<rparr>) = lasting env sh"
  by (simp add: lasting_def)

text \<open>What a submission is trusted with.\<close>

definition tame :: "eval_env \<Rightarrow> submission \<Rightarrow> bool" where
  "tame env sub \<longleftrightarrow>
     (\<forall>test t sh. lasting env (sub test t sh) = lasting env sh \<and>
       (distinct (map fst (sh_procs sh)) \<longrightarrow> distinct (map fst (sh_procs (sub test t sh)))))"

text \<open>The machine between two tests.\<close>

definition ready :: "eval_env \<Rightarrow> shared \<Rightarrow> shared \<Rightarrow> bool" where
  "ready env sh0 sh \<longleftrightarrow> lasting env sh = lasting env sh0 \<and> grader_runs env sh0 \<and> distinct (map fst (sh_procs sh))"

definition clean_output :: "eval_env \<Rightarrow> submission \<Rightarrow> shared \<Rightarrow> string \<Rightarrow> string" where
  "clean_output env sub sh0 test = checker_output env (run_main sub test (clean env sh0))"

lemma ready_runs: "ready env sh0 sh \<Longrightarrow> grader_runs env sh"
  by (simp add: ready_def grader_runs_lasting)

lemma ready_killed: "ready env sh0 sh \<Longrightarrow> ready env sh0 (sh\<lparr>sh_procs := lasting env sh\<rparr>)"
  unfolding ready_def lasting_idem by (metis distinct_lasting shared.select_convs(1) shared.surjective shared.update_convs(1))

lemma ready_test:
  assumes rd: "ready env sh0 sh" and tm: "tame env sub" and kill: "\<forall>pid. pid \<noteq> ev_self env \<longrightarrow> ev_can_kill env pid"
  obtains sh1 sh2 where "kill_all env sh = Inr sh1" "ready env sh0 sh1"
    "run_test_on env sub test sh1 = (run_test marks (clean_output env sub sh0) test, sh2)" "ready env sh0 sh2"
proof -
  let ?sh1 = "sh\<lparr>sh_procs := lasting env sh\<rparr>"
  let ?run = "run_main sub test (?sh1\<lparr>sh_checkpoints := [], sh_redis := []\<rparr>)"
  have k: "kill_all env sh = Inr ?sh1" using ready_runs [OF rd] rd kill by (intro kill_all_clean) (auto simp: ready_def)
  have r1: "ready env sh0 ?sh1" by (rule ready_killed [OF rd])
  then have d: "distinct (map fst (lasting env sh))" by (simp add: ready_def)
  have start: "?sh1\<lparr>sh_checkpoints := [], sh_redis := []\<rparr> = clean env sh0"
    using rd by (simp add: clean_def ready_def)
  have "lasting env ?run = lasting env (?sh1\<lparr>sh_checkpoints := [], sh_redis := []\<rparr>) \<and> distinct (map fst (sh_procs ?run))"
    using tm d by (auto simp: run_main_def tame_def split: option.split)
  then have "ready env sh0 (?run\<lparr>sh_checkpoints := []\<rparr>)"
    using r1 by (simp add: ready_def) (simp add: lasting_def)
  moreover have "run_test_on env sub test ?sh1 =
      (run_test marks (clean_output env sub sh0) test, ?run\<lparr>sh_checkpoints := []\<rparr>)"
    unfolding run_test_on_def Let_def start by (simp add: clean_output_def run_test_def)
  ultimately show thesis using that [OF k r1] by blast
qed

text \<open>The exploration on the machine is that of \<open>eval_loop\<close> with the outputs from the clean machine.\<close>

lemma grade_loop_clean:
  assumes tm: "tame env sub" and kill: "\<forall>pid. pid \<noteq> ev_self env \<longrightarrow> ev_can_kill env pid"
  shows "ready env sh0 sh \<Longrightarrow>
    \<exists>sh'. grade_loop env sub dag queue res sh = (eval_loop dag marks (clean_output env sub sh0) queue res, sh') \<and> ready env sh0 sh'"
  using assms
proof (induction env sub dag queue res sh rule: grade_loop.induct)
  case (2 env sub dag node queue res sh)
  obtain sh1 sh2 where k: "kill_all env sh = Inr sh1"
    and r: "run_test_on env sub node sh1 = (run_test marks (clean_output env sub sh0) node, sh2)" "ready env sh0 sh2"
    using ready_test [OF 2(4-6)] by blast
  show ?case
  proof (cases "node \<in> set (dict_keys res)")
    case True
    then show ?thesis using 2(1) 2(4-6) by simp
  next
    case new: False
    note ih = 2(2,3) [OF new k r(1) [symmetric]]
    show ?thesis
    proof (cases "run_test marks (clean_output env sub sh0) node")
      case (Inl e)
      then show ?thesis using new k r by simp
    next
      case score: (Inr score)
      show ?thesis
      proof (cases "score = 0")
        case True
        then show ?thesis using ih(1) [OF score True r(2) 2(5,6)] r score new k by simp
      next
        case nz: False
        show ?thesis
        proof (cases "dict_index dag node")
          case (Inl e)
          then show ?thesis using new k r score nz by simp
        next
          case (Inr children)
          then show ?thesis using ih(2) [OF score nz Inr r(2) 2(5,6)] score new k r nz by simp
        qed
      qed
    qed
  qed
qed simp

definition folder_of :: "string \<Rightarrow> string" where
  "folder_of file_name = ''/tmp/eval_'' @ take (length file_name - 3) file_name"

definition is_zip :: "string \<Rightarrow> bool" where
  "is_zip file_name \<longleftrightarrow> 4 \<le> length file_name \<and> drop (length file_name - 4) file_name = ''.zip''"

lemma folder_inj: "is_zip f \<Longrightarrow> is_zip g \<Longrightarrow> folder_of f = folder_of g \<Longrightarrow> f = g"
proof -
  assume z: "is_zip f" "is_zip g" and eq: "folder_of f = folder_of g"
  have split: "h = take (length h - 3) h @ ''zip''" if h: "is_zip h" for h
  proof -
    have "h = take (length h - 4) h @ ''.zip''" using h append_take_drop_id [of "length h - 4" h] by (simp add: is_zip_def)
    then obtain g where g: "h = g @ ''.zip''" by blast
    then show ?thesis by simp
  qed
  show "f = g" using split [OF z(1)] split [OF z(2)] eq by (metis folder_of_def same_append_eq)
qed

definition package :: "(string \<Rightarrow> string) \<Rightarrow> files option \<Rightarrow> files" where
  "package assets extracted =
     dict_union (dict_union [] (case extracted of None \<Rightarrow> [] | Some contents \<Rightarrow> contents)) (injected assets)"

lemma evaluate_zip_clean:
  assumes rd: "ready env sh0 (es_shared st)" and tm: "\<And>fs. tame env (main fs)"
    and kill: "\<forall>pid. pid \<noteq> ev_self env \<longrightarrow> ev_can_kill env pid" and fresh: "dict_get (es_folders st) (folder_of f) = None"
  obtains st' where "evaluate_zip env assets main (Some contents) f st =
      ((case eval_submission (clean_output env (main (package assets (Some contents))) sh0) of Inl e \<Rightarrow> Inl e | Inr res \<Rightarrow> Inr ()), st')"
    "ready env sh0 (es_shared st')" "fst ` set (es_folders st') \<subseteq> insert (folder_of f) (fst ` set (es_folders st))"
    "es_rows st' = es_rows st @ (case eval_submission (clean_output env (main (package assets (Some contents))) sh0) of
      Inl e \<Rightarrow> [] | Inr res \<Rightarrow> map (\<lambda>(test_name, result). (take (length f - 4) f, test_name, result)) res)"
proof -
  let ?files = "package assets (Some contents)"
  let ?st1 = "st\<lparr>es_folders := dict_set (es_folders st) (folder_of f) ?files\<rparr>"
  have main_py: "dict_get ?files ''main.py'' \<noteq> None"
    by (simp add: package_def map_of_dict_union injected_def)
  have rd1: "ready env sh0 (es_shared ?st1)" using rd by simp
  obtain sh where g: "grade_loop env (main ?files) test_case_dag [''none''] [] (es_shared ?st1) =
      (eval_submission (clean_output env (main ?files) sh0), sh)" "ready env sh0 sh"
    using grade_loop_clean [OF tm kill rd1] unfolding eval_submission_def by blast
  have old: "(case dict_get (es_folders st) (folder_of f) of None \<Rightarrow> [] | Some fs \<Rightarrow> fs) = []" using fresh by simp
  have eq: "evaluate_zip env assets main (Some contents) f st =
      (case grade_loop env (main ?files) test_case_dag [''none''] [] (es_shared ?st1) of
         (Inl e, sh) \<Rightarrow> (Inl e, ?st1\<lparr>es_shared := sh\<rparr>)
       | (Inr test_results, sh) \<Rightarrow> (Inr (), write_scores (take (length f - 4) f) test_results (?st1\<lparr>es_shared := sh\<rparr>)))"
    using main_py unfolding evaluate_zip_def folder_of_def [symmetric] old Let_def option.case package_def
    by (simp only: if_False)
  have keys: "fst ` set (es_folders ?st1) \<subseteq> insert (folder_of f) (fst ` set (es_folders st))"
    by (simp add: keys_dict_set)
  show thesis
  proof (cases "eval_submission (clean_output env (main ?files) sh0)")
    case (Inl e)
    then show ?thesis using that [of "?st1\<lparr>es_shared := sh\<rparr>"] eq g keys by simp
  next
    case (Inr res)
    then show ?thesis using that [of "write_scores (take (length f - 4) f) res (?st1\<lparr>es_shared := sh\<rparr>)"] eq g keys
      by (simp add: write_scores_def)
  qed
qed

lemma evaluate_zip_bad:
  "\<exists>st2. evaluate_zip env assets main None f st = (Inr (), st2) \<and> es_shared st2 = es_shared st \<and> es_rows st2 = es_rows st \<and>
    fst ` set (es_folders st2) \<subseteq> insert (folder_of f) (fst ` set (es_folders st))"
  unfolding evaluate_zip_def folder_of_def [symmetric] Let_def option.case by (simp add: keys_dict_set)

lemma evaluate_all_clean:
  assumes rd: "ready env sh0 (es_shared st)" and tm: "\<And>fs. tame env (main fs)"
    and kill: "\<forall>pid. pid \<noteq> ev_self env \<longrightarrow> ev_can_kill env pid"
    and fresh: "\<And>f. f \<in> set names \<Longrightarrow> is_zip f \<Longrightarrow> folder_of f \<notin> fst ` set (es_folders st)" and "distinct names"
  shows "\<exists>st'. evaluate_all env assets main zips names st =
      (snd (eval_all (\<lambda>f. zips f \<noteq> None) (\<lambda>f. clean_output env (main (package assets (zips f))) sh0) names (es_rows st)), st') \<and>
    es_rows st' = fst (eval_all (\<lambda>f. zips f \<noteq> None) (\<lambda>f. clean_output env (main (package assets (zips f))) sh0) names (es_rows st))"
  using assms(1,4,5)
proof (induction names arbitrary: st)
  case (Cons f names)
  let ?sh = "es_shared st"
  let ?sh1 = "?sh\<lparr>sh_procs := lasting env ?sh\<rparr>"
  let ?st1 = "st\<lparr>es_shared := ?sh1\<rparr>"
  have k: "kill_all env ?sh = Inr ?sh1" using ready_runs [OF Cons.prems(1)] Cons.prems(1) kill by (intro kill_all_clean) (auto simp: ready_def)
  have rd1: "ready env sh0 (es_shared ?st1)" using ready_killed [OF Cons.prems(1)] by simp
  have rest: "\<And>g. g \<in> set names \<Longrightarrow> is_zip g \<Longrightarrow> folder_of g \<notin> fst ` set (es_folders st)" "distinct names"
    using Cons.prems(2,3) by auto
  show ?case
  proof (cases "is_zip f")
    case False
    then show ?thesis using Cons.IH [OF rd1] rest k by (simp add: is_zip_def)
  next
    case z: True
    show ?thesis
    proof (cases "zips f")
      case None
      obtain st2 where st2: "evaluate_zip env assets main None f ?st1 = (Inr (), st2)" "es_shared st2 = es_shared ?st1"
        "es_rows st2 = es_rows st" "fst ` set (es_folders st2) \<subseteq> insert (folder_of f) (fst ` set (es_folders st))"
        using evaluate_zip_bad [of env assets main f ?st1] by auto
      have "folder_of g \<notin> fst ` set (es_folders st2)" if "g \<in> set names" "is_zip g" for g
        using st2(4) rest(1) [OF that] folder_inj [OF z that(2)] Cons.prems(3) that by auto
      from Cons.IH [OF _ this rest(2)] rd1 st2 show ?thesis using z None k by (simp add: is_zip_def)
    next
      case (Some contents)
      have none: "dict_get (es_folders ?st1) (folder_of f) = None"
        using Cons.prems(2) [of f] z by (simp add: map_of_eq_None_iff)
      obtain st2 where st2: "evaluate_zip env assets main (Some contents) f ?st1 =
          ((case eval_submission (clean_output env (main (package assets (Some contents))) sh0) of Inl e \<Rightarrow> Inl e | Inr res \<Rightarrow> Inr ()), st2)"
        "ready env sh0 (es_shared st2)" "fst ` set (es_folders st2) \<subseteq> insert (folder_of f) (fst ` set (es_folders ?st1))"
        "es_rows st2 = es_rows ?st1 @ (case eval_submission (clean_output env (main (package assets (Some contents))) sh0) of
          Inl e \<Rightarrow> [] | Inr res \<Rightarrow> map (\<lambda>(test_name, result). (take (length f - 4) f, test_name, result)) res)"
        by (rule evaluate_zip_clean [where assets = assets and contents = contents and main = main, OF rd1 tm kill none])
      have fresh: "folder_of g \<notin> fst ` set (es_folders st2)" if "g \<in> set names" "is_zip g" for g
        using st2(3) rest(1) [OF that] folder_inj [OF z that(2)] Cons.prems(3) that by auto
      show ?thesis
      proof (cases "eval_submission (clean_output env (main (package assets (Some contents))) sh0)")
        case (Inl e)
        then show ?thesis using st2 z Some k by (simp add: is_zip_def)
      next
        case (Inr res)
        from Cons.IH [OF st2(2) fresh rest(2)] Inr st2 z Some k show ?thesis by (simp add: is_zip_def)
      qed
    qed
  qed
qed simp

lemma eval_all_never_raises: "snd (eval_all unzips out files rows) = Inr ()"
proof (induction files arbitrary: rows)
  case (Cons f files)
  have "\<exists>res. eval_submission (out f) = Inr res" using lab2.graded [of "out f"] unfolding eval_submission_def by blast
  then show ?case using Cons.IH by auto
qed simp

section \<open>Properties\<close>

text \<open>
  C21. Tests and submissions do not influence each other's scores: although they share a machine, the script
  records for every submission exactly what the exploration records when each test is run on a clean machine, with no
  checkpoints, an empty Redis and only the processes that the grading never kills. So neither the order of the
  submissions nor what earlier runs left behind matters, and the script does not raise. It is assumed that every other python process can
  be killed, that submissions only start and stop python processes and leave the grader alone, and that no
  folder of theirs is left from before.
\<close>

theorem grading_isolated:
  assumes "grader_runs env (es_shared st)" and "distinct (map fst (sh_procs (es_shared st)))"
    and "\<forall>pid. pid \<noteq> ev_self env \<longrightarrow> ev_can_kill env pid" and "\<And>files. tame env (main files)"
    and "\<And>f. f \<in> set names \<Longrightarrow> is_zip f \<Longrightarrow> folder_of f \<notin> set (dict_keys (es_folders st))" and "distinct names"
  shows "\<exists>st'. evaluate_all env assets main zips names st = (Inr (), st') \<and>
    es_rows st' = fst (eval_all (\<lambda>f. zips f \<noteq> None)
      (\<lambda>f. clean_output env (main (package assets (zips f))) (es_shared st)) names (es_rows st))"
proof -
  have "ready env (es_shared st) (es_shared st)" using assms(1,2) by (simp add: ready_def)
  from evaluate_all_clean [where st = st, OF this assms(4,3) _ assms(6)] assms(5) eval_all_never_raises
  show ?thesis by auto
qed

definition demo_eval :: "eval_env" where
  "demo_eval = \<lparr>ev_self = 1, ev_can_kill = (\<lambda>pid. True), ev_seq = Some ''{}''\<rparr>"

definition demo_sub :: "files \<Rightarrow> submission" where
  "demo_sub files test t sh =
     sh\<lparr>sh_procs := lasting demo_eval sh,
        sh_checkpoints := [(''Reducer_0_0.txt'', ''{}''), (''Reducer_1_0.txt'', ''{}'')]\<rparr>"

text \<open>The machine with a python process and a checkpoint left over.\<close>

definition demo_machine :: eval_state where
  "demo_machine = \<lparr>es_shared = \<lparr>sh_procs = [(1, ''python3''), (2, ''python3.10''), (3, ''redis-server'')],
     sh_checkpoints = [(''Reducer_0_0.txt'', ''[]'')], sh_redis = []\<rparr>, es_folders = [], es_rows = []\<rparr>"

theorem grading_isolated_witness:
  "\<exists>st'. evaluate_all demo_eval (\<lambda>name. []) demo_sub (\<lambda>f. if f = ''a.zip'' then Some [] else None)
      [''b.zip'', ''notes.txt'', ''a.zip''] demo_machine = (Inr (), st') \<and>
    es_rows st' = map (\<lambda>t. (''a'', t, case dict_get marks t of None \<Rightarrow> 0 | Some m \<Rightarrow> m))
      [''none'', ''reducer_once'', ''mapper_once'', ''test_reducer'', ''test_mapper'', ''test_both'', ''test_all'']"
proof -
  let ?zips = "\<lambda>f. if f = ''a.zip'' then Some ([] :: files) else None"
  let ?out = "\<lambda>f. clean_output demo_eval (demo_sub (package (\<lambda>name. []) (?zips f))) (es_shared demo_machine)"
  have "has_substring ''python'' ''python3''" by code_simp
  then have "grader_runs demo_eval (es_shared demo_machine)" by (auto simp: grader_runs_def demo_eval_def demo_machine_def)
  moreover have "distinct (map fst (sh_procs (es_shared demo_machine)))" by (simp add: demo_machine_def)
  moreover have "tame demo_eval (demo_sub files)" for files
    by (simp add: tame_def demo_sub_def distinct_lasting) (simp add: lasting_def)
  ultimately obtain st' where st': "evaluate_all demo_eval (\<lambda>name. []) demo_sub ?zips
      [''b.zip'', ''notes.txt'', ''a.zip''] demo_machine = (Inr (), st')"
    "es_rows st' = fst (eval_all (\<lambda>f. ?zips f \<noteq> None) ?out [''b.zip'', ''notes.txt'', ''a.zip''] (es_rows demo_machine))"
    using grading_isolated [of demo_eval demo_machine demo_sub "[''b.zip'', ''notes.txt'', ''a.zip'']" "\<lambda>name. []" ?zips]
    by (auto simp: demo_eval_def demo_machine_def)
  have correct: "?out f t = ''CORRECT'' @ [CHR 0x0A]" if "t \<in> set score_columns" for f t
  proof -
    have "checker (Some ''{}'') (Some ''{}'') (Some ''{}'') = Inr ''CORRECT''" by code_simp
    then show ?thesis using that
      by (auto simp: clean_output_def run_main_def timeouts_def score_columns_def checker_output_def demo_sub_def demo_eval_def)
  qed
  have stripped: "strip (''CORRECT'' @ [CHR 0x0A]) = ''CORRECT''" by code_simp
  have rt: "run_test marks (?out ''a.zip'') t = dict_index marks t" if "t \<in> set score_columns" for t
    unfolding run_test_def Let_def correct [OF that] stripped by simp
  define out where "out = ?out ''a.zip''"
  have scores: "run_test marks out ''none'' = Inr 10" "run_test marks out ''reducer_once'' = Inr (5 / 2)"
    "run_test marks out ''mapper_once'' = Inr (5 / 2)" "run_test marks out ''test_reducer'' = Inr 5"
    "run_test marks out ''test_mapper'' = Inr 5" "run_test marks out ''test_both'' = Inr 5" "run_test marks out ''test_all'' = Inr 10"
    unfolding out_def by (subst rt, simp add: score_columns_def, simp add: marks_def dict_index_def)+
  have "eval_submission out = Inr [(''none'', 10), (''reducer_once'', 5 / 2), (''mapper_once'', 5 / 2),
      (''test_reducer'', 5), (''test_mapper'', 5), (''test_both'', 5), (''test_all'', 10)]"
    by (simp add: eval_submission_def test_case_dag_def dict_index_def scores)
  then have "fst (eval_all (\<lambda>f. ?zips f \<noteq> None) ?out [''b.zip'', ''notes.txt'', ''a.zip''] (es_rows demo_machine)) =
      map (\<lambda>t. (''a'', t, case dict_get marks t of None \<Rightarrow> 0 | Some m \<Rightarrow> m))
      [''none'', ''reducer_once'', ''mapper_once'', ''test_reducer'', ''test_mapper'', ''test_both'', ''test_all'']"
    by (simp add: out_def demo_machine_def marks_def)
  then show ?thesis using st' by auto
qed

end
