(* ===== verification/RayMr.thy ===== *)
theory RayMr
  imports Tally "HOL-Library.Sublist"
begin

text \<open>
  The map-reduce word count of \<open>demos/ray_mr.py\<close>. The corpus, the output of a Python
  subprocess, is the parameter: a list of words of ASCII bytes, so that a byte and its decoded
  character are the same. A remote task is a function, its returned partitions a list.
\<close>

section \<open>The code\<close>

definition num_partitions :: nat where "num_partitions = 3"

definition chunk_size :: "string list \<Rightarrow> nat" where
  "chunk_size corpus = length corpus div num_partitions"

definition partitions :: "string list \<Rightarrow> string list list" where
  "partitions corpus =
     map (\<lambda>i. take ((i + 1) * chunk_size corpus - i * chunk_size corpus) (drop (i * chunk_size corpus) corpus))
       [0..<num_partitions]"

text \<open>\<open>lower\<close> and \<open>split\<close> of \<open>bytes\<close> know the ASCII letters and white space only.\<close>

definition lower_byte :: "char \<Rightarrow> char" where
  "lower_byte c = (let n = of_char c in if 65 \<le> n \<and> n \<le> (90 :: nat) then char_of (n + 32) else c)"

definition byte_space :: "char \<Rightarrow> bool" where
  "byte_space c = (c \<in> {CHR '' '', CHR 0x09, CHR 0x0A, CHR 0x0B, CHR 0x0C, CHR 0x0D})"

definition map_function :: "string \<Rightarrow> (string \<times> int) list" where
  "map_function document =
     map (\<lambda>word. (word, 1)) (filter (\<lambda>w. w \<noteq> []) (split_by byte_space (map lower_byte document)))"

text \<open>The body of the inner loop: append the result to the partition of its first letter.\<close>

definition emit :: "nat \<Rightarrow> string \<times> int \<Rightarrow> (string \<times> int) list list \<Rightarrow> (string \<times> int) list list res" where
  "emit n r map_results =
     (case fst r of
        [] \<Rightarrow> Inl IndexError
      | first_letter # _ \<Rightarrow>
          let word_index = of_char first_letter mod n in
          Inr (map_results[word_index := map_results ! word_index @ [r]]))"

fun emit_all :: "nat \<Rightarrow> (string \<times> int) list \<Rightarrow> (string \<times> int) list list \<Rightarrow> (string \<times> int) list list res" where
  "emit_all n [] map_results = Inr map_results"
| "emit_all n (r # rs) map_results = rbind (emit n r map_results) (emit_all n rs)"

fun map_documents :: "nat \<Rightarrow> string list \<Rightarrow> (string \<times> int) list list \<Rightarrow> (string \<times> int) list list res" where
  "map_documents n [] map_results = Inr map_results"
| "map_documents n (document # docs) map_results =
     rbind (emit_all n (map_function document) map_results) (map_documents n docs)"

definition apply_map :: "nat \<Rightarrow> string list \<Rightarrow> (string \<times> int) list list res" where
  "apply_map n corpus = map_documents n corpus (replicate n [])"

definition reduce_step :: "string \<times> int \<Rightarrow> (string, int) dict \<Rightarrow> (string, int) dict" where
  "reduce_step kv reduce_results =
     (case kv of (key, val) \<Rightarrow>
        let reduce_results = (if key \<notin> set (dict_keys reduce_results) then dict_set reduce_results key 0
                              else reduce_results) in
        dict_set reduce_results key (the (dict_get reduce_results key) + val))"

definition apply_reduce :: "(string \<times> int) list list \<Rightarrow> (string, int) dict" where
  "apply_reduce results = fold (fold reduce_step) results []"

definition merge_outputs :: "(string, int) dict list \<Rightarrow> (string, int) dict" where
  "merge_outputs outputs = fold (fold (\<lambda>(k, v) d. dict_set d k v)) outputs []"

definition ray_mr :: "string list \<Rightarrow> (string \<times> int) list res" where
  "ray_mr corpus =
     rbind (rmap (apply_map num_partitions) (partitions corpus)) (\<lambda>map_results.
       let outputs = map (\<lambda>i. apply_reduce (map (\<lambda>partition. partition ! i) map_results)) [0..<num_partitions];
           counts = merge_outputs outputs in
       Inr (sorted_desc snd counts))"

section \<open>The partitions of the words\<close>

definition letter_index :: "nat \<Rightarrow> string \<Rightarrow> nat" where
  "letter_index n w = of_char (hd w) mod n"

definition tokens_of :: "string list \<Rightarrow> string list" where
  "tokens_of docs = concat (map (\<lambda>d. filter (\<lambda>w. w \<noteq> []) (split_by byte_space (map lower_byte d))) docs)"

definition bucket :: "nat \<Rightarrow> nat \<Rightarrow> string list \<Rightarrow> (string \<times> int) list" where
  "bucket n i ws = map (\<lambda>w. (w, 1)) (filter (\<lambda>w. letter_index n w = i) ws)"

lemma bucket_simps [simp]:
  "bucket n i [] = []"
  "bucket n i (w # ws) = (if letter_index n w = i then [(w, 1)] else []) @ bucket n i ws"
  "bucket n i (ws @ ws') = bucket n i ws @ bucket n i ws'"
  by (simp_all add: bucket_def)

lemma emit_all_words:
  assumes "0 < n" "[] \<notin> set ws" "length rs = n"
  shows "emit_all n (map (\<lambda>w. (w, 1)) ws) rs = Inr (map (\<lambda>i. rs ! i @ bucket n i ws) [0..<n])"
  using assms(2,3)
proof (induction ws arbitrary: rs)
  case Nil
  then show ?case by (simp add: list_eq_iff_nth_eq)
next
  case (Cons w ws)
  let ?i = "letter_index n w"
  have i: "?i < n" using assms(1) by (simp add: letter_index_def)
  have "emit n (w, 1) rs = Inr (rs[?i := rs ! ?i @ [(w, 1)]])"
    using Cons.prems by (cases w) (auto simp: emit_def letter_index_def Let_def)
  moreover have "map (\<lambda>i. rs[?i := rs ! ?i @ [(w, 1)]] ! i @ bucket n i ws) [0..<n] =
      map (\<lambda>i. rs ! i @ bucket n i (w # ws)) [0..<n]"
    using i Cons.prems by (intro map_cong) (auto simp: nth_list_update)
  moreover have "emit_all n (map (\<lambda>w. (w, 1)) ws) (rs[?i := rs ! ?i @ [(w, 1)]]) =
      Inr (map (\<lambda>i. rs[?i := rs ! ?i @ [(w, 1)]] ! i @ bucket n i ws) [0..<n])"
    using Cons.prems by (intro Cons.IH) simp_all
  ultimately show ?case by (simp only: list.map emit_all.simps rbind_Inr)
qed

lemma map_documents_words:
  assumes "0 < n"
  shows "length rs = n \<Longrightarrow> map_documents n docs rs = Inr (map (\<lambda>i. rs ! i @ bucket n i (tokens_of docs)) [0..<n])"
proof (induction docs arbitrary: rs)
  case Nil
  then show ?case using map_nth [of rs] by (simp add: tokens_of_def)
next
  case (Cons d docs)
  have "map_function d = map (\<lambda>w. (w, 1)) (tokens_of [d])" "[] \<notin> set (tokens_of [d])"
    by (simp_all add: map_function_def tokens_of_def)
  from emit_all_words [OF assms this(2) Cons.prems] this(1)
  have "emit_all n (map_function d) rs = Inr (map (\<lambda>i. rs ! i @ bucket n i (tokens_of [d])) [0..<n])" by simp
  moreover have "map_documents n docs (map (\<lambda>i. rs ! i @ bucket n i (tokens_of [d])) [0..<n]) =
      Inr (map (\<lambda>i. map (\<lambda>i. rs ! i @ bucket n i (tokens_of [d])) [0..<n] ! i @ bucket n i (tokens_of docs)) [0..<n])"
    by (intro Cons.IH) simp
  moreover have "map (\<lambda>i. map (\<lambda>i. rs ! i @ bucket n i (tokens_of [d])) [0..<n] ! i @ bucket n i (tokens_of docs)) [0..<n] =
      map (\<lambda>i. rs ! i @ bucket n i (tokens_of (d # docs))) [0..<n]"
    by (intro map_cong) (simp_all add: tokens_of_def)
  ultimately show ?case by (simp only: map_documents.simps rbind_Inr)
qed

lemma apply_map_words: "0 < n \<Longrightarrow> apply_map n docs = Inr (map (\<lambda>i. bucket n i (tokens_of docs)) [0..<n])"
  unfolding apply_map_def by (subst map_documents_words) (auto intro!: map_cong)

section \<open>Reducing and merging\<close>

lemma reduce_step_bump: "reduce_step (k, v) d = bump d k v"
proof (cases "map_of d k")
  case None
  then have "k \<notin> fst ` set d" by (simp add: map_of_eq_None_iff)
  then show ?thesis using None by (simp add: reduce_step_def bump_def dict_simps Let_def)
next
  case (Some c)
  then have "k \<in> fst ` set d" by (metis domI dom_map_of_conv_image_fst)
  then show ?thesis using Some by (simp add: reduce_step_def bump_def Let_def)
qed

lemma apply_reduce_bump: "apply_reduce results = bump_all [] (concat results)"
proof -
  have "reduce_step = (\<lambda>(k, n) d. bump d k n)" by (auto simp: fun_eq_iff reduce_step_bump)
  then have step: "fold reduce_step items d = bump_all d items" for items d by (simp add: bump_all_def)
  have "fold (fold reduce_step) results d = bump_all d (concat results)" for d
    by (induction results arbitrary: d) (simp_all add: step bump_all_def)
  then show ?thesis by (simp add: apply_reduce_def)
qed

lemma dict_set_new: "k \<notin> fst ` set d \<Longrightarrow> dict_set d k v = d @ [(k, v)]"
  by (induction d) auto

lemma merge_disjoint:
  "distinct (map fst (concat ds)) \<Longrightarrow> merge_outputs ds = concat ds"
proof -
  have one: "fold (\<lambda>(k, v) d. dict_set d k v) items d = d @ items" if "distinct (map fst (d @ items))" for items d :: "('a, 'b) dict"
    using that
  proof (induction items arbitrary: d)
    case (Cons p items)
    obtain k v where p: "p = (k, v)" by fastforce
    have "k \<notin> fst ` set d" using Cons.prems p by auto
    then have "dict_set d k v = d @ [(k, v)]" by (rule dict_set_new)
    then show ?case using Cons p by simp
  qed simp
  have "fold (fold (\<lambda>(k, v) d. dict_set d k v)) ds d = d @ concat ds" if "distinct (map fst (d @ concat ds))" for d
    using that
  proof (induction ds arbitrary: d)
    case (Cons e ds)
    have "distinct (map fst (d @ e))" "distinct (map fst ((d @ e) @ concat ds))" using Cons.prems by auto
    from one [OF this(1)] Cons.IH [OF this(2)] show ?case by (simp only: fold.simps comp_apply concat.simps append_assoc)
  qed simp
  then show "distinct (map fst (concat ds)) \<Longrightarrow> merge_outputs ds = concat ds" by (simp add: merge_outputs_def)
qed

lemma bucket_concat: "concat (map (\<lambda>ws. bucket n i (f ws)) wss) = bucket n i (concat (map f wss))"
  by (induction wss) simp_all

lemma tokens_of_concat: "concat (map tokens_of dss) = tokens_of (concat dss)"
  by (induction dss) (simp_all add: tokens_of_def)

lemma keys_bucket: "fst ` set (bucket n i ws) = {w \<in> set ws. letter_index n w = i}"
  by (induction ws) auto

lemma tally_bucket: "tally (bucket n i ws) w = (if letter_index n w = i then int (count_list ws w) else 0)"
  by (induction ws) auto

text \<open>The outputs of the reducers have disjoint keys and together the count of every word.\<close>

definition outputs_of :: "nat \<Rightarrow> string list \<Rightarrow> (string, int) dict list" where
  "outputs_of n ws = map (\<lambda>i. bump_all [] (bucket n i ws)) [0..<n]"

lemma distinct_outputs: "distinct (map fst (concat (outputs_of n ws)))"
proof -
  have "distinct (concat (map (\<lambda>i. dict_keys (bump_all [] (bucket n i ws))) is))" if "distinct is" for "is"
    using that
  proof (induction "is")
    case (Cons i "is")
    have "distinct (dict_keys (bump_all [] (bucket n i ws)))" by (simp add: distinct_bump_all)
    moreover have "set (dict_keys (bump_all [] (bucket n i ws))) \<inter>
        set (concat (map (\<lambda>i. dict_keys (bump_all [] (bucket n i ws))) is)) = {}"
      using Cons.prems by (auto simp: keys_bump_all keys_bucket)
    ultimately show ?case using Cons by simp
  qed simp
  from this [of "[0..<n]"] show ?thesis by (simp add: outputs_of_def map_concat comp_def)
qed

lemma map_of_outputs:
  assumes "0 < n"
  shows "map_of (concat (outputs_of n ws)) w = (if w \<in> set ws then Some (int (count_list ws w)) else None)"
proof -
  have "(w, c) \<in> set (bump_all [] (bucket n i ws)) \<longleftrightarrow> letter_index n w = i \<and> w \<in> set ws \<and> c = int (count_list ws w)" for i c
  proof -
    have "(w, c) \<in> set (bump_all [] (bucket n i ws)) \<longleftrightarrow> map_of (bump_all [] (bucket n i ws)) w = Some c"
      by (simp add: map_of_eq_Some_iff distinct_bump_all)
    then show ?thesis by (auto simp: map_of_bump_all_Nil keys_bucket tally_bucket)
  qed
  then have "(w, c) \<in> set (concat (outputs_of n ws)) \<longleftrightarrow> w \<in> set ws \<and> c = int (count_list ws w)" for c
    using assms by (auto simp: outputs_of_def letter_index_def)
  then have "map_of (concat (outputs_of n ws)) w = Some c \<longleftrightarrow> w \<in> set ws \<and> c = int (count_list ws w)" for c
    by (simp add: map_of_eq_Some_iff distinct_outputs)
  then show ?thesis by (cases "map_of (concat (outputs_of n ws)) w") auto
qed

lemma concat_partitions: "concat (partitions corpus) = take (3 * (length corpus div 3)) corpus"
proof -
  let ?c = "length corpus div 3"
  have "partitions corpus = [take ?c corpus, take ?c (drop ?c corpus), take ?c (drop (?c + ?c) corpus)]"
    by (simp add: partitions_def num_partitions_def chunk_size_def upt_rec mult_2)
  moreover have "take (?c + (?c + ?c)) corpus =
      take ?c corpus @ take ?c (drop ?c corpus) @ take ?c (drop (?c + ?c) corpus)"
    by (simp only: take_add drop_drop)
  moreover have "3 * ?c = ?c + (?c + ?c)" by simp
  ultimately show ?thesis by (simp only: concat.simps append_Nil2)
qed

lemma ray_mr_result: "ray_mr corpus = Inr (sorted_desc snd (concat (outputs_of 3 (tokens_of (concat (partitions corpus))))))"
proof -
  let ?p = "partitions corpus"
  have "rmap (apply_map num_partitions) ps = Inr (map (\<lambda>p. map (\<lambda>i. bucket 3 i (tokens_of p)) [0..<3]) ps)" for ps
    by (induction ps) (simp_all add: apply_map_words num_partitions_def)
  moreover have "map (\<lambda>i. apply_reduce (map (\<lambda>partition. partition ! i)
      (map (\<lambda>p. map (\<lambda>i. bucket 3 i (tokens_of p)) [0..<3]) ?p))) [0..<num_partitions] =
      outputs_of 3 (tokens_of (concat ?p))"
    unfolding outputs_of_def num_partitions_def
    by (intro map_cong) (simp_all add: apply_reduce_bump comp_def bucket_concat tokens_of_concat cong: map_cong)
  ultimately show ?thesis by (simp add: ray_mr_def Let_def merge_disjoint distinct_outputs)
qed

lemma map_of_sorted_desc:
  assumes "distinct (dict_keys d)"
  shows "map_of (sorted_desc key d) = map_of d" "distinct (dict_keys (sorted_desc key d))"
proof -
  have "mset (dict_keys (sorted_desc key d)) = mset (dict_keys d)" by simp
  then show d: "distinct (dict_keys (sorted_desc key d))" using assms mset_eq_imp_distinct_iff by blast
  show "map_of (sorted_desc key d) = map_of d" by (simp add: map_of_inject_set [OF d assms])
qed

section \<open>Properties\<close>


end
