(* ===== verification/RayPs.thy ===== *)
theory RayPs
  imports Prelude "HOL-Library.Multiset"
begin

text \<open>
  The parameter servers of \<open>demos/ray_ps.py\<close>: actors that each hold a shard of a vector, and workers
  that send them gradients. An actor executes the calls it receives one at a time, in an order that
  depends on the workers; the entries, floats that hold small whole numbers, are integers. Sleeping and
  printing are not modelled.
\<close>

section \<open>The code\<close>

definition ps_init :: "nat \<Rightarrow> int list" where
  "ps_init dim = replicate dim 0"

text \<open>\<open>+=\<close> on arrays: equal shapes are added, an array of length 1 is added to every entry.\<close>

definition update_params :: "int list \<Rightarrow> int list \<Rightarrow> int list res" where
  "update_params params grad =
     (if length grad = length params then Inr (map2 (+) params grad)
      else if length grad = 1 then Inr (map (\<lambda>p. p + hd grad) params)
      else Inl ValueError)"

text \<open>\<open>np.split(xs, n)\<close> wants equal parts.\<close>

definition np_split :: "int list \<Rightarrow> nat \<Rightarrow> int list list res" where
  "np_split xs n =
     (if n = 0 then Inl (GenericException ''ZeroDivisionError'')
      else if length xs mod n \<noteq> 0 then Inl ValueError
      else Inr (map (\<lambda>i. take (length xs div n) (drop (i * (length xs div n)) xs)) [0..<n]))"

text \<open>The calls that one iteration of a worker makes, and those of the whole worker.\<close>

definition worker_round :: "nat \<Rightarrow> (nat \<times> int list) list res" where
  "worker_round servers = rbind (np_split (replicate 10 1) servers) (\<lambda>grad_shards. Inr (zip [0..<servers] grad_shards))"

definition worker_calls :: "nat \<Rightarrow> nat \<Rightarrow> (nat \<times> int list) list res" where
  "worker_calls rounds servers = rbind (rmap (\<lambda>_. worker_round servers) [0..<rounds]) (\<lambda>cs. Inr (concat cs))"

fun execute :: "(nat \<times> int list) list \<Rightarrow> int list list \<Rightarrow> int list list res" where
  "execute [] actors = Inr actors"
| "execute ((i, grad) # calls) actors =
     rbind (update_params (actors ! i) grad) (\<lambda>params. execute calls (actors[i := params]))"

definition parameter_servers :: "int list list" where
  "parameter_servers = map (\<lambda>_. ps_init 5) [0..<2]"

section \<open>Lemmas\<close>

lemma worker_round_two: "worker_round 2 = Inr [(0, replicate 5 1), (1, replicate 5 1)]"
  by code_simp

lemma worker_calls_two: "worker_calls n 2 = Inr (concat (replicate n [(0, replicate 5 1), (1, replicate 5 1)]))"
proof -
  have "rmap (\<lambda>_. worker_round 2) xs = Inr (replicate (length xs) [(0, replicate 5 1), (1, replicate 5 1)])" for xs :: "nat list"
    by (induction xs) (simp_all add: worker_round_two)
  then show ?thesis by (simp add: worker_calls_def)
qed

lemma execute_ones:
  assumes "\<And>i g. (i, g) \<in> set calls \<Longrightarrow> i < 2 \<and> g = replicate 5 1"
  shows "execute calls [replicate 5 a, replicate 5 b] =
    Inr [replicate 5 (a + int (count_list (map fst calls) 0)), replicate 5 (b + int (count_list (map fst calls) 1))]"
  using assms
proof (induction calls arbitrary: a b)
  case (Cons c calls)
  obtain i g where c: "c = (i, g)" by fastforce
  then have "i = 0 \<or> i = 1" and g: "g = replicate 5 1" using Cons.prems [of i g] by auto
  have add: "update_params (replicate 5 x) (replicate 5 1) = Inr (replicate 5 (x + 1))" for x
    by (simp add: update_params_def)
  have IH: "execute calls [replicate 5 a, replicate 5 b] =
    Inr [replicate 5 (a + int (count_list (map fst calls) 0)), replicate 5 (b + int (count_list (map fst calls) 1))]" for a b
    using Cons.prems by (intro Cons.IH) auto
  from \<open>i = 0 \<or> i = 1\<close> show ?case
  proof
    assume "i = 0"
    then show ?thesis by (simp only: c g execute.simps nth_Cons_0 add rbind_Inr list_update.simps nat.case IH) simp
  next
    assume "i = 1"
    then show ?thesis
      by (simp only: c g execute.simps One_nat_def nth_Cons_Suc nth_Cons_0 add rbind_Inr list_update.simps nat.case IH) simp
  qed
qed simp

lemma count_rounds: "count_list (map fst (concat (replicate n [(0, g), (Suc 0, g)]))) (i :: nat) = (if i < 2 then n else 0)"
  by (induction n) (auto simp: less_2_cases_iff)

section \<open>Properties\<close>

text \<open>
  C33. No gradient is lost, whatever the order in which the two servers execute the calls of the two
  workers: when all calls of \<open>n\<close> iterations of both are executed, every one of the ten parameters is
  \<open>2 * n\<close>, and no call raises.
\<close>

theorem all_gradients_added:
  assumes "worker_calls n 2 = Inr calls" and "mset executed = mset (calls @ calls)"
  shows "execute executed parameter_servers = Inr (replicate 2 (replicate 5 (2 * int n)))"
proof -
  have calls: "calls = concat (replicate n [(0, replicate 5 1), (1, replicate 5 1)])"
    using assms(1) by (simp add: worker_calls_two)
  have "set executed \<subseteq> {(0, replicate 5 1), (1, replicate 5 1)}"
    using mset_eq_setD [OF assms(2)] calls by auto
  then have ones: "(i, g) \<in> set executed \<Longrightarrow> i < 2 \<and> g = replicate 5 1" for i g by auto
  have "count_list (map fst executed) i = (if i < 2 then 2 * n else 0)" for i
  proof -
    have "mset (map fst executed) = mset (map fst calls @ map fst calls)" using assms(2) by simp
    then have "count_list (map fst executed) i = count_list (map fst calls @ map fst calls) i" by (metis count_mset)
    then show ?thesis by (simp add: calls count_rounds count_list_append)
  qed
  then have "execute executed [replicate 5 0, replicate 5 0] = Inr [replicate 5 (2 * int n), replicate 5 (2 * int n)]"
    using execute_ones [OF ones, where a = 0 and b = 0] by simp
  then show ?thesis by (simp add: parameter_servers_def ps_init_def upt_rec numeral_2_eq_2)
qed

theorem all_gradients_added_witness:
  "execute [(1, replicate 5 1), (0, replicate 5 1), (0, replicate 5 1), (1, replicate 5 1)] parameter_servers =
     Inr [replicate 5 2, replicate 5 2]"
proof -
  have "worker_calls 1 2 = Inr [(0, replicate 5 1), (1, replicate 5 1)]" by (simp add: worker_calls_two)
  from all_gradients_added [OF this, of "[(1, replicate 5 1), (0, replicate 5 1), (0, replicate 5 1), (1, replicate 5 1)]"]
  show ?thesis by (simp add: numeral_2_eq_2)
qed

end
