(* ===== verification/SerialCount.thy ===== *)
theory SerialCount
  imports Tally Json
begin

text \<open>
  The two scripts of lab 1: the serial word count that prints the three most frequent words
  (\<open>serial.py\<close>) and the script that cuts a table into files (\<open>split_csv.py\<close>). What pandas reads is a
  parameter: the text cells of all files, \<open>None\<close> for a missing one, and the rows of a table. The
  directory walk and the writing of the files are not modelled.
\<close>

section \<open>The serial count\<close>

text \<open>\<open>astype(str)\<close> turns a missing cell into the text nan.\<close>

definition as_text :: "string option \<Rightarrow> string" where
  "as_text cell = (case cell of None \<Rightarrow> ''nan'' | Some s \<Rightarrow> s)"

definition count_word :: "string \<Rightarrow> (string, int) dict \<Rightarrow> (string, int) dict" where
  "count_word word wc =
     (let wc = (if word \<notin> set (dict_keys wc) then dict_set wc word 0 else wc) in
      dict_set wc word (the (dict_get wc word) + 1))"

definition count_text :: "string \<Rightarrow> (string, int) dict \<Rightarrow> (string, int) dict" where
  "count_text text wc = (if text = [CHR 0x0A] then wc else fold count_word (split_space text) wc)"

definition serial_counts :: "string option list \<Rightarrow> (string, int) dict" where
  "serial_counts cells = fold count_text (map as_text cells) []"

definition top_words :: "(string, int) dict \<Rightarrow> (string \<times> int) list" where
  "top_words wc =
     map (\<lambda>w. (w, the (dict_get wc w))) (take 3 (sorted_desc (\<lambda>w. the (dict_get wc w)) (dict_keys wc)))"

definition serial :: "string option list \<Rightarrow> (string \<times> int) list" where
  "serial cells = top_words (serial_counts cells)"

section \<open>Splitting a table\<close>

definition iloc :: "'row list \<Rightarrow> nat \<Rightarrow> nat \<Rightarrow> 'row list" where
  "iloc df start_row end_row = take (end_row - start_row) (drop start_row df)"

definition split_csv :: "string \<Rightarrow> int \<Rightarrow> nat \<Rightarrow> 'row list \<Rightarrow> (string \<times> 'row list) list" where
  "split_csv output_dir num_files rows_per_file df =
     (let total_rows = length df in
      map (\<lambda>i.
        let start_row = i * rows_per_file;
            end_row = min (start_row + rows_per_file) total_rows in
        (output_dir @ ''/part_'' @ digits (i + 1) @ ''.csv'', iloc df start_row end_row))
       [0..<nat num_files])"

text \<open>
  \<open>main\<close>: \<open>Inl None\<close> is the exit after the usage message, \<open>Inl (Some e)\<close> an exception.
  \<open>read_csv\<close> is pandas.
\<close>

definition split_main :: "(string \<Rightarrow> 'row list res) \<Rightarrow> string list \<Rightarrow> exc option + (string \<times> 'row list) list" where
  "split_main read_csv argv =
     (if length argv \<noteq> 4 then Inl None
      else
        (case rbind (int_of_string (argv ! 3)) (\<lambda>num_files.
              rbind (read_csv (argv ! 1)) (\<lambda>df. Inr (split_csv (argv ! 2) num_files 20000 df))) of
           Inl e \<Rightarrow> Inl (Some e)
         | Inr files \<Rightarrow> Inr files))"

section \<open>Lemmas\<close>

lemma count_word_bump: "count_word w d = bump d w 1"
proof (cases "map_of d w")
  case None
  then have "w \<notin> fst ` set d" by (simp add: map_of_eq_None_iff)
  then show ?thesis using None by (simp add: count_word_def bump_def dict_simps Let_def)
next
  case (Some c)
  then have "w \<in> fst ` set d" by (metis domI dom_map_of_conv_image_fst)
  then show ?thesis using Some by (simp add: count_word_def bump_def Let_def)
qed

text \<open>The words that are counted: the fields of all cells that are not a single newline.\<close>

definition serial_words :: "string option list \<Rightarrow> string list" where
  "serial_words cells = concat (map split_space (filter (\<lambda>t. t \<noteq> [CHR 0x0A]) (map as_text cells)))"

lemma serial_counts_counter: "serial_counts cells = counter (serial_words cells)"
proof -
  have "fold count_word ws d = counter_update d ws" for ws d
    by (simp add: counter_update_def count_word_bump [abs_def])
  then have "fold count_text ts d = counter_update d (concat (map split_space (filter (\<lambda>t. t \<noteq> [CHR 0x0A]) ts)))" for ts d
    by (induction ts arbitrary: d) (simp_all add: count_text_def counter_update_append)
  then show ?thesis by (simp add: serial_counts_def serial_words_def counter_def)
qed

lemma take_is_top:
  assumes "sorted_wrt (\<lambda>x y. f y \<le> f x) xs" "x \<in> set (take n xs)" "y \<in> set (drop n xs)"
  shows "f y \<le> (f x :: int)"
proof -
  have "sorted_wrt (\<lambda>x y. f y \<le> f x) (take n xs @ drop n xs)" using assms(1) by simp
  then show ?thesis using assms(2,3) by (auto simp only: sorted_wrt_append)
qed

lemma concat_slices:
  "concat (map (\<lambda>i. iloc df (i * r) (min (i * r + r) (length df))) [0..<n]) = take (n * r) df"
proof (induction n)
  case (Suc n)
  have "iloc df (n * r) (min (n * r + r) (length df)) = take r (drop (n * r) df)"
    by (auto simp: iloc_def min_def)
  moreover have "take (Suc n * r) df = take (n * r) df @ take r (drop (n * r) df)"
    using take_add [of "n * r" r df] by (simp add: add.commute)
  ultimately show ?case using Suc by simp
qed simp

section \<open>Properties\<close>

text \<open>
  The serial program prints the most frequent words: at most three different words, as many as there
  are, each with the number of its occurrences, in descending order, and no word that is left out occurs
  more often than one that is printed. A cell with two spaces in a row counts the empty word.
\<close>

theorem serial_top:
  "length (serial cells) = min 3 (card (set (serial_words cells))) \<and> distinct (map fst (serial cells)) \<and>
    sorted_wrt (\<lambda>x y. snd y \<le> snd x) (serial cells) \<and>
    list_all (\<lambda>(w, n). 0 < n \<and> n = int (count_list (serial_words cells) w)) (serial cells) \<and>
    list_all (\<lambda>v. v \<in> fst ` set (serial cells) \<or> list_all (\<lambda>(w, n). int (count_list (serial_words cells) v) \<le> n) (serial cells)) (serial_words cells)"
proof -
  define ws where "ws = serial_words cells"
  let ?d = "counter ws" and ?f = "\<lambda>w. the (map_of (counter ws) w)"
  let ?s = "sorted_desc ?f (dict_keys ?d)"
  have f: "?f w = int (count_list ws w)" if "w \<in> set ws" for w using that by (simp add: map_of_counter)
  have keys: "set ?s = set ws" "distinct ?s" by simp_all
  have len: "length ?s = card (set ws)" using distinct_card [OF keys(2)] keys(1) by simp
  have ser: "serial cells = map (\<lambda>w. (w, ?f w)) (take 3 ?s)"
    by (simp add: serial_def top_words_def serial_counts_counter ws_def)
  have sub: "w \<in> set ws" if "w \<in> set (take 3 ?s)" for w using in_set_takeD [OF that] keys(1) by simp
  have "sorted_wrt (\<lambda>x y. ?f y \<le> ?f x) (take 3 ?s)" by (intro sorted_wrt_take sorted_desc_sorted)
  then have sorted: "sorted_wrt (\<lambda>x y. snd y \<le> snd x) (serial cells)" by (simp add: ser sorted_wrt_map)
  have counts: "0 < n \<and> n = int (count_list ws w)" if "(w, n) \<in> set (serial cells)" for w n
  proof -
    have "w \<in> set ws" "n = ?f w" using that sub by (auto simp: ser)
    moreover from this(1) have "count_list ws w \<noteq> 0" by (simp add: count_list_0_iff)
    ultimately show ?thesis using f by simp
  qed
  have "v \<in> fst ` set (serial cells) \<or> int (count_list ws v) \<le> n"
    if "v \<in> set ws" "(w, n) \<in> set (serial cells)" for v w n
  proof (cases "v \<in> set (take 3 ?s)")
    case False
    then have "v \<in> set (drop 3 ?s)" using that(1) keys(1) by (metis append_take_drop_id Un_iff set_append)
    moreover have "w \<in> set (take 3 ?s)" "n = ?f w" using that(2) by (auto simp: ser)
    ultimately show ?thesis using take_is_top [OF sorted_desc_sorted, of w 3 ?f _ v] f [OF that(1)] by auto
  qed (force simp: ser)
  then have "list_all (\<lambda>v. v \<in> fst ` set (serial cells) \<or> list_all (\<lambda>(w, n). int (count_list ws v) \<le> n) (serial cells)) ws"
    unfolding list_all_iff by blast
  moreover have "list_all (\<lambda>(w, n). 0 < n \<and> n = int (count_list ws w)) (serial cells)"
    using counts unfolding list_all_iff by blast
  moreover have "map fst (serial cells) = take 3 ?s" by (simp add: ser comp_def)
  then have "distinct (map fst (serial cells))" using keys(2) by (simp only: distinct_take)
  moreover have "length (serial cells) = min 3 (card (set ws))" using len by (simp add: ser min.commute)
  ultimately show ?thesis using sorted unfolding ws_def by blast
qed

text \<open>
  Splitting a table keeps the order of the rows and repeats none: the files one after the other are
  the first \<open>num_files * rows_per_file\<close> rows. Rows beyond that are in no file.
\<close>

theorem split_csv_rows:
  "concat (map snd (split_csv dir num_files r df)) = take (nat num_files * r) df \<and>
   length (split_csv dir num_files r df) = nat num_files \<and>
   list_all (\<lambda>(name, rows). length rows \<le> r) (split_csv dir num_files r df)"
proof -
  have "map snd (split_csv dir num_files r df) =
      map (\<lambda>i. iloc df (i * r) (min (i * r + r) (length df))) [0..<nat num_files]"
    by (simp add: split_csv_def Let_def)
  then have "concat (map snd (split_csv dir num_files r df)) = take (nat num_files * r) df"
    by (simp only: concat_slices)
  then show ?thesis by (simp add: split_csv_def Let_def list_all_iff iloc_def) auto
qed

end
