(* ===== verification/Spec2Isabelle.thy ===== *)
theory Spec2Isabelle
  imports ChainSockets ChainClient JobData JobEnds BayouRuns Lab4Grade LcsBlocks EvalRuns RayMr RayPs SerialCount
begin

text \<open>
  A verification library for the labs and demos of the cloud computing course col733. The repository
  holds four labs, each a small distributed system that students complete, the scripts that grade
  them, and demos of the Ray framework. The library models the code that is there, the unfinished
  handlers included: a handler that is a TODO does nothing here, and one that raises raises here.

  Parts of the program and their theories.

  \<^item> Lab 3, a chain-replicated key-value store. \<open>Framing\<close> is the message layer
    (\<open>core/message.py\<close>, \<open>core/socket_helpers.py\<close>) over a socket that is the locale
    \<open>byte_stream\<close>; \<open>Links\<close> the socket pools, the connection stub and the construction of a
    cluster (\<open>core/network.py\<close>, \<open>core/cluster.py\<close>); \<open>ChainServer\<close> one server
    and one client (\<open>cr/cr_server.py\<close>, \<open>cr/cr_cluster.py\<close>, \<open>handle_client\<close> of
    \<open>core/server.py\<close>); \<open>ChainRuns\<close> the cluster as a transition system of interleaved
    requests, with the locale \<open>chain\<close> for the wiring the proofs need and \<open>CrCluster\<close> as its
    interpretation; \<open>ChainSockets\<close> the same cluster with the pools of sockets, as the constructor and
    \<open>start_all\<close> leave it, refined to \<open>ChainRuns\<close> by forgetting the pools;
    \<open>ChainClient\<close> one client and the tail on one connection, down to the bytes.
  \<^item> Lab 2, a word count with mappers, reducers and a coordinator. \<open>WordMessage\<close> is
    \<open>message.py\<close> and the blocks on a connection (locale \<open>fixed_blocks\<close>);
    \<open>WordCount\<close> the mapper, the reducer, the sequential count, the checkers and the distribution of files
    (\<open>mapper.py\<close>, \<open>reducer.py\<close>, \<open>seq.py\<close>, \<open>checker.py\<close>,
    \<open>main.py\<close>); \<open>WordCountRun\<close> the whole job from files to verdict;
    \<open>Coordinator\<close> the coordinator process as a transition system of its two threads, its timer and the
    killing of workers (\<open>coordinator.py\<close>, \<open>_coordinator.py\<close>); \<open>JobRuns\<close> all
    processes of a job and their threads in one transition system: the coordinator, the mappers that connect and
    count, the reducers, heartbeats, datagrams that are lost or reordered, and workers that are killed and started
    anew, a mapper also in the middle of a file; \<open>JobPositions\<close> where each count is at every moment of a
    job that loses no reducer; \<open>JobCounts\<close> what a job that loses no worker has counted and that the
    workers come to rest; \<open>JobLosses\<close> jobs that lose mappers or a reducer; \<open>JobEnds\<close> how the
    coordinator ends a job; \<open>JobData\<close> the generated test data (\<open>generator.py\<close>) and the job
    on it; \<open>EvalDag\<close> the exploration of the tests by the grading (\<open>evaluation/lab2_eval.py\<close>,
    \<open>pivot.py\<close>, \<open>assets/_coordinator.py\<close>) with the locale \<open>test_graph\<close>;
    \<open>EvalRuns\<close> the whole grading script on the machine that all tests share.
  \<^item> Lab 4, a Bayou server. \<open>BayouClock\<close> is \<open>bayou/storage.py\<close>,
    \<open>BayouNode\<close> the control messages, the network with simulated disconnections, the server with its
    anti-entropy thread, the application and the client; \<open>BayouRuns\<close> a cluster of them as a transition
    system, every request going as bytes over a connection of its own (\<open>core/server.py\<close>,
    \<open>core/cluster.py\<close>). The lab leaves \<open>apply\<close> and \<open>anti_entropy\<close> of the
    storage open: the code that calls them is modelled for any two such operations, and \<open>starter_ops\<close> are
    those of the repository, which raise. \<open>Lab4Grade\<close> is the grading
    (\<open>evaluation/evaluate.py\<close>).
  \<^item> Lab 1: \<open>SerialCount\<close> (\<open>serial.py\<close>, \<open>split_csv.py\<close>).
  \<^item> Demos: \<open>LcsBlocks\<close> (\<open>ray_lcs.py\<close>), \<open>RayMr\<close>
    (\<open>ray_mr.py\<close>), \<open>RayPs\<close> (\<open>ray_ps.py\<close>).
  \<^item> Shared: \<open>Prelude\<close> (exceptions as values, dictionaries, \<open>split\<close>,
    \<open>Counter\<close>), \<open>Json\<close> (\<open>json.dumps\<close> and \<open>json.loads\<close>),
    \<open>Tally\<close> (lemmas on counting and on descending sorts).

  How the code is read. A class is a record, an enumeration a datatype, a dictionary an association list in insertion
  order, a function that can raise returns \<open>exc + 'a\<close>, a method that changes its object returns the
  object next to its result, so that what an exception leaves behind is visible. A loop over a socket recurses on the
  bytes left. Processes and threads are step functions with labels, and a property of a run is one of every list of
  labels. Bytes are words of 8 bits; a length prefix is their big-endian value and raises when it does not fit.
  Strings are lists of code points below 256.

  What the lemmas show. About messages: what is sent is received, whatever the segmentation, and what is reported for
  a truncated one. About the chain: every history is that of a single register map, with the pools and without, no
  socket gets lost, every request ends, and what single requests do; also that concurrent writes leave replicas
  different and that a connection that a handler has closed stays in use. About the word count: the distributed result
  is the sequential one when all files can be sent, in every run of the whole job that loses no worker, such a job
  always finishes, the generated test data can be sent, and what happens with an empty word. When mappers are lost the
  job still comes to rest, each word counted between once and once per process of its mapper; when a reducer is lost,
  it stays empty and its mappers repeat what they send to the other one. A job whose report is lost never ends, and
  one that ends can do so before the reducers have counted. About the coordinator: it ends the job exactly when all
  mappers have reported, and what stops it. About Bayou: the orders of clocks and vectors, the invariant check, round
  trips of the control messages, error answers, and for whole clusters what never changes, that an append and an
  anti-entropy exchange over the wire are one application of the storage operations, and that nothing is ever written
  with the operations of the repository. About grading: it terminates, runs exactly the tests to be run, bounds of the
  total, and that what is left on the machine by other tests and submissions does not matter. About the demos: what
  each computes, for all inputs.

  Bounds and fuel. \<open>json.loads\<close> has fuel, twice the length of the text, proved enough for every text,
  well formed or not (\<open>loads_fuel_enough\<close>). No other definition has fuel; loops are shown to end by a
  measure (bytes left, unvisited tests, queued phases).

  Parameters. Redis (\<open>xread\<close>), pandas (\<open>read_csv\<close>, the pivoted index), the sorted list of
  sortedcontainers, the storage operations that lab 4 leaves open, random draws, what a graded submission does when it
  runs, zip files, pip and unittest, the outcome of operating system calls (connecting, sending) and the wall clock.

  Not modelled. The loggers, the Redis and process glue of lab 1's starter code, which is stubs; CRAQ, which is a
  stub; tests; \<open>tf.py\<close>, which only calls TensorFlow; starting and killing operating system processes
  beyond the flags above; the threads' access to shared state within one step, which is atomic here but for a mapper's
  reading of a file, which a kill can interrupt after any byte; one step of the coordinator catches at most one mapper
  so. \<open>labs/lab4/evaluation/base\<close> repeats \<open>labs/lab4/starter\<close> byte for byte but for a
  logger, and most of \<open>labs/lab2/evaluation/assets\<close> repeats lab 2.
\<close>

end
